(* ===== verification/Prelude.thy ===== *)
theory Prelude
  imports Main "HOL-Library.Multiset" "HOL-Library.Monad_Syntax"
begin

text \<open>
  Shared vocabulary of the development.

  C memory is modelled by lists: a block of \<open>n\<close> cells is a list of length \<open>n\<close>, and
  a pointer into it is an index.  Every access goes through \<open>rd\<close> and \<open>wr\<close>, which
  are \<open>None\<close> outside the block: \<open>None\<close> stands for an execution that has no meaning
  in C (an access outside an object, a failed \<open>DBUG_ASSERT\<close>, a null dereference) or that
  does not return.  Unsigned 32-bit arithmetic is written on \<open>nat\<close> with its
  wrap-around.

  The theory also holds the generic interfaces (as locales) that several components
  implement.
\<close>

named_theorems mem_simps \<open>facts on memory reads and writes\<close>

section \<open>Memory blocks\<close>

definition rd :: "'a list \<Rightarrow> nat \<Rightarrow> 'a option" where
  "rd xs i = (if i < length xs then Some (xs ! i) else None)"

definition wr :: "'a list \<Rightarrow> nat \<Rightarrow> 'a \<Rightarrow> 'a list option" where
  "wr xs i v = (if i < length xs then Some (xs[i := v]) else None)"

lemma rd_eq [simp, mem_simps]: "i < length xs \<Longrightarrow> rd xs i = Some (xs ! i)"
  by (simp add: rd_def)

lemma wr_eq [simp, mem_simps]: "i < length xs \<Longrightarrow> wr xs i v = Some (xs[i := v])"
  by (simp add: wr_def)

lemma rd_None_iff [simp]: "rd xs i = None \<longleftrightarrow> length xs \<le> i"
  by (simp add: rd_def)

lemma wr_None_iff [simp]: "wr xs i v = None \<longleftrightarrow> length xs \<le> i"
  by (simp add: wr_def)

lemma rd_Some_iff: "rd xs i = Some v \<longleftrightarrow> i < length xs \<and> xs ! i = v"
  by (auto simp: rd_def)

lemma wr_Some_iff: "wr xs i v = Some ys \<longleftrightarrow> i < length xs \<and> ys = xs[i := v]"
  by (auto simp: wr_def)

section \<open>Unsigned 32-bit arithmetic on nat\<close>

abbreviation UINT_RANGE :: nat where
  "UINT_RANGE \<equiv> 4294967296"

definition u32_add :: "nat \<Rightarrow> nat \<Rightarrow> nat" where
  "u32_add a b = (a + b) mod UINT_RANGE"

definition u32_sub :: "nat \<Rightarrow> nat \<Rightarrow> nat" where
  "u32_sub a b = (a + (UINT_RANGE - b mod UINT_RANGE)) mod UINT_RANGE"

definition u32_mul :: "nat \<Rightarrow> nat \<Rightarrow> nat" where
  "u32_mul a b = (a * b) mod UINT_RANGE"

lemma u32_add_small [simp]: "a + b < UINT_RANGE \<Longrightarrow> u32_add a b = a + b"
  by (simp add: u32_add_def)

lemma u32_sub_small [simp]:
  assumes "b \<le> a" "a < UINT_RANGE"
  shows "u32_sub a b = a - b"
proof -
  have "a + (UINT_RANGE - b mod UINT_RANGE) = (a - b) + UINT_RANGE" using assms by simp
  moreover have "((a - b) + UINT_RANGE) mod UINT_RANGE = (a - b) mod UINT_RANGE"
    by (rule mod_add_self2)
  moreover have "(a - b) mod UINT_RANGE = a - b" using assms by simp
  ultimately show ?thesis unfolding u32_sub_def by presburger
qed

lemma u32_mul_small [simp]: "a * b < UINT_RANGE \<Longrightarrow> u32_mul a b = a * b"
  by (simp add: u32_mul_def)

section \<open>Multisets of array segments\<close>

lemma mset_update_swap:
  assumes "i < length xs"
  shows "add_mset (xs ! i) (mset (xs[i := v])) = add_mset v (mset xs)"
  using assms by (simp add: mset_update)

section \<open>C comparison functions\<close>

text \<open>
  A \<open>qsort\<close>-style comparison function returns a negative, zero or positive \<open>int\<close>.
  What its callers rely on is that it is a total preorder.
\<close>

definition good_compare :: "('a \<Rightarrow> 'a \<Rightarrow> int) \<Rightarrow> bool" where
  "good_compare cmp \<longleftrightarrow>
     (\<forall>a b. sgn (cmp b a) = - sgn (cmp a b)) \<and>
     (\<forall>a b c. cmp a b \<le> 0 \<longrightarrow> cmp b c \<le> 0 \<longrightarrow> cmp a c \<le> 0)"

lemma good_compare_sym: "good_compare cmp \<Longrightarrow> sgn (cmp b a) = - sgn (cmp a b)"
  unfolding good_compare_def by blast

lemma good_compare_refl: "good_compare cmp \<Longrightarrow> cmp a a = 0"
  by (metis equal_neg_zero good_compare_sym sgn_0_0)

lemma good_compare_neg: "good_compare cmp \<Longrightarrow> cmp b a < 0 \<longleftrightarrow> 0 < cmp a b"
  by (metis good_compare_sym neg_0_less_iff_less sgn_greater sgn_less)

lemma good_compare_le: "good_compare cmp \<Longrightarrow> cmp b a \<le> 0 \<longleftrightarrow> 0 \<le> cmp a b"
  by (metis good_compare_neg linorder_not_less)

lemma good_compare_cases:
  assumes "good_compare cmp"
  obtains "cmp a b < 0" "0 < cmp b a" | "cmp a b = 0" "cmp b a = 0" | "0 < cmp a b" "cmp b a < 0"
  using good_compare_neg [OF assms, of a b] good_compare_neg [OF assms, of b a] by linarith

lemma good_compare_trans:
  "good_compare cmp \<Longrightarrow> cmp a b \<le> 0 \<Longrightarrow> cmp b c \<le> 0 \<Longrightarrow> cmp a c \<le> 0"
  unfolding good_compare_def by blast

section \<open>Interface: priority queues\<close>

text \<open>
  What the users of a priority queue (merging of sorted runs, the alarm queue) rely
  on.  The order is a property of the queue object, since the C structure carries its
  own comparison function.
\<close>

locale prio_queue =
  fixes put :: "'q \<Rightarrow> 'a \<Rightarrow> 'q option"
    and take_top :: "'q \<Rightarrow> ('q \<times> 'a) option"
    and elems :: "'q \<Rightarrow> 'a multiset"
    and ordr :: "'q \<Rightarrow> 'a \<Rightarrow> 'a \<Rightarrow> bool"
    and room :: "'q \<Rightarrow> nat"
    and invar :: "'q \<Rightarrow> bool"
  assumes put_ok: "invar q \<Longrightarrow> 0 < room q \<Longrightarrow>
        \<exists>q'. put q x = Some q' \<and> invar q' \<and> elems q' = add_mset x (elems q) \<and>
             ordr q' = ordr q \<and> Suc (room q') = room q"
    and take_ok: "invar q \<Longrightarrow> elems q \<noteq> {#} \<Longrightarrow>
        \<exists>q' x. take_top q = Some (q', x) \<and> invar q' \<and> elems q = add_mset x (elems q') \<and>
             (\<forall>y \<in># elems q. ordr q x y) \<and> ordr q' = ordr q"
begin

fun drain :: "nat \<Rightarrow> 'q \<Rightarrow> 'a list option" where
  "drain 0 q = Some []"
| "drain (Suc n) q = (case take_top q of None \<Rightarrow> None
     | Some (q', x) \<Rightarrow> map_option ((#) x) (drain n q'))"

lemma drain_sorted:
  assumes "invar q" "size (elems q) = n"
  shows "\<exists>xs. drain n q = Some xs \<and> mset xs = elems q \<and> sorted_wrt (ordr q) xs"
  using assms
proof (induction n arbitrary: q)
  case 0
  then show ?case by simp
next
  case (Suc n)
  then have "elems q \<noteq> {#}" by auto
  from take_ok [OF Suc.prems(1) this] obtain q' x where
    q': "take_top q = Some (q', x)" "invar q'" "elems q = add_mset x (elems q')"
      "\<forall>y \<in># elems q. ordr q x y" "ordr q' = ordr q" by blast
  with Suc.prems have "size (elems q') = n" by simp
  from Suc.IH [OF q'(2) this] obtain xs where
    xs: "drain n q' = Some xs" "mset xs = elems q'" "sorted_wrt (ordr q') xs" by blast
  have "\<forall>y \<in> set xs. ordr q x y"
    using q'(3,4) xs(2) by (metis add_mset_add_single set_mset_mset union_iff)
  with q' xs show ?case by simp
qed

end

section \<open>Interface: sets that count their elements\<close>

text \<open>Running an operation that may fail over a list of arguments.\<close>

fun fold_opt :: "('s \<Rightarrow> 'a \<Rightarrow> 's option) \<Rightarrow> 's \<Rightarrow> 'a list \<Rightarrow> 's option" where
  "fold_opt f s [] = Some s"
| "fold_opt f s (x # xs) = Option.bind (f s x) (\<lambda>s'. fold_opt f s' xs)"

text \<open>The count a list of keys and counts has for a key.\<close>

definition tally :: "('k \<Rightarrow> 'k \<Rightarrow> int) \<Rightarrow> ('k \<times> nat) list \<Rightarrow> 'k \<Rightarrow> nat" where
  "tally cmp xs k = sum_list (map snd (filter (\<lambda>x. cmp (fst x) k = 0) xs))"

text \<open>
  What the users of a tree as a set of distinct values (the removal of duplicate rows, the
  distinct aggregates) rely on: a sorted list of keys, whose counts saturate at \<open>cap\<close>.
\<close>

locale counted_set =
  fixes put :: "'t \<Rightarrow> 'k \<Rightarrow> 't option"
    and bag :: "'t \<Rightarrow> ('k \<times> nat) list"
    and ordr :: "'t \<Rightarrow> 'k \<Rightarrow> 'k \<Rightarrow> int"
    and cap :: nat
    and room :: "'t \<Rightarrow> nat"
    and invar :: "'t \<Rightarrow> bool"
  assumes bag_sorted: "invar t \<Longrightarrow> sorted_wrt (\<lambda>a b. ordr t (fst a) (fst b) < 0) (bag t)"
    and tally_cap: "invar t \<Longrightarrow> tally (ordr t) (bag t) k \<le> cap"
    and put_ok: "invar t \<Longrightarrow> 0 < room t \<Longrightarrow>
        \<exists>t'. put t k = Some t' \<and> invar t' \<and> ordr t' = ordr t \<and> room t \<le> Suc (room t') \<and>
          (\<forall>j. tally (ordr t) (bag t') j =
             (if ordr t k j = 0 then min cap (Suc (tally (ordr t) (bag t) j)) else tally (ordr t) (bag t) j))"
begin

lemma put_all:
  assumes "invar t" "length ks \<le> room t"
  shows "\<exists>t'. fold_opt put t ks = Some t' \<and> invar t' \<and> ordr t' = ordr t \<and>
    sorted_wrt (\<lambda>a b. ordr t (fst a) (fst b) < 0) (bag t') \<and>
    (\<forall>j. tally (ordr t) (bag t') j =
       min cap (tally (ordr t) (bag t) j + length (filter (\<lambda>k. ordr t k j = 0) ks)))"
  using assms
proof (induction ks arbitrary: t)
  case Nil
  then show ?case using bag_sorted tally_cap by (simp add: min_absorb2)
next
  case (Cons k ks)
  then obtain t1 where t1: "put t k = Some t1" "invar t1" "ordr t1 = ordr t" "room t \<le> Suc (room t1)"
    "\<And>j. tally (ordr t) (bag t1) j =
       (if ordr t k j = 0 then min cap (Suc (tally (ordr t) (bag t) j)) else tally (ordr t) (bag t) j)"
    using put_ok [of t k] by auto
  then obtain t' where t': "fold_opt put t1 ks = Some t'" "invar t'" "ordr t' = ordr t"
    "sorted_wrt (\<lambda>a b. ordr t (fst a) (fst b) < 0) (bag t')"
    "\<And>j. tally (ordr t) (bag t') j =
       min cap (tally (ordr t) (bag t1) j + length (filter (\<lambda>k. ordr t k j = 0) ks))"
    using Cons.IH [of t1] Cons.prems by auto
  then show ?case using t1 by (simp add: min_def)
qed

end

section \<open>Interface: indexes of records\<close>

text \<open>
  What the users of a hash table rely on: records can be added and removed, and the records that
  a key hits can be enumerated, for the keys that are \<open>good\<close> (equal keys are hashed equally).
\<close>

locale record_index =
  fixes put :: "'t \<Rightarrow> 'r \<Rightarrow> 't option"
    and del :: "'t \<Rightarrow> 'r \<Rightarrow> 't option"
    and find_all :: "'t \<Rightarrow> 'k \<Rightarrow> 'r list option"
    and recs :: "'t \<Rightarrow> 'r multiset"
    and hit :: "'t \<Rightarrow> 'k \<Rightarrow> 'r \<Rightarrow> bool"
    and good :: "'t \<Rightarrow> 'k \<Rightarrow> bool"
    and room :: "'t \<Rightarrow> nat"
    and invar :: "'t \<Rightarrow> bool"
  assumes index_put: "invar t \<Longrightarrow> 0 < room t \<Longrightarrow>
        \<exists>t'. put t r = Some t' \<and> invar t' \<and> recs t' = add_mset r (recs t) \<and> hit t' = hit t \<and>
          good t' = good t \<and> room t \<le> Suc (room t')"
    and index_del: "invar t \<Longrightarrow> r \<in># recs t \<Longrightarrow>
        \<exists>t'. del t r = Some t' \<and> invar t' \<and> recs t = add_mset r (recs t') \<and> hit t' = hit t \<and> good t' = good t"
    and index_find: "invar t \<Longrightarrow> good t k \<Longrightarrow>
        \<exists>rs. find_all t k = Some rs \<and> mset rs = filter_mset (hit t k) (recs t)"
begin

lemma put_list:
  assumes "invar t" "length rs \<le> room t"
  shows "\<exists>t'. fold_opt put t rs = Some t' \<and> invar t' \<and> recs t' = mset rs + recs t \<and> hit t' = hit t \<and> good t' = good t"
  using assms
proof (induction rs arbitrary: t)
  case (Cons r rs)
  then obtain t1 where t1: "put t r = Some t1" "invar t1" "recs t1 = add_mset r (recs t)" "hit t1 = hit t"
    "good t1 = good t" "room t \<le> Suc (room t1)" using index_put [of t r] by auto
  then show ?case using Cons.IH [of t1] Cons.prems by auto
qed simp

lemma del_list:
  assumes "invar t" "mset rs \<subseteq># recs t"
  shows "\<exists>t'. fold_opt del t rs = Some t' \<and> invar t' \<and> recs t' = recs t - mset rs \<and> hit t' = hit t \<and> good t' = good t"
  using assms
proof (induction rs arbitrary: t)
  case (Cons r rs)
  then have "r \<in># recs t" by (simp add: insert_subset_eq_iff)
  then obtain t1 where t1: "del t r = Some t1" "invar t1" "recs t = add_mset r (recs t1)" "hit t1 = hit t" "good t1 = good t"
    using index_del Cons.prems(1) by blast
  then show ?case using Cons.IH [of t1] Cons.prems by auto
qed simp

lemma put_del_find:
  assumes "invar t" "length rs \<le> room t" "mset ds \<subseteq># mset rs + recs t" "good t k"
  shows "\<exists>t1 t2 fs. fold_opt put t rs = Some t1 \<and> fold_opt del t1 ds = Some t2 \<and> find_all t2 k = Some fs \<and>
    mset fs = filter_mset (hit t k) (mset rs + recs t - mset ds)"
proof -
  obtain t1 where t1: "fold_opt put t rs = Some t1" "invar t1" "recs t1 = mset rs + recs t" "hit t1 = hit t" "good t1 = good t"
    using put_list [OF assms(1,2)] by blast
  then obtain t2 where "fold_opt del t1 ds = Some t2" "invar t2" "recs t2 = recs t1 - mset ds" "hit t2 = hit t" "good t2 = good t"
    using del_list [of t1 ds] assms(3) by auto
  then show ?thesis using t1 index_find [of t2 k] assms(4) by auto
qed

end

end
