(* ===== verification/Queues.thy ===== *)
theory Queues
  imports Prelude "HOL-Library.Word"
begin

text \<open>
  Priority queues of \<open>mysys/queues.c\<close>: a binary heap in an array of pointers whose
  cell 0 is used as a sentinel.  Elements are addresses (\<open>nat\<close>); the comparison
  function receives the addresses of the keys, \<open>offset_to_key\<close> bytes into the elements.
  The comparison result is a C \<open>int\<close>, and \<open>max_at_top\<close> (0 or -2) is combined with it by
  exclusive or, as the code does.
\<close>

unbundle bit_operations_syntax

record 'c QUEUE =
  root :: "nat list option"
  first_cmp_arg :: 'c
  elements :: nat
  max_elements :: nat
  offset_to_key :: nat
  max_at_top :: int
  compare :: "'c \<Rightarrow> nat \<Rightarrow> nat \<Rightarrow> int"

definition queue_cmp :: "'c QUEUE \<Rightarrow> nat \<Rightarrow> nat \<Rightarrow> int" where
  "queue_cmp q a b = compare q (first_cmp_arg q) (a + offset_to_key q) (b + offset_to_key q)"

section \<open>Operations\<close>

text \<open>\<open>malloc n\<close> is the block of \<open>n\<close> pointers the allocator returns, \<open>None\<close> when it
  fails; the result pairs the return code (\<open>True\<close> for 1) with the queue.\<close>

definition init_queue ::
  "(nat \<Rightarrow> nat list option) \<Rightarrow> 'c QUEUE \<Rightarrow> nat \<Rightarrow> nat \<Rightarrow> bool
   \<Rightarrow> ('c \<Rightarrow> nat \<Rightarrow> nat \<Rightarrow> int) \<Rightarrow> 'c \<Rightarrow> bool \<times> 'c QUEUE" where
  "init_queue malloc q maxel off max_top cmp arg =
     (let r = malloc (u32_add maxel 1) in
      case r of
        None \<Rightarrow> (True, q\<lparr>root := None\<rparr>)
      | Some blk \<Rightarrow> (False, q\<lparr>root := Some blk, elements := 0, compare := cmp,
           first_cmp_arg := arg, max_elements := maxel, offset_to_key := off,
           max_at_top := (if max_top then (-1) XOR 1 else 0)\<rparr>))"

definition resize_queue ::
  "(nat list option \<Rightarrow> nat \<Rightarrow> nat list option) \<Rightarrow> 'c QUEUE \<Rightarrow> nat \<Rightarrow> bool \<times> 'c QUEUE" where
  "resize_queue realloc q maxel =
     (if max_elements q = maxel then (False, q)
      else case realloc (root q) (u32_add maxel 1) of
        None \<Rightarrow> (True, q)
      | Some new_root \<Rightarrow>
          (False, q\<lparr>elements := min (elements q) maxel, max_elements := maxel,
             root := Some new_root\<rparr>))"

definition reinit_queue ::
  "(nat list option \<Rightarrow> nat \<Rightarrow> nat list option) \<Rightarrow> 'c QUEUE \<Rightarrow> nat \<Rightarrow> nat \<Rightarrow> bool
   \<Rightarrow> ('c \<Rightarrow> nat \<Rightarrow> nat \<Rightarrow> int) \<Rightarrow> 'c \<Rightarrow> bool \<times> 'c QUEUE" where
  "reinit_queue realloc q maxel off max_top cmp arg =
     (let q1 = q\<lparr>elements := 0, compare := cmp, first_cmp_arg := arg, offset_to_key := off,
                 max_at_top := (if max_top then (-1) XOR 1 else 0)\<rparr>
      in (False, snd (resize_queue realloc q1 maxel)))"

definition delete_queue :: "'c QUEUE \<Rightarrow> 'c QUEUE" where
  "delete_queue q = (if root q \<noteq> None then q\<lparr>root := None\<rparr> else q)"

text \<open>The loop of \<open>queue_insert\<close>: it stops at the sentinel when the comparison of an
  element with itself is 0, and has no other bound.\<close>

partial_function (option) queue_insert_loop ::
  "'c QUEUE \<Rightarrow> nat \<Rightarrow> nat list \<Rightarrow> nat \<Rightarrow> (nat list \<times> nat) option" where
  "queue_insert_loop q element rt idx =
     Option.bind (rd rt (idx div 2)) (\<lambda>r.
       let cmp = queue_cmp q element r in
       if cmp \<noteq> 0 \<and> (cmp XOR max_at_top q) < 0
       then Option.bind (wr rt idx r) (\<lambda>rt'. queue_insert_loop q element rt' (idx div 2))
       else Some (rt, idx))"

definition queue_insert :: "'c QUEUE \<Rightarrow> nat \<Rightarrow> 'c QUEUE option" where
  "queue_insert q element =
     (if elements q < max_elements q then
        do {
          rt \<leftarrow> root q;
          rt0 \<leftarrow> wr rt 0 element;
          let n = u32_add (elements q) 1;
          (rt1, idx) \<leftarrow> queue_insert_loop q element rt0 n;
          rt2 \<leftarrow> wr rt1 idx element;
          Some (q\<lparr>root := Some rt2, elements := n\<rparr>)
        }
      else Some q)"

text \<open>The loop of \<open>_downheap\<close>.\<close>

partial_function (option) downheap_loop ::
  "'c QUEUE \<Rightarrow> nat \<Rightarrow> nat list \<Rightarrow> nat \<Rightarrow> (nat list \<times> nat) option" where
  "downheap_loop q element rt idx =
     (if idx \<le> elements q div 2 then
        Option.bind (rd rt (u32_add idx idx)) (\<lambda>l.
        Option.bind
          (if u32_add idx idx < elements q
           then Option.bind (rd rt (u32_add (u32_add idx idx) 1)) (\<lambda>r.
                  Some (if (queue_cmp q l r XOR max_at_top q) > 0
                        then u32_add (u32_add idx idx) 1 else u32_add idx idx))
           else Some (u32_add idx idx)) (\<lambda>next_index.
        Option.bind (rd rt next_index) (\<lambda>c.
          let cmp = queue_cmp q c element in
          if cmp = 0 \<or> (cmp XOR max_at_top q) > 0 then Some (rt, idx)
          else Option.bind (wr rt idx c) (\<lambda>rt'. downheap_loop q element rt' next_index))))
      else Some (rt, idx))"

definition downheap :: "'c QUEUE \<Rightarrow> nat \<Rightarrow> 'c QUEUE option" where
  "downheap q idx =
     do {
       rt \<leftarrow> root q;
       element \<leftarrow> rd rt idx;
       (rt1, i) \<leftarrow> downheap_loop q element rt idx;
       rt2 \<leftarrow> wr rt1 i element;
       Some (q\<lparr>root := Some rt2\<rparr>)
     }"

definition queue_remove :: "'c QUEUE \<Rightarrow> nat \<Rightarrow> ('c QUEUE \<times> nat option) option" where
  "queue_remove q idx =
     (if idx \<ge> max_elements q then Some (q, None)
      else do {
        rt \<leftarrow> root q;
        let i = u32_add idx 1;
        element \<leftarrow> rd rt i;
        lst \<leftarrow> rd rt (elements q);
        rt1 \<leftarrow> wr rt i lst;
        q2 \<leftarrow> downheap (q\<lparr>root := Some rt1, elements := u32_sub (elements q) 1\<rparr>) i;
        Some (q2, Some element)
      })"

definition queue_replaced :: "'c QUEUE \<Rightarrow> 'c QUEUE option" where
  "queue_replaced q = downheap q 1"

definition queue_fix_cmp :: "'c QUEUE \<Rightarrow> nat \<Rightarrow> nat \<Rightarrow> int" where
  "queue_fix_cmp q a b = queue_cmp q a b"

text \<open>\<open>qsort2\<close> (\<open>mysys/mf_qsort.c\<close>) is a parameter here: it sorts a block with a
  comparison function.\<close>

definition queue_fix ::
  "((nat \<Rightarrow> nat \<Rightarrow> int) \<Rightarrow> nat list \<Rightarrow> nat list) \<Rightarrow> 'c QUEUE \<Rightarrow> 'c QUEUE option" where
  "queue_fix qsort2 q =
     (case root q of
        None \<Rightarrow> None
      | Some rt \<Rightarrow>
          if elements q < length rt
          then Some (q\<lparr>root := Some (take 1 rt
                 @ qsort2 (queue_fix_cmp q) (take (elements q) (drop 1 rt))
                 @ drop (Suc (elements q)) rt)\<rparr>)
          else None)"

definition queue_top :: "'c QUEUE \<Rightarrow> nat option" where
  "queue_top q = Option.bind (root q) (\<lambda>rt. rd rt 1)"

section \<open>The order of a queue and its heap property\<close>

definition queue_le :: "'c QUEUE \<Rightarrow> nat \<Rightarrow> nat \<Rightarrow> bool" where
  "queue_le q a b \<longleftrightarrow>
     (if max_at_top q = 0 then queue_cmp q a b \<le> 0 else 0 \<le> queue_cmp q a b)"

text \<open>What the queue needs of its comparison function.  With \<open>max_at_top\<close> set, the
  result -2 has to be excluded: exclusive or with -2 turns it into 0.\<close>

definition queue_order :: "'c QUEUE \<Rightarrow> bool" where
  "queue_order q \<longleftrightarrow> good_compare (queue_cmp q) \<and>
     (max_at_top q = 0 \<or> max_at_top q = -2 \<and> (\<forall>a b. queue_cmp q a b \<noteq> -2))"

definition heap_upto :: "'c QUEUE \<Rightarrow> nat \<Rightarrow> nat list \<Rightarrow> bool" where
  "heap_upto q n rt \<longleftrightarrow> (\<forall>i. 2 \<le> i \<and> i \<le> n \<longrightarrow> queue_le q (rt ! (i div 2)) (rt ! i))"

definition seg :: "nat list \<Rightarrow> nat \<Rightarrow> nat list" where
  "seg rt n = take n (drop 1 rt)"

definition queue_elems :: "'c QUEUE \<Rightarrow> nat multiset" where
  "queue_elems q = (case root q of None \<Rightarrow> {#} | Some rt \<Rightarrow> mset (seg rt (elements q)))"

text \<open>Shape of an initialised queue: its block has one cell more than \<open>max_elements\<close>.\<close>

definition queue_shape :: "'c QUEUE \<Rightarrow> bool" where
  "queue_shape q \<longleftrightarrow> (\<exists>rt. root q = Some rt \<and> length rt = Suc (max_elements q)) \<and>
     elements q \<le> max_elements q \<and> max_elements q < 2147483648"

definition queue_inv :: "'c QUEUE \<Rightarrow> bool" where
  "queue_inv q \<longleftrightarrow> queue_shape q \<and> queue_order q \<and>
     (\<forall>rt. root q = Some rt \<longrightarrow> heap_upto q (elements q) rt)"

lemma xor_minus2_pos: "0 < NOT (x XOR 1) \<longleftrightarrow> (x::int) < 0 \<and> x \<noteq> -2"
proof -
  have "NOT (x XOR 1) = 0 \<longleftrightarrow> x = -2"
    by (metis bit.conj_cancel_left bit.double_compl bit.xor_compl_right bit.xor_left_self
        bit.xor_self minus_numeral_inc_eq xor.commute xor.left_neutral xor_self_eq
        numeral_One not_one_eq)
  moreover have "0 \<le> NOT (x XOR 1) \<longleftrightarrow> x < 0" by simp
  ultimately show ?thesis by linarith
qed

lemma queue_le_refl: "queue_order q \<Longrightarrow> queue_le q a a"
  by (simp add: queue_le_def queue_order_def good_compare_refl)

lemma queue_le_total: "queue_order q \<Longrightarrow> \<not> queue_le q a b \<Longrightarrow> queue_le q b a"
  unfolding queue_le_def queue_order_def using good_compare_le [of "queue_cmp q" a b]
  by (auto split: if_splits)

lemma queue_le_trans:
  assumes "queue_order q" "queue_le q a b" "queue_le q b c"
  shows "queue_le q a c"
proof -
  have g: "good_compare (queue_cmp q)" using assms(1) by (simp add: queue_order_def)
  then show ?thesis
    using assms(2,3) good_compare_trans [OF g, of a b c] good_compare_trans [OF g, of c b a]
      good_compare_le [OF g]
    unfolding queue_le_def by (auto split: if_splits)
qed

lemma insert_guard:
  assumes "queue_order q"
  shows "(queue_cmp q e r \<noteq> 0 \<and> (queue_cmp q e r XOR max_at_top q) < 0) \<longleftrightarrow> \<not> queue_le q r e"
proof -
  have "good_compare (queue_cmp q)" using assms by (simp add: queue_order_def)
  then show ?thesis using assms unfolding queue_order_def queue_le_def
    by (cases rule: good_compare_cases [of "queue_cmp q" e r]) auto
qed

lemma select_guard:
  assumes "queue_order q"
  shows "0 < (queue_cmp q l r XOR max_at_top q) \<longleftrightarrow> \<not> queue_le q l r"
  using assms unfolding queue_order_def queue_le_def by (auto simp: xor_minus2_pos)

lemma stop_guard:
  assumes "queue_order q"
  shows "(queue_cmp q c e = 0 \<or> 0 < (queue_cmp q c e XOR max_at_top q)) \<longleftrightarrow> queue_le q e c"
proof -
  have "good_compare (queue_cmp q)" using assms by (simp add: queue_order_def)
  then show ?thesis using assms unfolding queue_order_def queue_le_def
    by (cases rule: good_compare_cases [of "queue_cmp q" c e]) (auto simp: xor_minus2_pos)
qed

text \<open>The loops with their guards read as comparisons in the order of the queue.\<close>

lemma queue_insert_loop_unfold:
  assumes "queue_order q"
  shows "queue_insert_loop q e rt idx =
     Option.bind (rd rt (idx div 2)) (\<lambda>r.
       if \<not> queue_le q r e
       then Option.bind (wr rt idx r) (\<lambda>rt'. queue_insert_loop q e rt' (idx div 2))
       else Some (rt, idx))"
  by (subst queue_insert_loop.simps) (simp only: Let_def insert_guard [OF assms])

lemma length_seg: "n < length rt \<Longrightarrow> length (seg rt n) = n"
  by (simp add: seg_def)

lemma seg_update:
  "1 \<le> i \<Longrightarrow> seg (rt[i := v]) n = (seg rt n)[i - 1 := v]"
  by (simp add: seg_def drop_update_swap take_update_swap)

lemma seg_nth: "1 \<le> i \<Longrightarrow> i \<le> n \<Longrightarrow> n < length rt \<Longrightarrow> seg rt n ! (i - 1) = rt ! i"
  by (simp add: seg_def)

lemma seg_update_outside: "n < i \<Longrightarrow> seg (rt[i := v]) n = seg rt n"
  by (simp add: seg_def drop_update_swap)

lemma seg_Suc: "Suc n < length rt \<Longrightarrow> seg rt (Suc n) = seg rt n @ [rt ! Suc n]"
  by (simp add: seg_def take_Suc_conv_app_nth)

text \<open>Moving the hole from \<open>i\<close> to \<open>j\<close> exchanges two cells of the completed heap.\<close>

lemma mset_move_hole:
  assumes "1 \<le> i" "i \<le> n" "1 \<le> j" "j \<le> n" "i \<noteq> j" "n < length rt"
  shows "mset (seg (rt[i := rt ! j, j := e]) n) = mset (seg (rt[i := e]) n)"
proof -
  let ?s = "(seg rt n)[i - 1 := e]"
  have ij: "i - 1 < length ?s" "j - 1 < length ?s" "i - 1 \<noteq> j - 1"
    using assms by (auto simp: length_seg)
  have "seg (rt[i := rt ! j, j := e]) n = ?s[i - 1 := ?s ! (j - 1), j - 1 := ?s ! (i - 1)]"
    using assms ij seg_nth [of j n rt] by (simp add: seg_update)
  also have "mset \<dots> = mset ?s" using ij by (intro mset_swap)
  finally show ?thesis using assms by (simp add: seg_update)
qed

section \<open>Insertion\<close>

text \<open>Heap with a hole at \<open>idx\<close>, into which \<open>e\<close> is about to go, seen from below.\<close>

definition hole_up :: "'c QUEUE \<Rightarrow> nat \<Rightarrow> nat list \<Rightarrow> nat \<Rightarrow> nat \<Rightarrow> bool" where
  "hole_up q n rt idx e \<longleftrightarrow>
     (\<forall>i. 2 \<le> i \<and> i \<le> n \<and> i \<noteq> idx \<and> i div 2 \<noteq> idx \<longrightarrow> queue_le q (rt ! (i div 2)) (rt ! i)) \<and>
     (\<forall>i. 2 \<le> i \<and> i \<le> n \<and> i div 2 = idx \<longrightarrow>
        queue_le q e (rt ! i) \<and> (2 \<le> idx \<longrightarrow> queue_le q (rt ! (idx div 2)) (rt ! i)))"

lemma hole_up_fill:
  assumes "hole_up q n rt idx e" "1 \<le> idx" "idx < length rt"
    "2 \<le> idx \<Longrightarrow> queue_le q (rt ! (idx div 2)) e"
  shows "heap_upto q n (rt[idx := e])"
  unfolding heap_upto_def
proof (intro allI impI)
  fix i assume i: "2 \<le> i \<and> i \<le> n"
  show "queue_le q (rt[idx := e] ! (i div 2)) (rt[idx := e] ! i)"
  proof (cases "i = idx")
    case True
    then show ?thesis using assms i by (auto simp: nth_list_update)
  next
    case False
    then show ?thesis using assms i by (cases "i div 2 = idx") (auto simp: hole_up_def)
  qed
qed

lemma hole_up_step:
  assumes o: "queue_order q" and h: "hole_up q n rt idx e" and idx: "2 \<le> idx" "idx < length rt"
    and lt: "\<not> queue_le q (rt ! (idx div 2)) e"
  shows "hole_up q n (rt[idx := rt ! (idx div 2)]) (idx div 2) e"
proof -
  let ?p = "idx div 2" and ?rt = "rt[idx := rt ! (idx div 2)]"
  have p: "?p \<noteq> idx" "?p < idx" using idx by auto
  have le: "queue_le q e (rt ! ?p)" using queue_le_total [OF o lt] .
  have A: "queue_le q (?rt ! (i div 2)) (?rt ! i)"
    if i: "2 \<le> i" "i \<le> n" "i \<noteq> ?p" "i div 2 \<noteq> ?p" for i
  proof (cases "i div 2 = idx")
    case True
    then have "i \<noteq> idx" using idx by auto
    with True show ?thesis using h i idx by (simp add: hole_up_def)
  next
    case False
    then show ?thesis using h i by (auto simp: hole_up_def)
  qed
  have B: "queue_le q e (?rt ! i) \<and> (2 \<le> ?p \<longrightarrow> queue_le q (?rt ! (?p div 2)) (?rt ! i))"
    if i: "2 \<le> i" "i \<le> n" "i div 2 = ?p" for i
  proof -
    have pp: "2 \<le> ?p \<Longrightarrow> queue_le q (rt ! (?p div 2)) (rt ! ?p)"
      using h p idx i that by (auto simp: hole_up_def)
    have si: "i \<noteq> idx \<Longrightarrow> queue_le q (rt ! ?p) (rt ! i)"
      using h i p by (auto simp: hole_up_def)
    have ne: "?p div 2 \<noteq> idx" using p by auto
    show ?thesis
    proof (cases "i = idx")
      case True
      then show ?thesis using le pp idx ne by simp
    next
      case False
      then show ?thesis
        using queue_le_trans [OF o le si] queue_le_trans [OF o pp si] ne by simp
    qed
  qed
  show ?thesis unfolding hole_up_def using A B by auto
qed

lemma queue_insert_loop_ok:
  assumes o: "queue_order q" and n: "n < length rt" "1 \<le> idx" "idx \<le> n"
    and h: "hole_up q n rt idx e" and s: "rt ! 0 = e"
  shows "\<exists>rt' i. queue_insert_loop q e rt idx = Some (rt', i) \<and> length rt' = length rt \<and>
     1 \<le> i \<and> i \<le> n \<and> heap_upto q n (rt'[i := e]) \<and>
     mset (seg (rt'[i := e]) n) = mset (seg (rt[idx := e]) n)"
  using n h s
proof (induction idx arbitrary: rt rule: less_induct)
  case (less idx)
  let ?p = "idx div 2"
  have r: "rd rt ?p = Some (rt ! ?p)" using less.prems by simp
  show ?case
  proof (cases "queue_le q (rt ! ?p) e")
    case True
    then have "queue_insert_loop q e rt idx = Some (rt, idx)"
      by (subst queue_insert_loop_unfold [OF o]) (simp add: r)
    moreover have "heap_upto q n (rt[idx := e])"
      using less.prems True by (intro hole_up_fill) auto
    ultimately show ?thesis using less.prems by auto
  next
    case False
    then have i2: "2 \<le> idx"
      using less.prems(2,5) queue_le_refl [OF o, of e] by (cases "idx = 1") auto
    let ?rt = "rt[idx := rt ! ?p]"
    have step: "queue_insert_loop q e rt idx = queue_insert_loop q e ?rt ?p"
      using False less.prems
      by (subst queue_insert_loop_unfold [OF o]) (simp add: r)
    have "hole_up q n ?rt ?p e"
      using hole_up_step [OF o less.prems(4) i2 _ False] less.prems by simp
    moreover have "?p < idx" "1 \<le> ?p" "?p \<le> n" using i2 less.prems by auto
    ultimately obtain rt' i where
      "queue_insert_loop q e ?rt ?p = Some (rt', i)" "length rt' = length rt" "1 \<le> i" "i \<le> n"
      "heap_upto q n (rt'[i := e])" "mset (seg (rt'[i := e]) n) = mset (seg (?rt[?p := e]) n)"
      using less.IH [of ?p ?rt] less.prems i2 by auto
    moreover have "mset (seg (?rt[?p := e]) n) = mset (seg (rt[idx := e]) n)"
      using less.prems \<open>1 \<le> ?p\<close> \<open>?p \<le> n\<close> \<open>?p < idx\<close> by (intro mset_move_hole) auto
    ultimately show ?thesis using step by auto
  qed
qed

text \<open>Inserting into a queue with room never fails.\<close>

lemma queue_insert_ok:
  assumes inv: "queue_inv q" and room: "elements q < max_elements q"
  shows "\<exists>q'. queue_insert q e = Some q' \<and> queue_inv q' \<and>
     queue_elems q' = add_mset e (queue_elems q) \<and> elements q' = Suc (elements q) \<and>
     max_elements q' = max_elements q \<and> queue_le q' = queue_le q"
proof -
  obtain rt where rt: "root q = Some rt" "length rt = Suc (max_elements q)"
    and o: "queue_order q" and h: "heap_upto q (elements q) rt"
    and mx: "max_elements q < 2147483648" "elements q \<le> max_elements q"
    using inv by (auto simp: queue_inv_def queue_shape_def)
  let ?n = "Suc (elements q)" and ?rt = "rt[0 := e]"
  have n: "u32_add (elements q) 1 = ?n" using mx by simp
  have "hole_up q ?n ?rt ?n e"
    using h by (auto simp: hole_up_def heap_upto_def le_Suc_eq)
  then obtain rt' i where l: "queue_insert_loop q e ?rt ?n = Some (rt', i)"
    and rt': "length rt' = length rt" "1 \<le> i" "i \<le> ?n" "heap_upto q ?n (rt'[i := e])"
      "mset (seg (rt'[i := e]) ?n) = mset (seg (?rt[?n := e]) ?n)"
    using queue_insert_loop_ok [OF o, of ?n ?rt ?n e] rt room by auto
  let ?q = "q\<lparr>root := Some (rt'[i := e]), elements := ?n\<rparr>"
  have same: "queue_cmp ?q = queue_cmp q" "max_at_top ?q = max_at_top q"
    by (auto simp: queue_cmp_def fun_eq_iff)
  have res: "queue_insert q e = Some ?q"
    using room rt rt' l n by (simp add: queue_insert_def)
  have le: "queue_le ?q = queue_le q" by (simp add: queue_le_def fun_eq_iff same)
  have "queue_inv ?q"
    using inv rt rt' room le o
    by (auto simp: queue_inv_def queue_shape_def queue_order_def same heap_upto_def)
  moreover have "queue_elems ?q = add_mset e (queue_elems q)"
    using rt rt' room by (simp add: queue_elems_def seg_Suc seg_update_outside)
      (simp add: seg_def)
  ultimately show ?thesis using res le by auto
qed

section \<open>Sifting down and removal\<close>

text \<open>Heap with a hole at \<open>idx\<close>, seen from above.\<close>

definition hole_down :: "'c QUEUE \<Rightarrow> nat \<Rightarrow> nat list \<Rightarrow> nat \<Rightarrow> nat \<Rightarrow> bool" where
  "hole_down q n rt idx e \<longleftrightarrow>
     (\<forall>i. 2 \<le> i \<and> i \<le> n \<and> i \<noteq> idx \<and> i div 2 \<noteq> idx \<longrightarrow> queue_le q (rt ! (i div 2)) (rt ! i)) \<and>
     (\<forall>i. 2 \<le> i \<and> i \<le> n \<and> i div 2 = idx \<and> 2 \<le> idx \<longrightarrow> queue_le q (rt ! (idx div 2)) (rt ! i)) \<and>
     (2 \<le> idx \<and> idx \<le> n \<longrightarrow> queue_le q (rt ! (idx div 2)) e)"

lemma hole_down_fill:
  assumes "hole_down q n rt idx e" "1 \<le> idx" "idx < length rt"
    "\<And>i. 2 \<le> i \<Longrightarrow> i \<le> n \<Longrightarrow> i div 2 = idx \<Longrightarrow> queue_le q e (rt ! i)"
  shows "heap_upto q n (rt[idx := e])"
  unfolding heap_upto_def
proof (intro allI impI)
  fix i assume i: "2 \<le> i \<and> i \<le> n"
  show "queue_le q (rt[idx := e] ! (i div 2)) (rt[idx := e] ! i)"
  proof (cases "i = idx")
    case True
    then show ?thesis using assms(1-3) i by (auto simp: hole_down_def nth_list_update)
  next
    case False
    then show ?thesis using assms i by (cases "i div 2 = idx") (auto simp: hole_down_def)
  qed
qed

text \<open>The child the code descends to: the smaller of the children.\<close>

definition sel_child :: "'c QUEUE \<Rightarrow> nat \<Rightarrow> nat list \<Rightarrow> nat \<Rightarrow> nat" where
  "sel_child q n rt idx =
     (if 2 * idx < n \<and> \<not> queue_le q (rt ! (2 * idx)) (rt ! Suc (2 * idx))
      then Suc (2 * idx) else 2 * idx)"

lemma sel_child_range:
  "1 \<le> idx \<Longrightarrow> idx \<le> n div 2 \<Longrightarrow>
     sel_child q n rt idx div 2 = idx \<and> sel_child q n rt idx \<le> n \<and> idx < sel_child q n rt idx
     \<and> 2 \<le> sel_child q n rt idx"
  by (auto simp: sel_child_def)

lemma sel_child_least:
  assumes o: "queue_order q" and i: "2 \<le> i" "i \<le> n" "i div 2 = idx"
  shows "queue_le q (rt ! sel_child q n rt idx) (rt ! i)"
proof -
  have "i = 2 * idx \<or> i = Suc (2 * idx)" using i(3) by auto
  then show ?thesis
    using i queue_le_refl [OF o] queue_le_total [OF o] by (auto simp: sel_child_def)
qed

lemma hole_down_step:
  assumes o: "queue_order q" and h: "hole_down q n rt idx e" and idx: "1 \<le> idx" "idx < length rt"
    and half: "idx \<le> n div 2" and gt: "\<not> queue_le q e (rt ! c)" and c: "c = sel_child q n rt idx"
  shows "hole_down q n (rt[idx := rt ! c]) c e"
proof -
  note cr = sel_child_range [OF idx(1) half, of q rt, folded c]
  note cl = sel_child_least [OF o, of _ n idx rt, folded c]
  let ?rt = "rt[idx := rt ! c]"
  have A: "queue_le q (?rt ! (i div 2)) (?rt ! i)"
    if i: "2 \<le> i" "i \<le> n" "i \<noteq> c" "i div 2 \<noteq> c" for i
  proof (cases "i div 2 = idx")
    case True
    then have "i \<noteq> idx" using idx i by auto
    then show ?thesis using cl [OF i(1,2) True] True idx by simp
  next
    case False
    then show ?thesis using h i idx cr by (cases "i = idx") (auto simp: hole_down_def)
  qed
  have B: "queue_le q (?rt ! (c div 2)) (?rt ! i)" if i: "2 \<le> i" "i \<le> n" "i div 2 = c" for i
  proof -
    have "i \<noteq> idx" "c \<noteq> idx" using i cr by auto
    then show ?thesis using h i cr idx by (auto simp: hole_down_def)
  qed
  have "queue_le q (?rt ! (c div 2)) e"
    using queue_le_total [OF o gt] cr idx by simp
  then show ?thesis unfolding hole_down_def using A B by auto
qed

lemma downheap_loop_unfold:
  assumes o: "queue_order q" and n: "elements q < 2147483648" "elements q < length rt"
    and idx: "1 \<le> idx"
  shows "downheap_loop q e rt idx =
     (if idx \<le> elements q div 2 then
        (let c = sel_child q (elements q) rt idx in
         if queue_le q e (rt ! c) then Some (rt, idx)
         else Option.bind (wr rt idx (rt ! c)) (\<lambda>rt'. downheap_loop q e rt' c))
      else Some (rt, idx))"
proof (cases "idx \<le> elements q div 2")
  case True
  let ?c = "sel_child q (elements q) rt idx"
  have u: "u32_add idx idx = 2 * idx" "2 * idx < length rt" "u32_add (2 * idx) 1 = Suc (2 * idx)"
    using True n by auto
  have sel: "(if 2 * idx < elements q
       then Option.bind (rd rt (Suc (2 * idx))) (\<lambda>r.
              Some (if 0 < (queue_cmp q (rt ! (2 * idx)) r XOR max_at_top q)
                    then Suc (2 * idx) else 2 * idx))
       else Some (2 * idx)) = Some ?c"
    using n by (simp only: select_guard [OF o] sel_child_def) simp
  have "?c < length rt" using sel_child_range [OF idx True, of q rt] n by linarith
  then show ?thesis
    by (subst downheap_loop.simps)
      (simp only: True if_True u rd_eq bind.bind_lunit sel Let_def stop_guard [OF o])
next
  case False
  then show ?thesis by (subst downheap_loop.simps) simp
qed

lemma downheap_loop_ok:
  assumes o: "queue_order q" and n: "elements q < 2147483648" "elements q < length rt"
    and idx: "1 \<le> idx" "idx < length rt"
  shows "\<exists>rt' i. downheap_loop q e rt idx = Some (rt', i) \<and> length rt' = length rt \<and>
     1 \<le> i \<and> i < length rt \<and>
     (hole_down q (elements q) rt idx e \<longrightarrow> heap_upto q (elements q) (rt'[i := e])) \<and>
     mset (seg (rt'[i := e]) (elements q)) = mset (seg (rt[idx := e]) (elements q))"
  using n idx
proof (induction "elements q - idx" arbitrary: rt idx rule: less_induct)
  case less
  let ?n = "elements q" and ?c = "sel_child q (elements q) rt idx"
  note unfold = downheap_loop_unfold [OF o less.prems(1,2,3), of e]
  show ?case
  proof (cases "idx \<le> ?n div 2 \<and> \<not> queue_le q e (rt ! ?c)")
    case True
    note cr = sel_child_range [OF less.prems(3) conjunct1 [OF True], of q rt]
    let ?rt = "rt[idx := rt ! ?c]"
    have step: "downheap_loop q e rt idx = downheap_loop q e ?rt ?c"
      using True less.prems by (subst unfold) (simp add: Let_def)
    have "?n - ?c < ?n - idx" "?c < length rt" "1 \<le> ?c" using cr less.prems True by linarith+
    then obtain rt' i where
      "downheap_loop q e ?rt ?c = Some (rt', i)" "length rt' = length rt" "1 \<le> i" "i < length rt"
      "hole_down q ?n ?rt ?c e \<longrightarrow> heap_upto q ?n (rt'[i := e])"
      "mset (seg (rt'[i := e]) ?n) = mset (seg (?rt[?c := e]) ?n)"
      using less.hyps [of ?c ?rt] less.prems by auto
    moreover have "mset (seg (?rt[?c := e]) ?n) = mset (seg (rt[idx := e]) ?n)"
      using cr less.prems by (intro mset_move_hole) auto
    moreover have "hole_down q ?n rt idx e \<Longrightarrow> hole_down q ?n ?rt ?c e"
      using True less.prems by (intro hole_down_step [OF o]) auto
    ultimately show ?thesis using step by auto
  next
    case False
    then have "downheap_loop q e rt idx = Some (rt, idx)"
      by (subst unfold) (auto simp: Let_def)
    moreover have "queue_le q e (rt ! i)" if "2 \<le> i" "i \<le> ?n" "i div 2 = idx" for i
    proof -
      have "idx \<le> ?n div 2" using that by auto
      then show ?thesis
        using False sel_child_least [OF o that, of rt] queue_le_trans [OF o] by blast
    qed
    then have "hole_down q ?n rt idx e \<Longrightarrow> heap_upto q ?n (rt[idx := e])"
      using less.prems by (intro hole_down_fill) auto
    ultimately show ?thesis using less.prems by auto
  qed
qed

lemma downheap_ok:
  assumes o: "queue_order q" and rt: "root q = Some rt" and n: "elements q < 2147483648"
    "elements q < length rt" and idx: "1 \<le> idx" "idx < length rt"
  shows "\<exists>rt'. downheap q idx = Some (q\<lparr>root := Some rt'\<rparr>) \<and> length rt' = length rt \<and>
     (hole_down q (elements q) rt idx (rt ! idx) \<longrightarrow> heap_upto q (elements q) rt') \<and>
     mset (seg rt' (elements q)) = mset (seg rt (elements q))"
proof -
  obtain rt' i where "downheap_loop q (rt ! idx) rt idx = Some (rt', i)"
    "length rt' = length rt" "1 \<le> i" "i < length rt"
    "hole_down q (elements q) rt idx (rt ! idx) \<longrightarrow>
       heap_upto q (elements q) (rt'[i := rt ! idx])"
    "mset (seg (rt'[i := rt ! idx]) (elements q)) = mset (seg rt (elements q))"
    using downheap_loop_ok [OF o n idx, of "rt ! idx"] by auto
  then show ?thesis using rt idx by (auto simp: downheap_def)
qed

text \<open>In a heap the root is a least element.\<close>

lemma heap_root_least:
  assumes o: "queue_order q" and h: "heap_upto q n rt" and i: "1 \<le> i" "i \<le> n"
  shows "queue_le q (rt ! 1) (rt ! i)"
  using i
proof (induction i rule: less_induct)
  case (less i)
  show ?case
  proof (cases "i = 1")
    case True
    then show ?thesis using queue_le_refl [OF o] by simp
  next
    case False
    then have "queue_le q (rt ! 1) (rt ! (i div 2))" using less by auto
    moreover have "queue_le q (rt ! (i div 2)) (rt ! i)"
      using h less.prems False by (auto simp: heap_upto_def)
    ultimately show ?thesis by (rule queue_le_trans [OF o])
  qed
qed

lemma mset_remove_cell:
  assumes "1 \<le> i" "i \<le> n" "n < length rt"
  shows "mset (seg rt n) = add_mset (rt ! i) (mset (seg (rt[i := rt ! n]) (n - 1)))"
proof -
  obtain m where m: "n = Suc m" using assms by (cases n) auto
  then have s: "seg rt n = seg rt m @ [rt ! n]" using assms by (simp add: seg_Suc)
  show ?thesis
  proof (cases "i = n")
    case True
    then show ?thesis using m s by (simp add: seg_update_outside)
  next
    case False
    then have i: "i - 1 < length (seg rt m)" "i \<le> m" using assms m by (auto simp: length_seg)
    have "seg rt m ! (i - 1) = rt ! i" using assms i m by (intro seg_nth) auto
    then show ?thesis
      using mset_update_swap [OF i(1), of "rt ! n"] assms s m by (simp add: seg_update)
  qed
qed

lemma queue_remove_ok:
  assumes shp: "queue_shape q" and o: "queue_order q" and rt: "root q = Some rt"
    and idx: "idx < elements q"
  shows "\<exists>q'. queue_remove q idx = Some (q', Some (rt ! Suc idx)) \<and> queue_shape q' \<and>
     queue_elems q = add_mset (rt ! Suc idx) (queue_elems q') \<and>
     Suc (elements q') = elements q \<and> max_elements q' = max_elements q \<and>
     queue_le q' = queue_le q \<and>
     (heap_upto q (elements q) rt \<longrightarrow>
        idx = 0 \<or> Suc idx = elements q \<or> queue_le q (rt ! (Suc idx div 2)) (rt ! elements q) \<longrightarrow>
        queue_inv q')"
proof -
  have len: "length rt = Suc (max_elements q)" and mx: "elements q \<le> max_elements q"
    "max_elements q < 2147483648" using shp rt by (auto simp: queue_shape_def)
  let ?n = "elements q - 1" and ?i = "Suc idx"
  let ?rt = "rt[?i := rt ! elements q]"
  let ?q = "q\<lparr>root := Some ?rt, elements := ?n\<rparr>"
  have u: "u32_add idx 1 = ?i" "u32_sub (elements q) 1 = ?n" using idx mx by auto
  have same: "queue_cmp (q\<lparr>root := r, elements := m\<rparr>) = queue_cmp q" for r m
    by (simp add: queue_cmp_def fun_eq_iff)
  have le: "queue_le (q\<lparr>root := r, elements := m\<rparr>) = queue_le q" for r m
    by (simp add: queue_le_def fun_eq_iff same)
  have o': "queue_order (q\<lparr>root := r, elements := m\<rparr>)" for r m
    using o by (simp add: queue_order_def same)
  have b: "elements q - Suc 0 < Suc (max_elements q)" using mx by linarith
  obtain rt' where d: "downheap ?q ?i = Some (?q\<lparr>root := Some rt'\<rparr>)" "length rt' = length rt"
    "hole_down ?q ?n ?rt ?i (?rt ! ?i) \<longrightarrow> heap_upto ?q ?n rt'"
    "mset (seg rt' ?n) = mset (seg ?rt ?n)"
    using downheap_ok [OF o' [where r = "Some ?rt" and m = ?n], of ?rt ?i] idx mx len b by auto
  let ?q' = "q\<lparr>root := Some rt', elements := ?n\<rparr>"
  have res: "queue_remove q idx = Some (?q', Some (rt ! ?i))"
    using rt len mx idx u d by (simp add: queue_remove_def)
  have el: "queue_elems q = add_mset (rt ! ?i) (queue_elems ?q')"
    using mset_remove_cell [of ?i "elements q" rt] rt d(4) len mx idx by (simp add: queue_elems_def)
  have shp': "queue_shape ?q'" using d len mx by (simp add: queue_shape_def)
  have hd: "hole_down q ?n ?rt ?i (?rt ! ?i)"
    if h: "heap_upto q (elements q) rt"
      and c: "idx = 0 \<or> ?i = elements q \<or> queue_le q (rt ! (?i div 2)) (rt ! elements q)"
  proof -
    have up: "queue_le q (rt ! (j div 2)) (rt ! j)" if "2 \<le> j" "j \<le> elements q" for j
      using h that by (auto simp: heap_upto_def)
    have child: "queue_le q (rt ! (?i div 2)) (rt ! j)"
      if "2 \<le> j" "j \<le> ?n" "j div 2 = ?i" "2 \<le> ?i" for j
      using queue_le_trans [OF o up [of ?i] , of "rt ! j"] up [of j] that idx by auto
    have "?i div 2 \<noteq> ?i" by auto
    then show ?thesis
      unfolding hole_down_def using up child c len idx mx by auto
  qed
  have "queue_inv ?q'"
    if h: "heap_upto q (elements q) rt"
      and c: "idx = 0 \<or> ?i = elements q \<or> queue_le q (rt ! (?i div 2)) (rt ! elements q)"
    using hd [OF h c] d(3) shp' o' unfolding queue_inv_def by (simp add: hole_down_def heap_upto_def le)
  then show ?thesis using res el shp' le idx by auto
qed

section \<open>The queue as a priority queue\<close>

definition queue_room :: "'c QUEUE \<Rightarrow> nat" where
  "queue_room q = max_elements q - elements q"

text \<open>Taking the top: \<open>queue_remove(queue, 0)\<close>.\<close>

definition queue_take :: "'c QUEUE \<Rightarrow> ('c QUEUE \<times> nat) option" where
  "queue_take q = Option.bind (queue_remove q 0) (\<lambda>(q', r). map_option (Pair q') r)"

lemma queue_elems_nonempty: "queue_shape q \<Longrightarrow> queue_elems q \<noteq> {#} \<longleftrightarrow> 0 < elements q"
  by (auto simp: queue_shape_def queue_elems_def seg_def)

lemma queue_take_ok:
  assumes inv: "queue_inv q" and ne: "queue_elems q \<noteq> {#}"
  shows "\<exists>q' x. queue_take q = Some (q', x) \<and> queue_inv q' \<and>
     queue_elems q = add_mset x (queue_elems q') \<and> (\<forall>y \<in># queue_elems q. queue_le q x y) \<and>
     queue_le q' = queue_le q"
proof -
  obtain rt where rt: "root q = Some rt" "length rt = Suc (max_elements q)"
    and o: "queue_order q" and h: "heap_upto q (elements q) rt" and shp: "queue_shape q"
    and mx: "elements q \<le> max_elements q"
    using inv by (auto simp: queue_inv_def queue_shape_def)
  have pos: "0 < elements q" using ne queue_elems_nonempty [OF shp] by simp
  obtain q' where q': "queue_remove q 0 = Some (q', Some (rt ! 1))"
    "queue_elems q = add_mset (rt ! 1) (queue_elems q')" "queue_le q' = queue_le q" "queue_inv q'"
    using queue_remove_ok [OF shp o rt(1) pos] h by auto
  have "queue_le q (rt ! 1) y" if "y \<in># queue_elems q" for y
  proof -
    have "y \<in> set (seg rt (elements q))" using that rt by (simp add: queue_elems_def)
    then obtain j where "j < elements q" "y = rt ! Suc j"
      using rt mx by (auto simp: seg_def in_set_conv_nth)
    then show ?thesis using heap_root_least [OF o h, of "Suc j"] by simp
  qed
  then show ?thesis using q' by (auto simp: queue_take_def)
qed

interpretation mysys_queue:
  prio_queue queue_insert queue_take queue_elems queue_le queue_room queue_inv
proof unfold_locales
  fix q :: "'c QUEUE" and x
  assume "queue_inv q" "0 < queue_room q"
  then show "\<exists>q'. queue_insert q x = Some q' \<and> queue_inv q' \<and>
     queue_elems q' = add_mset x (queue_elems q) \<and> queue_le q' = queue_le q \<and>
     Suc (queue_room q') = queue_room q"
    using queue_insert_ok [of q x] by (fastforce simp: queue_room_def)
next
  fix q :: "'c QUEUE"
  assume "queue_inv q" "queue_elems q \<noteq> {#}"
  then show "\<exists>q' x. queue_take q = Some (q', x) \<and> queue_inv q' \<and>
     queue_elems q = add_mset x (queue_elems q') \<and> (\<forall>y \<in># queue_elems q. queue_le q x y) \<and>
     queue_le q' = queue_le q"
    by (rule queue_take_ok)
qed

section \<open>Filling and draining\<close>

fun queue_insert_all :: "'c QUEUE \<Rightarrow> nat list \<Rightarrow> 'c QUEUE option" where
  "queue_insert_all q [] = Some q"
| "queue_insert_all q (x # xs) = Option.bind (queue_insert q x) (\<lambda>q'. queue_insert_all q' xs)"

fun queue_drain :: "nat \<Rightarrow> 'c QUEUE \<Rightarrow> nat list option" where
  "queue_drain 0 q = Some []"
| "queue_drain (Suc n) q =
     Option.bind (queue_take q) (\<lambda>(q', x). map_option ((#) x) (queue_drain n q'))"

lemma queue_drain_eq: "queue_drain n q = mysys_queue.drain n q"
  by (induction n arbitrary: q) (auto split: option.splits)

lemma queue_insert_all_ok:
  assumes "queue_inv q" "length xs \<le> queue_room q"
  shows "\<exists>q'. queue_insert_all q xs = Some q' \<and> queue_inv q' \<and>
     queue_elems q' = queue_elems q + mset xs \<and> queue_le q' = queue_le q"
  using assms
proof (induction xs arbitrary: q)
  case Nil
  then show ?case by simp
next
  case (Cons x xs)
  then have "0 < queue_room q" by auto
  from mysys_queue.put_ok [OF Cons.prems(1) this, of x] obtain q1 where
    q1: "queue_insert q x = Some q1" "queue_inv q1" "queue_elems q1 = add_mset x (queue_elems q)"
      "queue_le q1 = queue_le q" "Suc (queue_room q1) = queue_room q" by blast
  with Cons.IH [OF q1(2)] Cons.prems(2) show ?case by auto
qed

text \<open>An executable example: integers as addresses, compared by their sign difference.\<close>

definition cmp_addr :: "unit \<Rightarrow> nat \<Rightarrow> nat \<Rightarrow> int" where
  "cmp_addr u a b = (if a < b then -1 else if b < a then 1 else 0)"

definition ex_queue :: "nat list \<Rightarrow> nat \<Rightarrow> int \<Rightarrow> unit QUEUE" where
  "ex_queue rt n tp = \<lparr>root = Some rt, first_cmp_arg = (), elements = n,
     max_elements = length rt - 1, offset_to_key = 0, max_at_top = tp, compare = cmp_addr\<rparr>"

lemma cmp_addr_good: "good_compare (cmp_addr u)"
  by (auto simp: good_compare_def cmp_addr_def sgn_if)

lemma ex_queue_order: "tp = 0 \<or> tp = -2 \<Longrightarrow> queue_order (ex_queue rt n tp)"
proof -
  have "queue_cmp (ex_queue rt n tp) = cmp_addr ()"
    by (simp add: queue_cmp_def ex_queue_def fun_eq_iff cmp_addr_def)
  then show "tp = 0 \<or> tp = -2 \<Longrightarrow> queue_order (ex_queue rt n tp)"
    using cmp_addr_good by (auto simp: queue_order_def ex_queue_def cmp_addr_def)
qed

section \<open>Properties\<close>

text \<open>A queue that \<open>init_queue\<close> sets up over a block the allocator returned (of the
  length asked for) satisfies the queue invariant and is empty, for both directions of the
  order; when the allocator fails the return code is 1.\<close>

theorem init_queue_establishes_inv:
  assumes alloc: "\<And>n blk. malloc n = Some blk \<Longrightarrow> length blk = n"
    and cmp: "good_compare (\<lambda>a b. cmp arg (a + off) (b + off))"
    and no_m2: "max_top \<Longrightarrow> \<forall>a b. cmp arg a b \<noteq> -2"
    and mx: "maxel < 2147483648"
  shows "case init_queue malloc q maxel off max_top cmp arg of
           (True, q') \<Rightarrow> malloc (Suc maxel) = None \<and> root q' = None
         | (False, q') \<Rightarrow> queue_inv q' \<and> queue_elems q' = {#} \<and> queue_room q' = maxel"
proof (cases "malloc (Suc maxel)")
  case None
  then show ?thesis using mx by (simp add: init_queue_def)
next
  case (Some blk)
  have "queue_cmp (q\<lparr>root := r, elements := 0, compare := cmp, first_cmp_arg := arg,
      max_elements := maxel, offset_to_key := off, max_at_top := m\<rparr>)
      = (\<lambda>a b. cmp arg (a + off) (b + off))" for r m
    by (simp add: queue_cmp_def fun_eq_iff)
  then show ?thesis
    using Some alloc [OF Some] cmp no_m2 mx
    by (auto simp: init_queue_def queue_inv_def queue_shape_def queue_order_def
        heap_upto_def queue_elems_def seg_def queue_room_def)
qed

theorem init_queue_establishes_inv_witness:
  "queue_inv (snd (init_queue (\<lambda>n. Some (replicate n 0)) (ex_queue [] 0 0) 3 0 True cmp_addr ()))"
proof -
  have "\<forall>a b. cmp_addr () a b \<noteq> -2" by (simp add: cmp_addr_def)
  then show ?thesis
    using init_queue_establishes_inv
      [of "\<lambda>n. Some (replicate n 0)" cmp_addr "()" 0 True 3 "ex_queue [] 0 0"] cmp_addr_good [of "()"]
    by (simp add: init_queue_def)
qed

text \<open>C30. \<open>queue_insert\<close> on a queue with room always returns; the new queue satisfies the
  invariant (in particular the heap property), its elements are the old ones and the new
  one, and its order is unchanged.\<close>

theorem queue_insert_correct:
  assumes "queue_inv q" "elements q < max_elements q"
  shows "\<exists>q'. queue_insert q e = Some q' \<and> queue_inv q' \<and>
     queue_elems q' = add_mset e (queue_elems q) \<and> elements q' = Suc (elements q) \<and>
     queue_le q' = queue_le q"
  using queue_insert_ok [OF assms] by blast

theorem queue_insert_correct_witness:
  "queue_inv (ex_queue [0, 7, 0, 0] 1 0) \<and>
   (\<exists>q'. queue_insert (ex_queue [0, 7, 0, 0] 1 0) 5 = Some q' \<and> queue_elems q' = {#5, 7#})"
proof -
  have i: "queue_inv (ex_queue [0, 7, 0, 0] 1 0)"
    using ex_queue_order [of 0] by (auto simp: queue_inv_def queue_shape_def heap_upto_def)
      (auto simp: ex_queue_def)
  have e: "queue_elems (ex_queue [0, 7, 0, 0] 1 0) = {#7#}"
    by (simp add: queue_elems_def ex_queue_def seg_def)
  show ?thesis
    using queue_insert_correct [OF i, of 5] i e by (auto simp: ex_queue_def)
qed

text \<open>C31. \<open>queue_remove\<close> of any existing index always returns the element stored there, and
  the remaining elements are the old ones without it.  The heap property is kept when the
  element is the top or the last one, or when the last element, which takes its place, is
  not smaller than the parent of that place.\<close>

theorem queue_remove_correct:
  assumes "queue_inv q" "root q = Some rt" "idx < elements q"
  shows "\<exists>q'. queue_remove q idx = Some (q', Some (rt ! Suc idx)) \<and>
     queue_elems q = add_mset (rt ! Suc idx) (queue_elems q') \<and>
     Suc (elements q') = elements q \<and>
     (idx = 0 \<or> Suc idx = elements q \<or> queue_le q (rt ! (Suc idx div 2)) (rt ! elements q)
        \<longrightarrow> queue_inv q')"
  using queue_remove_ok [OF _ _ assms(2,3)] assms(1,2) by (fastforce simp: queue_inv_def)

theorem queue_remove_correct_witness:
  "\<exists>q'. queue_remove (ex_queue [0, 3, 9, 4] 3 0) 0 = Some (q', Some 3) \<and> queue_inv q'"
proof -
  have i: "queue_inv (ex_queue [0, 3, 9, 4] 3 0)"
  proof -
    have "heap_upto (ex_queue [0, 3, 9, 4] 3 0) 3 [0, 3, 9, 4]"
      unfolding heap_upto_def
    proof (intro allI impI)
      fix i :: nat assume "2 \<le> i \<and> i \<le> 3"
      then have "i = 2 \<or> i = 3" by auto
      then show "queue_le (ex_queue [0, 3, 9, 4] 3 0) ([0, 3, 9, 4] ! (i div 2)) ([0, 3, 9, 4] ! i)"
        by (auto simp: queue_le_def queue_cmp_def ex_queue_def cmp_addr_def)
    qed
    then show ?thesis
      using ex_queue_order [of 0] by (auto simp: queue_inv_def queue_shape_def)
        (auto simp: ex_queue_def)
  qed
  show ?thesis
    using queue_remove_correct [OF i, of "[0, 3, 9, 4]" 0] by (auto simp: ex_queue_def)
qed

text \<open>C14. Filling an empty queue with \<open>queue_insert\<close> and taking the top until it is empty
  yields the elements in the order of the queue: the use that merging sorted runs makes of
  it.\<close>

theorem queue_sorts:
  assumes "queue_inv q" "queue_elems q = {#}" "length xs \<le> queue_room q"
  shows "\<exists>q' ys. queue_insert_all q xs = Some q' \<and> queue_drain (length xs) q' = Some ys \<and>
     mset ys = mset xs \<and> sorted_wrt (queue_le q) ys"
proof -
  obtain q' where q': "queue_insert_all q xs = Some q'" "queue_inv q'"
    "queue_elems q' = mset xs" "queue_le q' = queue_le q"
    using queue_insert_all_ok [OF assms(1,3)] assms(2) by auto
  then show ?thesis using mysys_queue.drain_sorted [OF q'(2)] by (auto simp: queue_drain_eq)
qed

theorem queue_sorts_witness:
  "\<exists>q' ys. queue_insert_all (ex_queue [0, 0, 0, 0] 0 0) [8, 2, 5] = Some q' \<and>
     queue_drain 3 q' = Some ys \<and> mset ys = {#8, 2, 5#} \<and>
     sorted_wrt (queue_le (ex_queue [0, 0, 0, 0] 0 0)) ys"
proof -
  have i: "queue_inv (ex_queue [0, 0, 0, 0] 0 0)"
    using ex_queue_order [of 0] by (auto simp: queue_inv_def queue_shape_def heap_upto_def)
      (auto simp: ex_queue_def)
  have "queue_elems (ex_queue [0, 0, 0, 0] 0 0) = {#}" "queue_room (ex_queue [0, 0, 0, 0] 0 0) = 3"
    by (simp_all add: queue_elems_def queue_room_def seg_def ex_queue_def)
  then show ?thesis using queue_sorts [OF i, of "[8, 2, 5]"] by (simp add: numeral_3_eq_3)
qed

text \<open>Removing an element from the middle of the queue can break the heap property:
  \<open>queue_remove\<close> moves the last element into the gap and only sifts it down, although it may
  be smaller than the parent of the gap.\<close>

theorem queue_remove_can_break_heap:
  "queue_inv (ex_queue [0, 1, 10, 2, 11, 12, 3, 4] 7 0) \<and>
   (\<exists>q' e. queue_remove (ex_queue [0, 1, 10, 2, 11, 12, 3, 4] 7 0) 3 = Some (q', Some e) \<and>
     \<not> queue_inv q')"
proof
  let ?rt = "[0, 1, 10, 2, 11, 12, 3, 4] :: nat list" and ?q = "ex_queue [0, 1, 10, 2, 11, 12, 3, 4] 7 0"
  have "heap_upto ?q 7 ?rt"
    unfolding heap_upto_def
  proof (intro allI impI)
    fix i :: nat assume "2 \<le> i \<and> i \<le> 7"
    then have "i = 2 \<or> i = 3 \<or> i = 4 \<or> i = 5 \<or> i = 6 \<or> i = 7" by auto
    then show "queue_le ?q (?rt ! (i div 2)) (?rt ! i)"
      by (auto simp: queue_le_def queue_cmp_def ex_queue_def cmp_addr_def)
  qed
  then show "queue_inv ?q"
    using ex_queue_order [of 0] by (auto simp: queue_inv_def queue_shape_def)
      (auto simp: ex_queue_def)
  have r: "queue_remove ?q 3 = Some (?q\<lparr>root := Some [0, 1, 10, 2, 4, 12, 3, 4], elements := 6\<rparr>, Some 11)"
    by (simp add: queue_remove_def downheap_def downheap_loop.simps ex_queue_def u32_add_def
        u32_sub_def)
  moreover have "\<not> queue_inv (?q\<lparr>root := Some [0, 1, 10, 2, 4, 12, 3, 4], elements := 6\<rparr>)"
    by (auto simp: queue_inv_def heap_upto_def queue_le_def queue_cmp_def ex_queue_def cmp_addr_def
        intro!: exI [of _ 4])
  ultimately show "\<exists>q' e. queue_remove ?q 3 = Some (q', Some e) \<and> \<not> queue_inv q'" by blast
qed

text \<open>In a queue with the largest element on top, a comparison function that answers -2
  for "smaller" breaks the heap when a top is replaced: -2 is turned into 0 by the exclusive
  or with \<open>max_at_top\<close>, so \<open>_downheap\<close> sinks an element below a smaller one.\<close>

theorem queue_max_at_top_minus2:
  "good_compare (\<lambda>a b. 2 * cmp_addr () a b) \<and>
   (\<exists>q'. queue_replaced ((ex_queue [0, 9, 3] 2 (-2))\<lparr>compare := (\<lambda>u a b. 2 * cmp_addr u a b)\<rparr>) = Some q'
      \<and> queue_top q' = Some 3 \<and> queue_elems q' = {#3, 9#})"
proof
  show "good_compare (\<lambda>a b. 2 * cmp_addr () a b)"
    by (auto simp: good_compare_def cmp_addr_def sgn_if)
  show "\<exists>q'. queue_replaced ((ex_queue [0, 9, 3] 2 (-2))\<lparr>compare := (\<lambda>u a b. 2 * cmp_addr u a b)\<rparr>)
      = Some q' \<and> queue_top q' = Some 3 \<and> queue_elems q' = {#3, 9#}"
    by (simp add: queue_replaced_def downheap_def downheap_loop.simps ex_queue_def u32_add_def
        queue_cmp_def cmp_addr_def queue_top_def queue_elems_def seg_def)
qed

end
