(* ===== verification/Rb_Tree.thy ===== *)
theory Rb_Tree
  imports Prelude
begin

text \<open>
  Red-black trees of \<open>mysys/tree.c\<close>.

  A linked tree is a value of type \<open>elem\<close>; \<open>Null\<close> is the tree's \<open>null_element\<close>, whose
  colour is BLACK.  The array \<open>tree->parents\<close>, which records the child fields on the way from
  the root, is a zipper: a list of frames, innermost first, each holding the element passed
  and its other child.  \<open>parents\<close> has \<open>MAX_TREE_HEIGHT\<close> entries, of which one is for the
  root, so a push beyond 63 frames has no meaning (\<open>None\<close>).  Taking a child of
  \<open>null_element\<close> has no meaning either.  Keys are values: the two layouts of a key (copied
  behind the element, or a pointer kept there) are not distinguished.
\<close>

datatype colour = RED | BLACK

datatype 'k elem = Null | Elem "'k elem" nat colour 'k "'k elem"

datatype 'k frame =
    FL nat colour 'k "'k elem"  \<comment> \<open>the left child was taken; count, colour, key, right child\<close>
  | FR "'k elem" nat colour 'k  \<comment> \<open>the right child was taken; left child, count, colour, key\<close>

datatype TREE_FREE = free_init | free_free | free_end

record ('c, 'k) TREE =
  root :: "'k elem"
  offset_to_key :: nat
  elements_in_tree :: nat
  size_of_element :: nat
  memory_limit :: nat
  allocated :: nat
  compare :: "'c \<Rightarrow> 'k \<Rightarrow> 'k \<Rightarrow> int"
  custom_arg :: 'c
  with_delete :: bool
  has_free :: bool
  flag :: nat
  free_calls :: "('k option \<times> TREE_FREE) list"  \<comment> \<open>calls of the free function so far\<close>

abbreviation sizeof_TREE_ELEMENT :: nat where "sizeof_TREE_ELEMENT \<equiv> 24"
abbreviation sizeof_ptr :: nat where "sizeof_ptr \<equiv> 8"
abbreviation MAX_TREE_HEIGHT :: nat where "MAX_TREE_HEIGHT \<equiv> 64"
abbreviation TREE_NO_DUPS :: nat where "TREE_NO_DUPS \<equiv> 1"

unbundle bit_operations_syntax

lemma not_RED [simp]: "c \<noteq> RED \<longleftrightarrow> c = BLACK"
  by (cases c) auto

section \<open>Elements and paths\<close>

fun colour_of :: "'k elem \<Rightarrow> colour" where
  "colour_of Null = BLACK"
| "colour_of (Elem l n c k r) = c"

fun set_colour :: "colour \<Rightarrow> 'k elem \<Rightarrow> 'k elem" where
  "set_colour c' Null = Null"
| "set_colour c' (Elem l n c k r) = Elem l n c' k r"

fun plug :: "'k elem \<Rightarrow> 'k frame \<Rightarrow> 'k elem" where
  "plug t (FL n c k r) = Elem t n c k r"
| "plug t (FR l n c k) = Elem l n c k t"

fun zip_up :: "'k elem \<Rightarrow> 'k frame list \<Rightarrow> 'k elem" where
  "zip_up t [] = t"
| "zip_up t (f # ps) = zip_up (plug t f) ps"

fun frame_colour :: "'k frame \<Rightarrow> colour" where
  "frame_colour (FL n c k r) = c"
| "frame_colour (FR l n c k) = c"

fun set_frame_colour :: "colour \<Rightarrow> 'k frame \<Rightarrow> 'k frame" where
  "set_frame_colour c' (FL n c k r) = FL n c' k r"
| "set_frame_colour c' (FR l n c k) = FR l n c' k"

definition push :: "'k frame \<Rightarrow> 'k frame list \<Rightarrow> 'k frame list option" where
  "push f ps = (if Suc (length ps) < MAX_TREE_HEIGHT then Some (f # ps) else None)"

section \<open>Rotations and rebalancing\<close>

fun left_rotate :: "'k elem \<Rightarrow> 'k elem option" where
  "left_rotate (Elem l n c k (Elem rl rn rc rk rr)) = Some (Elem (Elem l n c k rl) rn rc rk rr)"
| "left_rotate _ = None"

fun right_rotate :: "'k elem \<Rightarrow> 'k elem option" where
  "right_rotate (Elem (Elem ll ln lc lk lr) n c k r) = Some (Elem ll ln lc lk (Elem lr n c k r))"
| "right_rotate _ = None"

text \<open>\<open>rb_insert leaf parents\<close>: the root of the rebalanced tree.  The element \<open>leaf\<close> is
  already RED.\<close>

fun rb_insert :: "'k elem \<Rightarrow> 'k frame list \<Rightarrow> 'k elem option" where
  "rb_insert leaf [] = Some (set_colour BLACK leaf)"
| "rb_insert leaf (par # ps) =
     (if frame_colour par \<noteq> RED then Some (set_colour BLACK (zip_up leaf (par # ps)))
      else case ps of
        [] \<Rightarrow> None
      | FL n2 c2 k2 y # ps' \<Rightarrow>
          if colour_of y = RED
          then rb_insert (plug (plug leaf (set_frame_colour BLACK par))
                            (FL n2 RED k2 (set_colour BLACK y))) ps'
          else do {
            par' \<leftarrow> (case par of FR l n c k \<Rightarrow> left_rotate (plug leaf par) | _ \<Rightarrow> Some (plug leaf par));
            t \<leftarrow> right_rotate (plug (set_colour BLACK par') (FL n2 RED k2 y));
            Some (set_colour BLACK (zip_up t ps'))
          }
      | FR y n2 c2 k2 # ps' \<Rightarrow>
          if colour_of y = RED
          then rb_insert (plug (plug leaf (set_frame_colour BLACK par))
                            (FR (set_colour BLACK y) n2 RED k2)) ps'
          else do {
            par' \<leftarrow> (case par of FL n c k r \<Rightarrow> right_rotate (plug leaf par) | _ \<Rightarrow> Some (plug leaf par));
            t \<leftarrow> left_rotate (plug (set_colour BLACK par') (FR y n2 RED k2));
            Some (set_colour BLACK (zip_up t ps'))
          })"

text \<open>The second half of an iteration of \<open>rb_delete_fixup\<close>, for \<open>x\<close> a left child: \<open>w\<close> is
  the sibling (the right child of the parent).  \<open>Inl\<close> is the new \<open>x\<close> one level up (the loop goes
  on), \<open>Inr\<close> the rotated subtree (the loop is left by \<open>break\<close>).\<close>

fun fixup_left :: "'k elem \<Rightarrow> nat \<Rightarrow> colour \<Rightarrow> 'k \<Rightarrow> 'k elem \<Rightarrow> ('k elem + 'k elem) option" where
  "fixup_left x n c k Null = None"
| "fixup_left x n c k (Elem wL wn wc wk wR) =
     (if colour_of wL = BLACK \<and> colour_of wR = BLACK
      then Some (Inl (Elem x n c k (Elem wL wn RED wk wR)))
      else do {
        w \<leftarrow> (if colour_of wR = BLACK
              then right_rotate (Elem (set_colour BLACK wL) wn RED wk wR)
              else Some (Elem wL wn wc wk wR));
        case w of
          Null \<Rightarrow> None
        | Elem l n' c' k' r \<Rightarrow>
            map_option Inr (left_rotate (Elem x n BLACK k (Elem l n' c k' (set_colour BLACK r))))
      })"

fun fixup_right :: "'k elem \<Rightarrow> nat \<Rightarrow> colour \<Rightarrow> 'k \<Rightarrow> 'k elem \<Rightarrow> ('k elem + 'k elem) option" where
  "fixup_right Null n c k x = None"
| "fixup_right (Elem wL wn wc wk wR) n c k x =
     (if colour_of wR = BLACK \<and> colour_of wL = BLACK
      then Some (Inl (Elem (Elem wL wn RED wk wR) n c k x))
      else do {
        w \<leftarrow> (if colour_of wL = BLACK
              then left_rotate (Elem wL wn RED wk (set_colour BLACK wR))
              else Some (Elem wL wn wc wk wR));
        case w of
          Null \<Rightarrow> None
        | Elem l n' c' k' r \<Rightarrow>
            map_option Inr (right_rotate (Elem (Elem (set_colour BLACK l) n' c k' r) n BLACK k x))
      })"

lemma fixup_left_colour: "fixup_left x n c k w = Some (Inl x') \<Longrightarrow> colour_of x' = c"
  by (cases w) (auto split: if_splits elem.splits Option.bind_splits)

lemma fixup_right_colour: "fixup_right w n c k x = Some (Inl x') \<Longrightarrow> colour_of x' = c"
  by (cases w) (auto split: if_splits elem.splits Option.bind_splits)

text \<open>\<open>rb_delete_fixup x parents\<close>: the root of the rebalanced tree.  A RED sibling is first
  rotated above the parent, which makes the path one frame longer; the new parent is RED then,
  so that the next \<open>x\<close> is RED or the loop is left.\<close>

function rb_delete_fixup :: "'k elem \<Rightarrow> 'k frame list \<Rightarrow> 'k elem option" where
  "rb_delete_fixup x [] = Some (set_colour BLACK x)"
| "rb_delete_fixup x (FL n c k w # ps) =
     (if colour_of x = RED then Some (zip_up (set_colour BLACK x) (FL n c k w # ps))
      else case w of
        Elem wL wn RED wk wR \<Rightarrow>
          do {
            ps1 \<leftarrow> push (FL wn BLACK wk wR) ps;
            ps2 \<leftarrow> push (FL n RED k wL) ps1;
            r \<leftarrow> fixup_left x n RED k wL;
            case r of
              Inl x' \<Rightarrow> rb_delete_fixup x' ps1
            | Inr t \<Rightarrow> Some (set_colour BLACK (zip_up t ps1))
          }
      | _ \<Rightarrow>
          do {
            r \<leftarrow> fixup_left x n c k w;
            case r of
              Inl x' \<Rightarrow> rb_delete_fixup x' ps
            | Inr t \<Rightarrow> Some (set_colour BLACK (zip_up t ps))
          })"
| "rb_delete_fixup x (FR w n c k # ps) =
     (if colour_of x = RED then Some (zip_up (set_colour BLACK x) (FR w n c k # ps))
      else case w of
        Elem wL wn RED wk wR \<Rightarrow>
          do {
            ps1 \<leftarrow> push (FR wL wn BLACK wk) ps;
            ps2 \<leftarrow> push (FR wR n RED k) ps1;
            r \<leftarrow> fixup_right wR n RED k x;
            case r of
              Inl x' \<Rightarrow> rb_delete_fixup x' ps1
            | Inr t \<Rightarrow> Some (set_colour BLACK (zip_up t ps1))
          }
      | _ \<Rightarrow>
          do {
            r \<leftarrow> fixup_right w n c k x;
            case r of
              Inl x' \<Rightarrow> rb_delete_fixup x' ps
            | Inr t \<Rightarrow> Some (set_colour BLACK (zip_up t ps))
          })"
  by pat_completeness auto
termination
  by (relation "measure (\<lambda>(x, ps). 2 * length ps + (if colour_of x = BLACK then 1 else 0))")
    (auto simp: push_def dest: fixup_left_colour fixup_right_colour split: if_splits)

section \<open>Operations on trees\<close>

text \<open>\<open>delete_tree_element\<close>: the calls of the free function, in order.\<close>

fun delete_tree_element :: "bool \<Rightarrow> 'k elem \<Rightarrow> ('k option \<times> TREE_FREE) list" where
  "delete_tree_element fr Null = []"
| "delete_tree_element fr (Elem l n c k r) =
     delete_tree_element fr l @ (if fr then [(Some k, free_free)] else []) @ delete_tree_element fr r"

definition init_tree ::
  "nat \<Rightarrow> int \<Rightarrow> ('c \<Rightarrow> 'k \<Rightarrow> 'k \<Rightarrow> int) \<Rightarrow> bool \<Rightarrow> bool \<Rightarrow> 'c \<Rightarrow> ('c, 'k) TREE" where
  "init_tree limit ksize cmp wdel fr arg =
     (let sz = (if 0 < ksize then nat ksize else 0);
          inline = (\<not> fr \<and> 0 \<le> ksize \<and>
             (nat ksize \<le> sizeof_ptr \<or> (nat ksize AND (sizeof_ptr - 1)) \<noteq> 0))
      in \<lparr>root = Null,
          offset_to_key = (if inline then sizeof_TREE_ELEMENT else 0),
          elements_in_tree = 0,
          size_of_element = (if inline then sz else sz + sizeof_ptr),
          memory_limit = limit, allocated = 0, compare = cmp, custom_arg = arg,
          with_delete = wdel, has_free = fr, flag = 0, free_calls = []\<rparr>)"

definition free_tree :: "('c, 'k) TREE \<Rightarrow> ('c, 'k) TREE" where
  "free_tree t =
     (let calls =
        (if with_delete t then delete_tree_element (has_free t) (root t)
         else if has_free t then
           (if memory_limit t \<noteq> 0 then [(None, free_init)] else []) @
           delete_tree_element True (root t) @
           (if memory_limit t \<noteq> 0 then [(None, free_end)] else [])
         else [])
      in t\<lparr>root := Null, elements_in_tree := 0, allocated := 0,
           free_calls := free_calls t @ calls\<rparr>)"

definition delete_tree :: "('c, 'k) TREE \<Rightarrow> ('c, 'k) TREE" where
  "delete_tree t = free_tree t"

definition reset_tree :: "('c, 'k) TREE \<Rightarrow> ('c, 'k) TREE" where
  "reset_tree t = free_tree t"

text \<open>The descent of \<open>tree_insert\<close> and \<open>tree_delete\<close>; \<open>f\<close> compares a stored key with the key
  searched for.\<close>

fun tree_descend ::
  "('k \<Rightarrow> int) \<Rightarrow> 'k elem \<Rightarrow> 'k frame list \<Rightarrow> ('k elem \<times> 'k frame list) option" where
  "tree_descend f Null ps = Some (Null, ps)"
| "tree_descend f (Elem l n c k r) ps =
     (let cmp = f k in
      if cmp = 0 then Some (Elem l n c k r, ps)
      else if cmp < 0 then Option.bind (push (FR l n c k) ps) (tree_descend f r)
      else Option.bind (push (FL n c k r) ps) (tree_descend f l))"

text \<open>The 31-bit field \<open>count\<close> is incremented, and decremented again when it wraps to 0.\<close>

definition count_incr :: "nat \<Rightarrow> nat" where
  "count_incr n =
     (let m = (n + 1) mod 2147483648 in if m = 0 then (m + 2147483647) mod 2147483648 else m)"

text \<open>\<open>alloc\<close> says whether the allocator has memory for a new element.  The result is the
  tree and the element (key and count), \<open>None\<close> for a null pointer.\<close>

function tree_insert ::
  "bool \<Rightarrow> ('c, 'k) TREE \<Rightarrow> 'k \<Rightarrow> nat \<Rightarrow> 'c \<Rightarrow> (('c, 'k) TREE \<times> ('k \<times> nat) option) option" where
  "tree_insert alloc t key key_size arg =
     Option.bind (tree_descend (\<lambda>k. compare t arg k key) (root t) []) (\<lambda>(element, ps).
       case element of
         Null \<Rightarrow>
           (let alloc_size = u32_add (sizeof_TREE_ELEMENT + key_size) (size_of_element t);
                t1 = t\<lparr>allocated := u32_add (allocated t) alloc_size\<rparr>
            in if memory_limit t \<noteq> 0 \<and> elements_in_tree t \<noteq> 0 \<and> allocated t1 > memory_limit t
               then tree_insert alloc (reset_tree t1) key key_size arg
               else if \<not> alloc then Some (t1, None)
               else Option.bind (rb_insert (Elem Null 1 RED key Null) ps) (\<lambda>rt.
                 Some (t1\<lparr>root := rt, elements_in_tree := u32_add (elements_in_tree t) 1\<rparr>,
                       Some (key, 1))))
       | Elem l n c k r \<Rightarrow>
           (if (flag t AND TREE_NO_DUPS) \<noteq> 0 then Some (t, None)
            else Some (t\<lparr>root := zip_up (Elem l (count_incr n) c k r) ps\<rparr>,
                       Some (k, count_incr n))))"
  by pat_completeness auto
termination
  by (relation "measure (\<lambda>(alloc, t, _). elements_in_tree t)") (auto simp: reset_tree_def free_tree_def)

declare tree_insert.simps [simp del]

text \<open>The way to the smallest element of a subtree (the loop of \<open>tree_delete\<close> over \<open>nod\<close>).\<close>

fun tree_leftmost ::
  "'k elem \<Rightarrow> 'k frame list \<Rightarrow> ((nat \<times> colour \<times> 'k \<times> 'k elem) \<times> 'k frame list) option" where
  "tree_leftmost Null ps = None"
| "tree_leftmost (Elem l n c k r) ps =
     (if l \<noteq> Null then Option.bind (push (FL n c k r) ps) (tree_leftmost l)
      else Some ((n, c, k, r), ps))"

text \<open>Unlinking the element found: the subtree that takes its place, the path to it, and the
  colour of the element that left the tree.\<close>

fun tree_unlink ::
  "'k elem \<Rightarrow> 'k frame list \<Rightarrow> ('k elem \<times> 'k frame list \<times> colour) option" where
  "tree_unlink Null ps = None"
| "tree_unlink (Elem l n c k r) ps =
     (if l = Null then Some (r, ps, c)
      else if r = Null then Some (l, ps, c)
      else do {
        ps1 \<leftarrow> push (FR l n c k) ps;
        ((nn, nc, nk, nr), ps2) \<leftarrow> tree_leftmost r ps1;
        Some (nr, ps2[length ps2 - length ps1 := FR l nn c nk], nc)
      })"

definition tree_delete :: "('c, 'k) TREE \<Rightarrow> 'k \<Rightarrow> 'c \<Rightarrow> (('c, 'k) TREE \<times> bool) option" where
  "tree_delete t key arg =
     (if \<not> with_delete t then Some (t, True)
      else do {
        (element, ps) \<leftarrow> tree_descend (\<lambda>k. compare t arg k key) (root t) [];
        case element of
          Null \<Rightarrow> Some (t, True)
        | Elem l n c k r \<Rightarrow>
            do {
              (x, ps', remove_colour) \<leftarrow> tree_unlink element ps;
              rt \<leftarrow> (if remove_colour = BLACK then rb_delete_fixup x ps' else Some (zip_up x ps'));
              Some (t\<lparr>root := rt,
                      free_calls := free_calls t @ (if has_free t then [(Some k, free_free)] else []),
                      allocated := u32_sub (allocated t) (sizeof_TREE_ELEMENT + size_of_element t),
                      elements_in_tree := u32_sub (elements_in_tree t) 1\<rparr>, False)
            }
      })"

fun tree_search_elem :: "('k \<Rightarrow> int) \<Rightarrow> 'k elem \<Rightarrow> 'k option" where
  "tree_search_elem f Null = None"
| "tree_search_elem f (Elem l n c k r) =
     (let cmp = f k in
      if cmp = 0 then Some k
      else if cmp < 0 then tree_search_elem f r
      else tree_search_elem f l)"

definition tree_search :: "('c, 'k) TREE \<Rightarrow> 'k \<Rightarrow> 'c \<Rightarrow> 'k option" where
  "tree_search t key arg = tree_search_elem (\<lambda>k. compare t arg k key) (root t)"

text \<open>Walking with an action on key, count and the caller's argument; a non-zero result
  stops the walk.\<close>

datatype TREE_WALK = left_root_right | right_root_left

fun tree_walk_left_root_right ::
  "('k \<Rightarrow> nat \<Rightarrow> 's \<Rightarrow> int \<times> 's) \<Rightarrow> 'k elem \<Rightarrow> 's \<Rightarrow> int \<times> 's" where
  "tree_walk_left_root_right act Null s = (0, s)"
| "tree_walk_left_root_right act (Elem l n c k r) s =
     (let (e1, s1) = tree_walk_left_root_right act l s in
      if e1 \<noteq> 0 then (e1, s1)
      else let (e2, s2) = act k n s1 in
        if e2 \<noteq> 0 then (e2, s2)
        else tree_walk_left_root_right act r s2)"

fun tree_walk_right_root_left ::
  "('k \<Rightarrow> nat \<Rightarrow> 's \<Rightarrow> int \<times> 's) \<Rightarrow> 'k elem \<Rightarrow> 's \<Rightarrow> int \<times> 's" where
  "tree_walk_right_root_left act Null s = (0, s)"
| "tree_walk_right_root_left act (Elem l n c k r) s =
     (let (e1, s1) = tree_walk_right_root_left act r s in
      if e1 \<noteq> 0 then (e1, s1)
      else let (e2, s2) = act k n s1 in
        if e2 \<noteq> 0 then (e2, s2)
        else tree_walk_right_root_left act l s2)"

definition tree_walk ::
  "('c, 'k) TREE \<Rightarrow> ('k \<Rightarrow> nat \<Rightarrow> 's \<Rightarrow> int \<times> 's) \<Rightarrow> 's \<Rightarrow> TREE_WALK \<Rightarrow> int \<times> 's" where
  "tree_walk t act s visit =
     (case visit of
        left_root_right \<Rightarrow> tree_walk_left_root_right act (root t) s
      | right_root_left \<Rightarrow> tree_walk_right_root_left act (root t) s)"

text \<open>The self-check of the debug build: the number of BLACK elements on the way down, -1 for
  a tree that is not red-black.\<close>

fun test_rb_tree :: "'k elem \<Rightarrow> int" where
  "test_rb_tree Null = 0"
| "test_rb_tree (Elem l n c k r) =
     (if c = RED \<and> (colour_of l = RED \<or> colour_of r = RED) then -1
      else let count_l = test_rb_tree l; count_r = test_rb_tree r in
        if count_l \<ge> 0 \<and> count_r \<ge> 0 \<and> count_l = count_r
        then count_l + (if c = BLACK then 1 else 0) else -1)"

section \<open>In-order contents\<close>

fun inorder :: "'k elem \<Rightarrow> ('k \<times> nat) list" where
  "inorder Null = []"
| "inorder (Elem l n c k r) = inorder l @ (k, n) # inorder r"

fun lefts :: "'k frame list \<Rightarrow> ('k \<times> nat) list" where
  "lefts [] = []"
| "lefts (FL n c k r # ps) = lefts ps"
| "lefts (FR l n c k # ps) = lefts ps @ inorder l @ [(k, n)]"

fun rights :: "'k frame list \<Rightarrow> ('k \<times> nat) list" where
  "rights [] = []"
| "rights (FL n c k r # ps) = (k, n) # inorder r @ rights ps"
| "rights (FR l n c k # ps) = rights ps"

lemma inorder_zip: "inorder (zip_up t ps) = lefts ps @ inorder t @ rights ps"
proof (induction ps arbitrary: t)
  case (Cons f ps)
  then show ?case by (cases f) auto
qed simp

lemma inorder_set_colour [simp]: "inorder (set_colour c t) = inorder t"
  by (cases t) auto

lemma inorder_left_rotate: "left_rotate t = Some t' \<Longrightarrow> inorder t' = inorder t"
  by (cases t rule: left_rotate.cases) auto

lemma inorder_right_rotate: "right_rotate t = Some t' \<Longrightarrow> inorder t' = inorder t"
  by (cases t rule: right_rotate.cases) auto

lemmas inorder_rotate = inorder_left_rotate inorder_right_rotate

section \<open>Colour and height invariants\<close>

fun bheight :: "'k elem \<Rightarrow> nat" where
  "bheight Null = 0"
| "bheight (Elem l n c k r) = (if c = BLACK then Suc (bheight l) else bheight l)"

fun invc :: "'k elem \<Rightarrow> bool" where
  "invc Null \<longleftrightarrow> True"
| "invc (Elem l n c k r) \<longleftrightarrow>
     (c = RED \<longrightarrow> colour_of l = BLACK \<and> colour_of r = BLACK) \<and> invc l \<and> invc r"

fun invh :: "'k elem \<Rightarrow> bool" where
  "invh Null \<longleftrightarrow> True"
| "invh (Elem l n c k r) \<longleftrightarrow> bheight l = bheight r \<and> invh l \<and> invh r"

definition rb_tree :: "'k elem \<Rightarrow> bool" where
  "rb_tree t \<longleftrightarrow> invc t \<and> invh t \<and> colour_of t = BLACK"

fun other :: "'k frame \<Rightarrow> 'k elem" where
  "other (FL n c k r) = r"
| "other (FR l n c k) = l"

text \<open>The path of a tree in which a subtree of black height \<open>h\<close> fits.\<close>

fun path_ok :: "'k frame list \<Rightarrow> nat \<Rightarrow> bool" where
  "path_ok [] h \<longleftrightarrow> True"
| "path_ok (f # ps) h \<longleftrightarrow> invc (other f) \<and> invh (other f) \<and> bheight (other f) = h \<and>
     (frame_colour f = RED \<longrightarrow>
        colour_of (other f) = BLACK \<and> ps \<noteq> [] \<and> frame_colour (hd ps) = BLACK) \<and>
     path_ok ps (if frame_colour f = BLACK then Suc h else h)"

definition below_black :: "'k frame list \<Rightarrow> bool" where
  "below_black ps \<longleftrightarrow> ps \<noteq> [] \<and> frame_colour (hd ps) = BLACK"

lemma set_colour_id: "colour_of t = c \<Longrightarrow> set_colour c t = t"
  by (cases t) auto

lemma colour_set_colour [simp]: "colour_of (set_colour BLACK t) = BLACK"
  by (cases t) auto

lemma invh_set_colour [simp]: "invh (set_colour c t) = invh t"
  by (cases t) auto

lemma invc_set_BLACK: "invc t \<Longrightarrow> invc (set_colour BLACK t)"
  by (cases t) auto

lemma bheight_set_BLACK: "bheight (set_colour BLACK t) = (if colour_of t = RED then Suc (bheight t) else bheight t)"
  by (cases t) auto

lemma invc_set_BLACK_same: "colour_of t = BLACK \<Longrightarrow> invc (set_colour BLACK t) = invc t"
  by (simp add: set_colour_id)

lemma zip_ok:
  assumes "invc t" "invh t" "path_ok ps (bheight t)" "colour_of t = RED \<Longrightarrow> below_black ps"
  shows "rb_tree (zip_up t ps)"
  using assms
proof (induction ps arbitrary: t)
  case Nil
  then show ?case by (cases "colour_of t") (auto simp: rb_tree_def below_black_def)
next
  case (Cons f ps)
  have "rb_tree (zip_up (plug t f) ps)"
  proof (rule Cons.IH)
    show "invc (plug t f)" "invh (plug t f)" "path_ok ps (bheight (plug t f))"
      "colour_of (plug t f) = RED \<Longrightarrow> below_black ps"
      using Cons.prems by (cases f; cases "colour_of t"; auto simp: below_black_def)+
  qed
  then show ?case by simp
qed

lemma zip_root_black:
  assumes "invc t" "invh t" "path_ok ps (bheight t)" "colour_of t = RED \<Longrightarrow> below_black ps"
  shows "rb_tree (set_colour BLACK (zip_up t ps))"
  using zip_ok [OF assms] by (simp add: rb_tree_def set_colour_id)

text \<open>Conversely, every position of a red-black tree has such a path.\<close>

definition focus_ok :: "'k elem \<Rightarrow> 'k frame list \<Rightarrow> bool" where
  "focus_ok t ps \<longleftrightarrow> invc t \<and> invh t \<and> path_ok ps (bheight t) \<and> (colour_of t = RED \<longrightarrow> below_black ps)"

lemma focus_ok_root: "rb_tree t \<Longrightarrow> focus_ok t []"
  by (simp add: focus_ok_def rb_tree_def)

lemma focus_ok_left: "focus_ok (Elem l n c k r) ps \<Longrightarrow> focus_ok l (FL n c k r # ps)"
  by (cases c) (auto simp: focus_ok_def below_black_def)

lemma focus_ok_right: "focus_ok (Elem l n c k r) ps \<Longrightarrow> focus_ok r (FR l n c k # ps)"
  by (cases c) (auto simp: focus_ok_def below_black_def)

section \<open>Height of a red-black tree\<close>

fun height :: "'k elem \<Rightarrow> nat" where
  "height Null = 0"
| "height (Elem l n c k r) = Suc (max (height l) (height r))"

lemma height_le_bheight:
  "invc t \<Longrightarrow> invh t \<Longrightarrow> height t \<le> 2 * bheight t + (if colour_of t = RED then 1 else 0)"
  by (induction t) (auto split: if_splits)

lemma bheight_le_size: "invh t \<Longrightarrow> 2 ^ bheight t \<le> Suc (length (inorder t))"
proof (induction t)
  case (Elem l n c k r)
  then have "2 ^ bheight l \<le> Suc (length (inorder l))" "2 ^ bheight l \<le> Suc (length (inorder r))"
    by auto
  then show ?case by auto
qed simp

lemma height_bound:
  assumes "rb_tree t" "length (inorder t) < 4294967295"
  shows "height t \<le> 62"
proof -
  have "2 ^ bheight t < (2::nat) ^ 32"
    using bheight_le_size [of t] assms by (simp add: rb_tree_def)
  then have "bheight t < 32" using power_less_imp_less_exp [of 2 "bheight t" 32] by simp
  then show ?thesis using height_le_bheight [of t] assms by (simp add: rb_tree_def)
qed

lemma height_zip: "length ps + height t \<le> height (zip_up t ps)"
proof (induction ps arbitrary: t)
  case (Cons f ps)
  have "Suc (height t) \<le> height (plug t f)" by (cases f) auto
  then show ?case using Cons.IH [of "plug t f"] by simp
qed simp

section \<open>Insertion keeps the tree red-black\<close>

lemma rb_insert_ok:
  assumes "invc leaf" "invh leaf" "colour_of leaf = RED" "path_ok ps (bheight leaf)"
  shows "\<exists>t. rb_insert leaf ps = Some t \<and> rb_tree t \<and>
     inorder t = lefts ps @ inorder leaf @ rights ps"
  using assms
proof (induction leaf ps rule: rb_insert.induct)
  case (1 leaf)
  then show ?case by (simp add: rb_tree_def invc_set_BLACK)
next
  case (2 leaf par ps)
  show ?case
  proof (cases "frame_colour par = RED")
    case False
    then have "rb_tree (zip_up leaf (par # ps))"
      using 2 by (intro zip_ok) (auto simp: below_black_def)
    then show ?thesis
      using False by (auto simp: rb_tree_def set_colour_id inorder_zip [of _ "par # ps", simplified])
  next
    case True
    then obtain f2 ps' where ps: "ps = f2 # ps'" "frame_colour f2 = BLACK"
      using 2 by (cases ps) auto
    obtain a n k b where leaf: "leaf = Elem a n RED k b" using 2 by (cases leaf) auto
    show ?thesis
    proof (cases "colour_of (other f2) = RED")
      case red: True
      let ?leaf = "plug (plug leaf (set_frame_colour BLACK par)) (set_frame_colour RED f2)"
      show ?thesis
      proof (cases f2)
        case (FL n2 c2 k2 y)
        have "\<exists>t. rb_insert (plug (plug leaf (set_frame_colour BLACK par))
               (FL n2 RED k2 (set_colour BLACK y))) ps' = Some t \<and> rb_tree t \<and>
             inorder t = lefts ps' @ inorder (plug (plug leaf (set_frame_colour BLACK par))
               (FL n2 RED k2 (set_colour BLACK y))) @ rights ps'"
          using 2 True ps FL red leaf
          by (intro "2.IH"(1) [OF _ ps(1) [unfolded FL]])
            (cases par; auto simp: invc_set_BLACK bheight_set_BLACK)+
        then show ?thesis using True ps FL red by (cases par) auto
      next
        case (FR y n2 c2 k2)
        have "\<exists>t. rb_insert (plug (plug leaf (set_frame_colour BLACK par))
               (FR (set_colour BLACK y) n2 RED k2)) ps' = Some t \<and> rb_tree t \<and>
             inorder t = lefts ps' @ inorder (plug (plug leaf (set_frame_colour BLACK par))
               (FR (set_colour BLACK y) n2 RED k2)) @ rights ps'"
          using 2 True ps FR red leaf
          by (intro "2.IH"(2) [OF _ ps(1) [unfolded FR]])
            (cases par; auto simp: invc_set_BLACK bheight_set_BLACK)+
        then show ?thesis using True ps FR red by (cases par) auto
      qed
    next
      case False
      then show ?thesis
        using 2(3-) True ps leaf
        by (cases f2; cases par) (auto simp: inorder_zip intro!: zip_root_black)
    qed
  qed
qed

section \<open>Deletion keeps the tree red-black\<close>

text \<open>What one step of the fix-up does to the subtree of the parent: either the deficit moves
  one level up, or the subtree has its old black height again.\<close>

definition fixed_up ::
  "colour \<Rightarrow> nat \<Rightarrow> ('k \<times> nat) list \<Rightarrow> ('k elem + 'k elem) \<Rightarrow> bool" where
  "fixed_up c h xs r \<longleftrightarrow>
     (case r of
        Inl x \<Rightarrow> invc (set_colour BLACK x) \<and> invh x \<and> colour_of x = c \<and> inorder x = xs \<and>
          bheight x = (if c = BLACK then Suc h else h)
      | Inr t \<Rightarrow> invc t \<and> invh t \<and> colour_of t = c \<and> inorder t = xs \<and>
          bheight t = (if c = BLACK then Suc (Suc h) else Suc h))"

lemma fixup_left_ok:
  assumes "invc x" "invh x" "colour_of x = BLACK"
    "invc w" "invh w" "colour_of w = BLACK" "bheight w = Suc (bheight x)"
  shows "\<exists>r. fixup_left x n c k w = Some r \<and> fixed_up c (bheight x) (inorder x @ (k, n) # inorder w) r"
proof -
  obtain wL wn wk wR where w: "w = Elem wL wn BLACK wk wR" using assms by (cases w) auto
  show ?thesis
  proof (cases "colour_of wL = BLACK \<and> colour_of wR = BLACK")
    case True
    then show ?thesis using assms w by (auto simp: fixed_up_def)
  next
    case False
    then show ?thesis
      using assms w by (cases wL; cases wR) (auto simp: fixed_up_def)
  qed
qed

lemma fixup_right_ok:
  assumes "invc x" "invh x" "colour_of x = BLACK"
    "invc w" "invh w" "colour_of w = BLACK" "bheight w = Suc (bheight x)"
  shows "\<exists>r. fixup_right w n c k x = Some r \<and> fixed_up c (bheight x) (inorder w @ (k, n) # inorder x) r"
proof -
  obtain wL wn wk wR where w: "w = Elem wL wn BLACK wk wR" using assms by (cases w) auto
  show ?thesis
  proof (cases "colour_of wL = BLACK \<and> colour_of wR = BLACK")
    case True
    then show ?thesis using assms w by (auto simp: fixed_up_def)
  next
    case False
    then show ?thesis
      using assms w by (cases wL; cases wR) (auto simp: fixed_up_def)
  qed
qed

text \<open>Plugging the outcome of a final step into the rest of the path.\<close>

lemma fixed_up_done:
  assumes "fixed_up c h xs (Inr t)" "path_ok ps (if c = BLACK then Suc (Suc h) else Suc h)"
    "c = RED \<Longrightarrow> below_black ps"
  shows "rb_tree (set_colour BLACK (zip_up t ps)) \<and>
     inorder (set_colour BLACK (zip_up t ps)) = lefts ps @ xs @ rights ps"
  using assms by (auto simp: fixed_up_def inorder_zip intro!: zip_root_black)

lemma fixed_up_red:
  assumes "fixed_up RED h xs (Inl x)" "path_ok ps (Suc h)"
  shows "rb_tree (zip_up (set_colour BLACK x) ps) \<and>
     inorder (zip_up (set_colour BLACK x) ps) = lefts ps @ xs @ rights ps"
  using assms by (auto simp: fixed_up_def inorder_zip bheight_set_BLACK intro!: zip_ok)

lemma rb_delete_fixup_red:
  assumes "colour_of x = RED" "invc (set_colour BLACK x)" "invh x" "path_ok ps (Suc (bheight x))"
  shows "\<exists>t. rb_delete_fixup x ps = Some t \<and> rb_tree t \<and>
     inorder t = lefts ps @ inorder x @ rights ps"
proof -
  have "rb_delete_fixup x ps = Some (zip_up (set_colour BLACK x) ps)"
    using assms(1) by (cases "(x, ps)" rule: rb_delete_fixup.cases) auto
  moreover have "rb_tree (zip_up (set_colour BLACK x) ps)"
    using assms by (intro zip_ok) (auto simp: bheight_set_BLACK)
  ultimately show ?thesis by (simp add: inorder_zip)
qed

text \<open>One iteration whose sibling is BLACK, given the claim \<open>IH\<close> for the rest of the path.\<close>

lemma rb_delete_fixup_sibling_black:
  assumes x: "colour_of x = BLACK" "invc x" "invh x" "set_colour BLACK x = x"
    and w: "other f = w" "invc w" "invh w" "bheight w = Suc (bheight x)" "colour_of w = BLACK"
    and pp: "path_ok ps (if frame_colour f = BLACK then Suc (Suc (bheight x)) else Suc (bheight x))"
      "frame_colour f = RED \<Longrightarrow> below_black ps"
    and IH: "\<And>x. invc (set_colour BLACK x) \<Longrightarrow> invh x \<Longrightarrow> path_ok ps (Suc (bheight x)) \<Longrightarrow>
      \<exists>t. rb_delete_fixup x ps = Some t \<and> rb_tree t \<and> inorder t = lefts ps @ inorder x @ rights ps"
  shows "\<exists>t. rb_delete_fixup x (f # ps) = Some t \<and> rb_tree t \<and>
     inorder t = lefts (f # ps) @ inorder x @ rights (f # ps)"
proof -
  have go: "\<exists>t. (case r of Inl x' \<Rightarrow> rb_delete_fixup x' ps
             | Inr t \<Rightarrow> Some (set_colour BLACK (zip_up t ps))) = Some t \<and>
           rb_tree t \<and> inorder t = lefts ps @ xs @ rights ps"
    if "fixed_up (frame_colour f) (bheight x) xs r" for xs r
  proof (cases r)
    case (Inl x')
    then show ?thesis using IH [of x'] that pp by (auto simp: fixed_up_def split: if_splits)
  next
    case (Inr t)
    then show ?thesis using fixed_up_done [of "frame_colour f" "bheight x" xs t ps] that pp by auto
  qed
  obtain wL wn wk wR where w': "w = Elem wL wn BLACK wk wR" using w by (cases w) auto
  show ?thesis
  proof (cases f)
    case (FL n c' k w1)
    obtain r where r: "fixup_left x n c' k w = Some r"
      "fixed_up c' (bheight x) (inorder x @ (k, n) # inorder w) r"
      using fixup_left_ok [OF x(2,3,1) w(2,3,5,4)] by blast
    have "rb_delete_fixup x (f # ps) = (case r of Inl x' \<Rightarrow> rb_delete_fixup x' ps
        | Inr t \<Rightarrow> Some (set_colour BLACK (zip_up t ps)))"
      using r(1) FL w(1) w' x by (simp del: fixup_left.simps)
    then show ?thesis using go [of "inorder x @ (k, n) # inorder w" r] r(2) FL w(1)
      by (simp del: rb_delete_fixup.simps)
  next
    case (FR w1 n c' k)
    obtain r where r: "fixup_right w n c' k x = Some r"
      "fixed_up c' (bheight x) (inorder w @ (k, n) # inorder x) r"
      using fixup_right_ok [OF x(2,3,1) w(2,3,5,4)] by blast
    have "rb_delete_fixup x (f # ps) = (case r of Inl x' \<Rightarrow> rb_delete_fixup x' ps
        | Inr t \<Rightarrow> Some (set_colour BLACK (zip_up t ps)))"
      using r(1) FR w(1) w' x by (simp del: fixup_right.simps)
    then show ?thesis using go [of "inorder w @ (k, n) # inorder x" r] r(2) FR w(1)
      by (simp del: rb_delete_fixup.simps)
  qed
qed

text \<open>One iteration whose sibling is RED: after the rotation the step ends the loop.\<close>

lemma rb_delete_fixup_sibling_red:
  assumes x: "colour_of x = BLACK" "invc x" "invh x" "set_colour BLACK x = x"
    and w: "other f = w" "invc w" "invh w" "bheight w = Suc (bheight x)" "colour_of w = RED"
    and pp: "path_ok ps (Suc (Suc (bheight x)))" "frame_colour f = BLACK" "length ps \<le> 61"
  shows "\<exists>t. rb_delete_fixup x (f # ps) = Some t \<and> rb_tree t \<and>
     inorder t = lefts (f # ps) @ inorder x @ rights (f # ps)"
proof -
  obtain wL wn wk wR where w': "w = Elem wL wn RED wk wR" using w by (cases w) auto
  have sub: "invc wL" "invh wL" "colour_of wL = BLACK" "bheight wL = Suc (bheight x)"
    "invc wR" "invh wR" "colour_of wR = BLACK" "bheight wR = Suc (bheight x)"
    using w w' by auto
  have go: "\<exists>t. (case r of Inl x' \<Rightarrow> rb_delete_fixup x' (f' # ps)
             | Inr t \<Rightarrow> Some (set_colour BLACK (zip_up t (f' # ps)))) = Some t \<and>
           rb_tree t \<and> inorder t = lefts (f' # ps) @ xs @ rights (f' # ps)"
    if f': "frame_colour f' = BLACK" "other f' = wL \<or> other f' = wR"
      and r: "fixed_up RED (bheight x) xs r" for xs r f'
  proof -
    have p1: "path_ok (f' # ps) (Suc (bheight x))" "below_black (f' # ps)"
      using f' sub pp by (auto simp: below_black_def)
    show ?thesis
    proof (cases r)
      case (Inl x')
      then show ?thesis
        using r rb_delete_fixup_red [of x' "f' # ps"] p1 by (auto simp: fixed_up_def)
    next
      case (Inr t)
      then show ?thesis using r fixed_up_done [of RED "bheight x" xs t "f' # ps"] p1 by auto
    qed
  qed
  show ?thesis
  proof (cases f)
    case (FL n c' k w1)
    obtain r where r: "fixup_left x n RED k wL = Some r"
      "fixed_up RED (bheight x) (inorder x @ (k, n) # inorder wL) r"
      using fixup_left_ok [OF x(2,3,1) sub(1-4)] by blast
    have "rb_delete_fixup x (f # ps) = (case r of Inl x' \<Rightarrow> rb_delete_fixup x' (FL wn BLACK wk wR # ps)
        | Inr t \<Rightarrow> Some (set_colour BLACK (zip_up t (FL wn BLACK wk wR # ps))))"
      unfolding FL by (subst rb_delete_fixup.simps(2))
        (use r(1) FL w(1) w' x pp in \<open>simp add: push_def del: rb_delete_fixup.simps fixup_left.simps split: sum.split\<close>)
    then show ?thesis using go [OF _ _ r(2), of "FL wn BLACK wk wR"] FL w(1) w'
      by (simp del: rb_delete_fixup.simps)
  next
    case (FR w1 n c' k)
    obtain r where r: "fixup_right wR n RED k x = Some r"
      "fixed_up RED (bheight x) (inorder wR @ (k, n) # inorder x) r"
      using fixup_right_ok [OF x(2,3,1) sub(5-8)] by blast
    have "rb_delete_fixup x (f # ps) = (case r of Inl x' \<Rightarrow> rb_delete_fixup x' (FR wL wn BLACK wk # ps)
        | Inr t \<Rightarrow> Some (set_colour BLACK (zip_up t (FR wL wn BLACK wk # ps))))"
      unfolding FR by (subst rb_delete_fixup.simps(3))
        (use r(1) FR w(1) w' x pp in \<open>simp add: push_def del: rb_delete_fixup.simps fixup_right.simps split: sum.split\<close>)
    then show ?thesis using go [OF _ _ r(2), of "FR wL wn BLACK wk"] FR w(1) w'
      by (simp del: rb_delete_fixup.simps)
  qed
qed

lemma rb_delete_fixup_ok:
  assumes "invc (set_colour BLACK x)" "invh x" "path_ok ps (Suc (bheight x))" "length ps \<le> 62"
  shows "\<exists>t. rb_delete_fixup x ps = Some t \<and> rb_tree t \<and>
     inorder t = lefts ps @ inorder x @ rights ps"
  using assms
proof (induction ps arbitrary: x)
  case Nil
  then show ?case by (simp add: rb_tree_def)
next
  case (Cons f ps)
  show ?case
  proof (cases "colour_of x = RED")
    case True
    then show ?thesis using Cons.prems by (intro rb_delete_fixup_red) auto
  next
    case False
    then have x: "colour_of x = BLACK" "invc x" "invh x" "set_colour BLACK x = x"
      using Cons.prems by (auto simp: set_colour_id)
    show ?thesis
    proof (cases "colour_of (other f) = RED")
      case False
      show ?thesis
        by (rule rb_delete_fixup_sibling_black [OF x refl])
          (use Cons False in \<open>auto simp: below_black_def\<close>)
    next
      case True
      then show ?thesis using Cons.prems
        by (intro rb_delete_fixup_sibling_red [OF x refl]) (cases "frame_colour f"; auto)+
    qed
  qed
qed

section \<open>The descent and the element that leaves the tree\<close>

text \<open>The outcomes of comparing the keys of a list, in order, with one key: first negative, then
  perhaps one zero, then positive.\<close>

definition cuts :: "('k \<Rightarrow> int) \<Rightarrow> ('k \<times> nat) list \<Rightarrow> bool" where
  "cuts f = sorted_wrt (\<lambda>a b. 0 \<le> f (fst a) \<longrightarrow> 0 < f (fst b))"

lemma tree_descend_ok:
  assumes "cuts f (inorder t)" "length ps + height t \<le> 63"
    "\<forall>x\<in>set (lefts ps). f (fst x) < 0" "\<forall>x\<in>set (rights ps). 0 < f (fst x)"
  shows "\<exists>e qs. tree_descend f t ps = Some (e, qs) \<and> zip_up e qs = zip_up t ps \<and>
    (focus_ok t ps \<longrightarrow> focus_ok e qs) \<and>
    (\<forall>x\<in>set (lefts qs). f (fst x) < 0) \<and> (\<forall>x\<in>set (rights qs). 0 < f (fst x)) \<and>
    (\<forall>l n c k r. e = Elem l n c k r \<longrightarrow> f k = 0)"
  using assms
proof (induction t arbitrary: ps)
  case (Elem l n c k r)
  have sub: "cuts f (inorder l)" "cuts f (inorder r)"
    "f k < 0 \<Longrightarrow> \<forall>x\<in>set (inorder l). f (fst x) < 0"
    "0 < f k \<Longrightarrow> \<forall>x\<in>set (inorder r). 0 < f (fst x)"
    using Elem.prems(1) by (fastforce simp: cuts_def sorted_wrt_append)+
  consider "f k = 0" | "f k < 0" | "0 < f k" by linarith
  then show ?case
  proof cases
    case 2
    have "length (FR l n c k # ps) + height r \<le> 63" using Elem.prems by simp
    from Elem.IH(2) [OF sub(2) this] show ?thesis
      using 2 Elem.prems sub focus_ok_right [of l n c k r ps] by (fastforce simp: push_def)
  next
    case 3
    have "length (FL n c k r # ps) + height l \<le> 63" using Elem.prems by simp
    from Elem.IH(1) [OF sub(1) this] show ?thesis
      using 3 Elem.prems sub focus_ok_left [of l n c k r ps] by (fastforce simp: push_def)
  qed (use Elem.prems in auto)
qed simp

lemma rights_append [simp]: "rights (qs @ ps) = rights qs @ rights ps"
proof (induction qs)
  case (Cons f qs)
  then show ?case by (cases f) auto
qed simp

text \<open>What the descent to the smallest element of a subtree yields.\<close>

lemma tree_leftmost_ok:
  assumes "t \<noteq> Null" "focus_ok t ps" "length ps + height t \<le> 63"
  shows "\<exists>n c k r qs. tree_leftmost t ps = Some ((n, c, k, r), qs @ ps) \<and>
    focus_ok (Elem Null n c k r) (qs @ ps) \<and> inorder t = (k, n) # inorder r @ rights qs \<and>
    (\<forall>rs. lefts (qs @ rs) = lefts rs) \<and> length qs < height t"
  using assms
proof (induction t arbitrary: ps)
  case (Elem l n c k r)
  show ?case
  proof (cases "l = Null")
    case True
    then show ?thesis using Elem.prems by auto
  next
    case False
    have "focus_ok l (FL n c k r # ps)" "length (FL n c k r # ps) + height l \<le> 63"
      using focus_ok_left [OF Elem.prems(2)] Elem.prems(3) by auto
    then obtain n' c' k' r' qs where "tree_leftmost l (FL n c k r # ps) = Some ((n', c', k', r'), qs @ FL n c k r # ps)"
      "focus_ok (Elem Null n' c' k' r') (qs @ FL n c k r # ps)" "inorder l = (k', n') # inorder r' @ rights qs"
      "\<forall>rs. lefts (qs @ rs) = lefts rs" "length qs < height l"
      using Elem.IH(1) [OF False] by blast
    then show ?thesis using False Elem.prems
      by (intro exI [of _ n'] exI [of _ c'] exI [of _ k'] exI [of _ r'] exI [of _ "qs @ [FL n c k r]"])
        (auto simp: push_def)
  qed
qed simp

lemma path_ok_replace:
  assumes "other f = other g" "frame_colour f = frame_colour g"
  shows "path_ok (qs @ f # ps) h = path_ok (qs @ g # ps) h"
  using assms
proof (induction qs arbitrary: h)
  case (Cons q qs)
  then show ?case by (cases qs) auto
qed simp

text \<open>An element with at most one child, taken out: what remains fits its path when the element
  was RED, and is one BLACK element short when it was BLACK.\<close>

definition unlinked :: "'k elem \<Rightarrow> 'k frame list \<Rightarrow> colour \<Rightarrow> bool" where
  "unlinked x ps c \<longleftrightarrow> invc x \<and> invh x \<and> (c = RED \<longrightarrow> colour_of x = BLACK) \<and>
     path_ok ps (if c = BLACK then Suc (bheight x) else bheight x)"

lemma unlinked_one_child:
  "focus_ok (Elem l n c k r) ps \<Longrightarrow> l = Null \<Longrightarrow> unlinked r ps c"
  "focus_ok (Elem l n c k r) ps \<Longrightarrow> r = Null \<Longrightarrow> unlinked l ps c"
  by (cases c; auto simp: focus_ok_def unlinked_def)+

lemma tree_unlink_ok:
  assumes "focus_ok (Elem l n c k r) ps" "length ps + height (Elem l n c k r) \<le> 62"
  shows "\<exists>x qs c'. tree_unlink (Elem l n c k r) ps = Some (x, qs, c') \<and> unlinked x qs c' \<and>
    length qs \<le> 62 \<and> lefts qs @ inorder x @ rights qs = lefts ps @ inorder l @ inorder r @ rights ps"
proof (cases "l = Null \<or> r = Null")
  case True
  then show ?thesis using assms unlinked_one_child [OF assms(1)] by auto
next
  case False
  have "focus_ok r (FR l n c k # ps)" "length (FR l n c k # ps) + height r \<le> 63"
    using focus_ok_right [OF assms(1)] assms(2) by auto
  then obtain n' c' k' r' qs where
    m: "tree_leftmost r (FR l n c k # ps) = Some ((n', c', k', r'), qs @ FR l n c k # ps)"
    "focus_ok (Elem Null n' c' k' r') (qs @ FR l n c k # ps)" "inorder r = (k', n') # inorder r' @ rights qs"
    "\<forall>rs. lefts (qs @ rs) = lefts rs" "length qs < height r"
    using tree_leftmost_ok [of r "FR l n c k # ps"] False by blast
  have "unlinked r' (qs @ FR l n' c k' # ps) c'"
    using unlinked_one_child(1) [OF m(2) refl]
      path_ok_replace [of "FR l n c k" "FR l n' c k'" qs ps] by (simp add: unlinked_def)
  then show ?thesis using False m assms by (auto simp: push_def)
qed

end
