(* ===== verification/Tree_Set.thy ===== *)
theory Tree_Set
  imports Rb_Tree
begin

text \<open>
  The trees of \<open>mysys/tree.c\<close> as sets that count their elements: the invariant of a
  \<open>TREE\<close>, what insertion, deletion, search and the walks do to its sorted contents, and the
  interface \<open>counted_set\<close> for their users.
\<close>

unbundle bit_operations_syntax

section \<open>The invariant of a tree and its contents\<close>

abbreviation contents :: "('c, 'k) TREE \<Rightarrow> ('k \<times> nat) list" where
  "contents t \<equiv> inorder (root t)"

text \<open>The keys are strictly increasing for the comparison with argument \<open>arg\<close>, the element
  count is that of the tree and every element has a count that fits 31 bits.\<close>

definition tree_inv :: "'c \<Rightarrow> ('c, 'k) TREE \<Rightarrow> bool" where
  "tree_inv arg t \<longleftrightarrow> good_compare (compare t arg) \<and> rb_tree (root t) \<and>
     sorted_wrt (\<lambda>a b. compare t arg (fst a) (fst b) < 0) (contents t) \<and>
     elements_in_tree t = length (contents t) \<and> elements_in_tree t < 4294967295 \<and>
     (\<forall>x\<in>set (contents t). 1 \<le> snd x \<and> snd x < 2147483648)"

lemma count_incr_eq: "n < 2147483648 \<Longrightarrow> count_incr n = min (n + 1) 2147483647"
  by (cases "n = 2147483647") (auto simp: count_incr_def)

lemma cuts_compare:
  assumes "good_compare cmp" "sorted_wrt (\<lambda>a b. cmp (fst a) (fst b) < 0) xs"
  shows "cuts (\<lambda>k. cmp k key) xs"
  unfolding cuts_def
proof (rule sorted_wrt_mono_rel [OF _ assms(2)])
  fix x y :: "'a \<times> nat"
  assume "cmp (fst x) (fst y) < 0"
  then show "0 \<le> cmp (fst x) key \<longrightarrow> 0 < cmp (fst y) key"
    using assms(1) good_compare_trans good_compare_neg by (smt (verit))
qed

text \<open>The descent from the root splits the contents at the key.\<close>

lemma tree_inv_descend:
  assumes "tree_inv arg t"
  obtains e ps where "tree_descend (\<lambda>k. compare t arg k key) (root t) [] = Some (e, ps)"
    "zip_up e ps = root t" "focus_ok e ps" "length ps + height e \<le> 62"
    "contents t = lefts ps @ inorder e @ rights ps"
    "\<forall>x\<in>set (lefts ps). compare t arg (fst x) key < 0"
    "\<forall>x\<in>set (rights ps). 0 < compare t arg (fst x) key"
    "\<And>l n c k r. e = Elem l n c k r \<Longrightarrow> compare t arg k key = 0"
proof -
  have t: "cuts (\<lambda>k. compare t arg k key) (contents t)" "height (root t) \<le> 62" "focus_ok (root t) []"
    using assms cuts_compare height_bound [of "root t"] focus_ok_root by (auto simp: tree_inv_def)
  then obtain e ps where d: "tree_descend (\<lambda>k. compare t arg k key) (root t) [] = Some (e, ps)"
    "zip_up e ps = root t" "focus_ok e ps" "\<forall>x\<in>set (lefts ps). compare t arg (fst x) key < 0"
    "\<forall>x\<in>set (rights ps). 0 < compare t arg (fst x) key"
    "\<forall>l n c k r. e = Elem l n c k r \<longrightarrow> compare t arg k key = 0"
    using tree_descend_ok [of "\<lambda>k. compare t arg k key" "root t" "[]"] by auto
  moreover have "length ps + height e \<le> 62" using height_zip [of ps e] d(2) t(2) by simp
  moreover have "contents t = lefts ps @ inorder e @ rights ps" using inorder_zip [of e ps] d(2) by simp
  ultimately show ?thesis using that by blast
qed

section \<open>Insertion\<close>

text \<open>The contract of insertion on the sorted list of keys and counts: a new key enters at its
  place with count 1, the count of an equal key goes up.\<close>

fun ref_insert :: "('k \<Rightarrow> int) \<Rightarrow> 'k \<Rightarrow> ('k \<times> nat) list \<Rightarrow> ('k \<times> nat) list" where
  "ref_insert f key [] = [(key, 1)]"
| "ref_insert f key ((k, n) # xs) =
     (if f k < 0 then (k, n) # ref_insert f key xs
      else if f k = 0 then (k, count_incr n) # xs
      else (key, 1) # (k, n) # xs)"

lemma ref_insert_split:
  assumes "\<forall>x\<in>set ls. f (fst x) < 0" "\<forall>x\<in>set rs. 0 < f (fst x)"
  shows "ref_insert f key (ls @ rs) = ls @ (key, 1) # rs"
    and "f k = 0 \<Longrightarrow> ref_insert f key (ls @ (k, n) # rs) = ls @ (k, count_incr n) # rs"
proof -
  have "ref_insert f key rs = (key, 1) # rs" using assms(2) by (cases rs) auto
  then show "ref_insert f key (ls @ rs) = ls @ (key, 1) # rs" using assms(1) by (induction ls) auto
  show "f k = 0 \<Longrightarrow> ref_insert f key (ls @ (k, n) # rs) = ls @ (k, count_incr n) # rs"
    using assms(1) by (induction ls) auto
qed

lemma set_ref_insert:
  "fst ` set (ref_insert f key xs) \<subseteq> insert key (fst ` set xs)"
  by (induction f key xs rule: ref_insert.induct) auto

lemma ref_insert_sorted:
  assumes "good_compare cmp" "sorted_wrt (\<lambda>a b. cmp (fst a) (fst b) < 0) xs"
  shows "sorted_wrt (\<lambda>a b. cmp (fst a) (fst b) < 0) (ref_insert (\<lambda>k. cmp k key) key xs)"
  using assms(2)
proof (induction xs)
  case (Cons x xs)
  obtain k n where x: "x = (k, n)" by (cases x)
  have "cmp k (fst y) < 0" if "cmp k key < 0" "y \<in> set (ref_insert (\<lambda>k. cmp k key) key xs)" for y
  proof -
    have "fst y \<in> insert key (fst ` set xs)"
      using set_ref_insert [of "\<lambda>k. cmp k key" key xs] that(2) by blast
    then show ?thesis using Cons.prems that(1) x by auto
  qed
  moreover have "0 < cmp k key \<Longrightarrow> cmp key k < 0" "\<And>y. 0 < cmp k key \<Longrightarrow> cmp k y < 0 \<Longrightarrow> cmp key y < 0"
    using good_compare_trans [OF assms(1)] good_compare_neg [OF assms(1)] by (smt (verit))+
  ultimately show ?case using Cons x by auto
qed simp

lemma ref_insert_counts:
  assumes "\<forall>x\<in>set xs. 1 \<le> snd x \<and> snd x < 2147483648"
  shows "\<forall>x\<in>set (ref_insert f key xs). 1 \<le> snd x \<and> snd x < 2147483648"
  using assms by (induction f key xs rule: ref_insert.induct) (auto simp: count_incr_eq)

lemma ref_insert_new:
  "\<forall>x\<in>set xs. f (fst x) \<noteq> 0 \<Longrightarrow> (key, 1) \<in> set (ref_insert f key xs)"
  by (induction f key xs rule: ref_insert.induct) auto

lemma length_ref_insert:
  "length xs \<le> length (ref_insert f key xs)" "length (ref_insert f key xs) \<le> Suc (length xs)"
  by (induction f key xs rule: ref_insert.induct) auto

lemma tree_inv_contents:
  assumes "tree_inv arg t" "elements_in_tree t < 4294967294" "rb_tree rt"
    "inorder rt = ref_insert (\<lambda>k. compare t arg k key) key (contents t)"
  shows "tree_inv arg (t\<lparr>root := rt, allocated := a, elements_in_tree := length (inorder rt)\<rparr>)"
  using assms ref_insert_sorted [of "compare t arg" "contents t" key]
    ref_insert_counts [of "contents t" "\<lambda>k. compare t arg k key" key]
    length_ref_insert(2) [of "\<lambda>k. compare t arg k key" key "contents t"]
  by (simp add: tree_inv_def)

lemma focus_recount: "focus_ok (Elem l n c k r) ps \<Longrightarrow> rb_tree (zip_up (Elem l m c k r) ps)"
  by (rule zip_ok) (auto simp: focus_ok_def)

lemma cuts_split:
  assumes "cuts f (ls @ (k, n) # rs)" "f k = 0"
  shows "\<forall>x\<in>set ls. f (fst x) < 0" "\<forall>x\<in>set rs. 0 < f (fst x)"
  using assms by (fastforce simp: cuts_def sorted_wrt_append)+

text \<open>\<open>tree_insert\<close> of a key that is in the tree.\<close>

lemma tree_insert_present:
  assumes "tree_inv arg t" "x \<in> set (contents t)" "compare t arg (fst x) key = 0"
  shows "if flag t AND TREE_NO_DUPS \<noteq> 0 then tree_insert alloc t key key_size arg = Some (t, None)
    else \<exists>t' k n. tree_insert alloc t key key_size arg = Some (t', Some (k, count_incr n)) \<and>
      (k, n) \<in> set (contents t) \<and> compare t arg k key = 0 \<and> tree_inv arg t' \<and>
      contents t' = ref_insert (\<lambda>k. compare t arg k key) key (contents t) \<and>
      t' = t\<lparr>root := root t'\<rparr>"
proof -
  obtain e ps where d: "tree_descend (\<lambda>k. compare t arg k key) (root t) [] = Some (e, ps)"
    "focus_ok e ps" "contents t = lefts ps @ inorder e @ rights ps"
    "\<forall>x\<in>set (lefts ps). compare t arg (fst x) key < 0"
    "\<forall>x\<in>set (rights ps). 0 < compare t arg (fst x) key"
    "\<And>l n c k r. e = Elem l n c k r \<Longrightarrow> compare t arg k key = 0"
    by (rule tree_inv_descend [OF assms(1), where key = key]) blast
  have "e \<noteq> Null" using d assms(2,3) by fastforce
  then obtain l n c k r where e: "e = Elem l n c k r" by (cases e) auto
  let ?f = "\<lambda>k. compare t arg k key"
  let ?ls = "lefts ps @ inorder l" and ?rs = "inorder r @ rights ps"
  have c: "contents t = ?ls @ (k, n) # ?rs" and k: "?f k = 0" using d e by auto
  have "cuts ?f (contents t)" using assms(1) cuts_compare by (auto simp: tree_inv_def)
  then have "\<forall>x\<in>set ?ls. ?f (fst x) < 0" "\<forall>x\<in>set ?rs. 0 < ?f (fst x)"
    using cuts_split [of ?f ?ls k n ?rs] c k by auto
  then have ri: "ref_insert ?f key (contents t) = ?ls @ (k, count_incr n) # ?rs"
    unfolding c by (rule ref_insert_split(2)) (fact k)
  define rt where "rt = zip_up (Elem l (count_incr n) c k r) ps"
  have rt: "inorder rt = ref_insert ?f key (contents t)" "rb_tree rt"
    using ri focus_recount d(2) e by (auto simp: rt_def inorder_zip)
  have "tree_inv arg (t\<lparr>root := rt\<rparr>)"
  proof -
    have "length (inorder rt) = elements_in_tree t" using rt(1) ri c assms(1) by (simp add: tree_inv_def)
    then show ?thesis
      using assms(1) rt ref_insert_sorted [of "compare t arg" "contents t" key]
        ref_insert_counts [of "contents t" ?f key] by (simp add: tree_inv_def)
  qed
  then show ?thesis
    using d(1) e rt(1) c k unfolding rt_def by (auto simp: tree_insert.simps)
qed

text \<open>\<open>tree_insert\<close> of a new key within the memory limit.\<close>

lemma tree_insert_absent:
  fixes arg :: 'c and t :: "('c, 'k) TREE"
  defines "alloc_size \<equiv> \<lambda>key_size. u32_add (sizeof_TREE_ELEMENT + key_size) (size_of_element t)"
  assumes "tree_inv arg t" "\<forall>x\<in>set (contents t). compare t arg (fst x) key \<noteq> 0"
    "memory_limit t = 0 \<or> elements_in_tree t = 0 \<or>
       u32_add (allocated t) (alloc_size key_size) \<le> memory_limit t"
  shows "if \<not> alloc then tree_insert alloc t key key_size arg =
       Some (t\<lparr>allocated := u32_add (allocated t) (alloc_size key_size)\<rparr>, None)
    else \<exists>rt. tree_insert alloc t key key_size arg =
        Some (t\<lparr>root := rt, allocated := u32_add (allocated t) (alloc_size key_size),
               elements_in_tree := u32_add (elements_in_tree t) 1\<rparr>, Some (key, 1)) \<and>
      rb_tree rt \<and> inorder rt = ref_insert (\<lambda>k. compare t arg k key) key (contents t) \<and>
      length (inorder rt) = Suc (elements_in_tree t)"
proof -
  obtain e ps where d: "tree_descend (\<lambda>k. compare t arg k key) (root t) [] = Some (e, ps)"
    "focus_ok e ps" "contents t = lefts ps @ inorder e @ rights ps"
    "\<forall>x\<in>set (lefts ps). compare t arg (fst x) key < 0"
    "\<forall>x\<in>set (rights ps). 0 < compare t arg (fst x) key"
    "\<And>l n c k r. e = Elem l n c k r \<Longrightarrow> compare t arg k key = 0"
    by (rule tree_inv_descend [OF assms(2), where key = key]) blast
  have e: "e = Null" using d(3,6) assms(3) by (cases e) auto
  obtain rt where rt: "rb_insert (Elem Null 1 RED key Null) ps = Some rt" "rb_tree rt"
    "inorder rt = lefts ps @ (key, 1) # rights ps"
    using rb_insert_ok [of "Elem Null 1 RED key Null" ps] d(2) e by (auto simp: focus_ok_def)
  moreover have "length (inorder rt) = Suc (elements_in_tree t)"
    using rt(3) d(3) e assms(2) by (simp add: tree_inv_def)
  moreover have "inorder rt = ref_insert (\<lambda>k. compare t arg k key) key (contents t)"
    using rt(3) d(3) e ref_insert_split(1) [OF d(4,5)] by simp
  moreover have "tree_insert alloc t key key_size arg =
      (if \<not> alloc then Some (t\<lparr>allocated := u32_add (allocated t) (alloc_size key_size)\<rparr>, None)
       else Some (t\<lparr>root := rt, allocated := u32_add (allocated t) (alloc_size key_size),
               elements_in_tree := u32_add (elements_in_tree t) 1\<rparr>, Some (key, 1)))"
    using d(1) e assms(4) rt(1)
    by (subst tree_insert.simps) (auto simp: alloc_size_def Let_def simp del: u32_add_small)
  ultimately show ?thesis by (cases alloc) auto
qed

text \<open>Both branches together, for a tree without a memory limit.\<close>

lemma tree_insert_ok:
  fixes t :: "('c, 'k) TREE"
  assumes inv: "tree_inv arg t" and room: "elements_in_tree t < 4294967294"
    and "memory_limit t = 0" "flag t AND TREE_NO_DUPS = 0"
  shows "\<exists>t' e. tree_insert True t key key_size arg = Some (t', Some e) \<and> tree_inv arg t' \<and>
    contents t' = ref_insert (\<lambda>k. compare t arg k key) key (contents t) \<and>
    e \<in> set (contents t') \<and> compare t arg (fst e) key = 0 \<and>
    compare t' = compare t \<and> memory_limit t' = memory_limit t \<and> flag t' = flag t"
proof (cases "\<exists>x\<in>set (contents t). compare t arg (fst x) key = 0")
  case True
  then obtain x where x: "x \<in> set (contents t)" "compare t arg (fst x) key = 0" by blast
  obtain t' k n where t': "tree_insert True t key key_size arg = Some (t', Some (k, count_incr n))"
    "(k, n) \<in> set (contents t)" "compare t arg k key = 0" "tree_inv arg t'"
    "contents t' = ref_insert (\<lambda>k. compare t arg k key) key (contents t)" "t' = t\<lparr>root := root t'\<rparr>"
    using tree_insert_present [OF inv x, of True key_size] assms(4) by auto
  moreover have "(k, count_incr n) \<in> set (contents t')"
  proof -
    obtain ls rs where c: "contents t = ls @ (k, n) # rs" using t'(2) split_list by fast
    have "cuts (\<lambda>k. compare t arg k key) (contents t)"
      using inv cuts_compare by (auto simp: tree_inv_def)
    then show ?thesis
      using t'(3,5) cuts_split [of "\<lambda>k. compare t arg k key" ls k n rs] unfolding c
      by (simp add: ref_insert_split(2))
  qed
  moreover have "compare t' = compare t" "memory_limit t' = memory_limit t" "flag t' = flag t"
    by (subst t'(6), simp)+
  ultimately show ?thesis by fastforce
next
  case False
  then obtain rt where rt: "tree_insert True t key key_size arg =
      Some (t\<lparr>root := rt, allocated := u32_add (allocated t)
          (u32_add (sizeof_TREE_ELEMENT + key_size) (size_of_element t)),
        elements_in_tree := u32_add (elements_in_tree t) 1\<rparr>, Some (key, 1))"
    "rb_tree rt" "inorder rt = ref_insert (\<lambda>k. compare t arg k key) key (contents t)"
    "length (inorder rt) = Suc (elements_in_tree t)"
    using tree_insert_absent [OF inv, of key key_size True] assms by auto
  have good: "good_compare (compare t arg)" using inv by (simp add: tree_inv_def)
  have "(key, 1) \<in> set (inorder rt)"
    using False ref_insert_new [of "contents t" "\<lambda>k. compare t arg k key" key] rt(3) by simp
  then show ?thesis
    using rt(1) tree_inv_contents [OF inv room rt(2,3)] rt(3,4) room good_compare_refl [OF good]
    by (intro exI [of _ "t\<lparr>root := rt, allocated := u32_add (allocated t)
          (u32_add (sizeof_TREE_ELEMENT + key_size) (size_of_element t)),
        elements_in_tree := u32_add (elements_in_tree t) 1\<rparr>"] exI [of _ "(key, 1)"]) simp
qed

section \<open>Search, deletion and walks\<close>

lemma find_split:
  assumes "\<forall>x\<in>set ls. f (fst x) < (0::int)"
  shows "find (\<lambda>x. f (fst x) = 0) (ls @ rs) = find (\<lambda>x. f (fst x) = 0) rs"
  using assms by (induction ls) auto

lemma find_none:
  assumes "\<forall>x\<in>set rs. 0 < (f (fst x) :: int)"
  shows "find (\<lambda>x. f (fst x) = 0) (ls @ rs) = find (\<lambda>x. f (fst x) = 0) ls"
proof (induction ls)
  case Nil
  then show ?case using assms by (induction rs) auto
qed simp

lemma tree_search_elem_ok:
  assumes "cuts f (inorder t)"
  shows "tree_search_elem f t = map_option fst (find (\<lambda>x. f (fst x) = 0) (inorder t))"
  using assms
proof (induction t)
  case (Elem l n c k r)
  have sub: "cuts f (inorder l)" "cuts f (inorder r)"
    "f k \<le> 0 \<Longrightarrow> \<forall>x\<in>set (inorder l). f (fst x) < 0"
    "0 < f k \<Longrightarrow> \<forall>x\<in>set (inorder r). 0 < f (fst x)"
    using Elem.prems by (fastforce simp: cuts_def sorted_wrt_append)+
  consider "f k = 0" | "f k < 0" | "0 < f k" by linarith
  then show ?case
  proof cases
    case 1
    then show ?thesis using sub find_split [of "inorder l" f "(k, n) # inorder r"] by auto
  next
    case 2
    then show ?thesis using sub Elem.IH find_split [of "inorder l" f "(k, n) # inorder r"] by auto
  next
    case 3
    then show ?thesis using sub Elem.IH find_none [of "(k, n) # inorder r" f "inorder l"] by auto
  qed
qed simp

text \<open>The contract of the walks: the action runs along a list until it returns non-zero.\<close>

fun walk_list :: "('k \<Rightarrow> nat \<Rightarrow> 's \<Rightarrow> int \<times> 's) \<Rightarrow> ('k \<times> nat) list \<Rightarrow> 's \<Rightarrow> int \<times> 's" where
  "walk_list act [] s = (0, s)"
| "walk_list act ((k, n) # xs) s =
     (let (e, s') = act k n s in if e \<noteq> 0 then (e, s') else walk_list act xs s')"

lemma walk_list_append:
  "walk_list act (xs @ ys) s =
     (let (e, s') = walk_list act xs s in if e \<noteq> 0 then (e, s') else walk_list act ys s')"
  by (induction act xs s rule: walk_list.induct) (auto split: prod.splits)

lemma walk_collect: "walk_list (\<lambda>k n s. (0, s @ [(k, n)])) xs s = (0, s @ xs)"
  by (induction xs arbitrary: s) auto

lemma tree_walk_elem:
  "tree_walk_left_root_right act t s = walk_list act (inorder t) s"
  "tree_walk_right_root_left act t s = walk_list act (rev (inorder t)) s"
proof (induction t arbitrary: s)
  case (Elem l n c k r)
  { case 1 show ?case using Elem by (auto simp: walk_list_append split: prod.splits)
  next
    case 2 show ?case using Elem by (auto simp: walk_list_append split: prod.splits) }
qed simp_all

lemma filter_split:
  assumes "\<forall>x\<in>set ls. f (fst x) < (0::int)" "\<forall>x\<in>set rs. 0 < f (fst x)" "f k = 0"
  shows "filter (\<lambda>x. f (fst x) \<noteq> 0) (ls @ (k, n) # rs) = ls @ rs"
proof -
  have "filter (\<lambda>x. f (fst x) \<noteq> 0) ls = ls" "filter (\<lambda>x. f (fst x) \<noteq> 0) rs = rs"
    using assms by (force simp: filter_id_conv)+
  then show ?thesis using assms(3) by simp
qed

lemma delete_tree_element_calls:
  "delete_tree_element True t = map (\<lambda>x. (Some (fst x), free_free)) (inorder t)"
  by (induction t) auto

text \<open>The branch of \<open>tree_insert\<close> that starts over with an empty tree.\<close>

lemma tree_insert_resets:
  assumes "tree_inv arg t" "\<forall>x\<in>set (contents t). compare t arg (fst x) key \<noteq> 0"
    "memory_limit t \<noteq> 0" "elements_in_tree t \<noteq> 0"
    "memory_limit t < u32_add (allocated t) (u32_add (sizeof_TREE_ELEMENT + key_size) (size_of_element t))"
  shows "tree_insert alloc t key key_size arg = tree_insert alloc (reset_tree (t\<lparr>allocated :=
    u32_add (allocated t) (u32_add (sizeof_TREE_ELEMENT + key_size) (size_of_element t))\<rparr>)) key key_size arg"
proof -
  obtain e ps where d: "tree_descend (\<lambda>k. compare t arg k key) (root t) [] = Some (e, ps)"
    "contents t = lefts ps @ inorder e @ rights ps"
    "\<And>l n c k r. e = Elem l n c k r \<Longrightarrow> compare t arg k key = 0"
    by (rule tree_inv_descend [OF assms(1), where key = key]) blast
  have "e = Null" using d(2,3) assms(2) by (cases e) auto
  then show ?thesis using d(1) assms by (subst tree_insert.simps) (simp add: Let_def)
qed

text \<open>What \<open>tree_delete\<close> does once the element is found at the end of a path.\<close>

lemma tree_delete_element:
  assumes "focus_ok (Elem l n c k r) ps" "length ps + height (Elem l n c k r) \<le> 62"
  shows "\<exists>x qs c' rt. tree_unlink (Elem l n c k r) ps = Some (x, qs, c') \<and>
    (if c' = BLACK then rb_delete_fixup x qs else Some (zip_up x qs)) = Some rt \<and>
    rb_tree rt \<and> inorder rt = lefts ps @ inorder l @ inorder r @ rights ps"
proof -
  obtain x qs c' where x: "tree_unlink (Elem l n c k r) ps = Some (x, qs, c')" "unlinked x qs c'"
    "length qs \<le> 62" "lefts qs @ inorder x @ rights qs = lefts ps @ inorder l @ inorder r @ rights ps"
    using tree_unlink_ok [OF assms] by blast
  have "\<exists>rt. (if c' = BLACK then rb_delete_fixup x qs else Some (zip_up x qs)) = Some rt \<and>
      rb_tree rt \<and> inorder rt = lefts qs @ inorder x @ rights qs"
  proof (cases "c' = BLACK")
    case True
    then show ?thesis
      using rb_delete_fixup_ok [of x qs] x(2,3) by (simp add: unlinked_def invc_set_BLACK)
  next
    case False
    then have "rb_tree (zip_up x qs)" using x(2) by (intro zip_ok) (auto simp: unlinked_def)
    then show ?thesis using False by (simp add: inorder_zip)
  qed
  then show ?thesis using x by auto
qed

lemma tree_delete_ok:
  assumes "tree_inv arg t" "with_delete t"
  shows "if \<exists>x\<in>set (contents t). compare t arg (fst x) key = 0 then
      \<exists>t' k. tree_delete t key arg = Some (t', False) \<and> tree_inv arg t' \<and>
        contents t' = filter (\<lambda>x. compare t arg (fst x) key \<noteq> 0) (contents t) \<and>
        length (contents t') + 1 = length (contents t) \<and> compare t arg k key = 0 \<and>
        free_calls t' = free_calls t @ (if has_free t then [(Some k, free_free)] else [])
    else tree_delete t key arg = Some (t, True)"
proof -
  let ?f = "\<lambda>k. compare t arg k key"
  obtain e ps where d: "tree_descend ?f (root t) [] = Some (e, ps)"
    "focus_ok e ps" "length ps + height e \<le> 62" "contents t = lefts ps @ inorder e @ rights ps"
    "\<forall>x\<in>set (lefts ps). ?f (fst x) < 0" "\<forall>x\<in>set (rights ps). 0 < ?f (fst x)"
    "\<And>l n c k r. e = Elem l n c k r \<Longrightarrow> ?f k = 0"
    by (rule tree_inv_descend [OF assms(1), where key = key]) blast
  show ?thesis
  proof (cases e)
    case Null
    then have "\<not> (\<exists>x\<in>set (contents t). ?f (fst x) = 0)" using d by fastforce
    then show ?thesis using d(1) Null assms(2) by (simp add: tree_delete_def)
  next
    case (Elem l n c k r)
    let ?ls = "lefts ps @ inorder l" and ?rs = "inorder r @ rights ps"
    have c: "contents t = ?ls @ (k, n) # ?rs" and k: "?f k = 0" using d Elem by auto
    have "cuts ?f (contents t)" using assms(1) cuts_compare by (auto simp: tree_inv_def)
    then have f: "filter (\<lambda>x. ?f (fst x) \<noteq> 0) (contents t) = ?ls @ ?rs"
      unfolding c using cuts_split [of ?f ?ls k n ?rs] filter_split [of ?ls ?f ?rs k n] k by blast
    obtain x qs c' rt where x: "tree_unlink e ps = Some (x, qs, c')"
      "(if c' = BLACK then rb_delete_fixup x qs else Some (zip_up x qs)) = Some rt"
      "rb_tree rt" "inorder rt = ?ls @ ?rs"
      using tree_delete_element [of l n c k r ps] d(2,3) Elem by auto
    let ?t' = "t\<lparr>root := rt, free_calls := free_calls t @ (if has_free t then [(Some k, free_free)] else []),
      allocated := u32_sub (allocated t) (sizeof_TREE_ELEMENT + size_of_element t),
      elements_in_tree := u32_sub (elements_in_tree t) 1\<rparr>"
    have "tree_delete t key arg = Some (?t', False)"
      using d(1) x(1,2) Elem assms(2) by (simp add: tree_delete_def del: tree_unlink.simps)
    moreover have "tree_inv arg ?t'"
      using assms(1) x(3,4) c by (auto simp: tree_inv_def sorted_wrt_append)
    moreover have "\<exists>x\<in>set (contents t). ?f (fst x) = 0" using c k by auto
    ultimately show ?thesis using f x(4) c k by auto
  qed
qed

section \<open>Trees as counted sets\<close>

lemma tally_simps [simp]:
  "tally cmp [] j = 0"
  "tally cmp ((k, n) # xs) j = (if cmp k j = 0 then n + tally cmp xs j else tally cmp xs j)"
  by (auto simp: tally_def)

lemma tally_none: "\<forall>x\<in>set xs. cmp (fst x) j \<noteq> 0 \<Longrightarrow> tally cmp xs j = 0"
  by (induction xs) auto

text \<open>How the outcomes of comparing with two keys \<open>k\<close> and \<open>j\<close> go together.\<close>

lemma good_compare_two:
  assumes "good_compare cmp"
  shows "cmp x k < 0 \<Longrightarrow> cmp k j = 0 \<Longrightarrow> cmp x j < 0"
    and "cmp x k = 0 \<Longrightarrow> cmp x j = 0 \<longleftrightarrow> cmp k j = 0"
    and "0 < cmp x k \<Longrightarrow> cmp k j = 0 \<Longrightarrow> 0 < cmp x j"
    and "cmp x y < 0 \<Longrightarrow> 0 \<le> cmp x j \<Longrightarrow> 0 < cmp y j"
  using good_compare_trans [OF assms] good_compare_neg [OF assms] by (smt (verit))+

lemma tally_ref_insert:
  assumes good: "good_compare cmp" and "sorted_wrt (\<lambda>a b. cmp (fst a) (fst b) < 0) xs"
    and "\<forall>x\<in>set xs. 1 \<le> snd x \<and> snd x < 2147483648"
  shows "tally cmp (ref_insert (\<lambda>x. cmp x k) k xs) j =
    (if cmp k j = 0 then min 2147483647 (Suc (tally cmp xs j)) else tally cmp xs j)"
  using assms(2,3)
proof (induction xs)
  case (Cons y xs)
  obtain x n where y: "y = (x, n)" by (cases y)
  have rest: "tally cmp xs j = 0" if "0 \<le> cmp x j"
    using Cons.prems(1) y good_compare_two(4) [OF good _ that] by (intro tally_none) fastforce
  consider "cmp x k < 0" | "cmp x k = 0" | "0 < cmp x k" by linarith
  then show ?case
  proof cases
    case 1
    then show ?thesis using Cons y good_compare_two(1) [OF good 1, of j] by auto
  next
    case 2
    then show ?thesis using Cons.prems y good_compare_two(2) [OF good 2, of j] rest
      by (auto simp: count_incr_eq)
  next
    case 3
    then show ?thesis using y good_compare_two(3) [OF good 3, of j] rest by auto
  qed
qed simp

lemma tally_bound:
  assumes good: "good_compare cmp" and "sorted_wrt (\<lambda>a b. cmp (fst a) (fst b) < 0) xs"
    and "\<forall>x\<in>set xs. 1 \<le> snd x \<and> snd x < 2147483648"
  shows "tally cmp xs j \<le> 2147483647"
  using assms(2,3)
proof (induction xs)
  case (Cons y xs)
  obtain x n where y: "y = (x, n)" by (cases y)
  have "tally cmp xs j = 0" if "0 \<le> cmp x j"
    using Cons.prems(1) y good_compare_two(4) [OF good _ that] by (intro tally_none) fastforce
  then show ?case using Cons y by auto
qed simp

definition tree_put :: "nat \<Rightarrow> 'c \<Rightarrow> ('c, 'k) TREE \<Rightarrow> 'k \<Rightarrow> ('c, 'k) TREE option" where
  "tree_put key_size arg t key =
     (case tree_insert True t key key_size arg of Some (t', Some e) \<Rightarrow> Some t' | _ \<Rightarrow> None)"

definition tree_unlimited :: "'c \<Rightarrow> ('c, 'k) TREE \<Rightarrow> bool" where
  "tree_unlimited arg t \<longleftrightarrow> tree_inv arg t \<and> memory_limit t = 0 \<and> flag t AND TREE_NO_DUPS = 0"

interpretation mysys_tree: counted_set "tree_put key_size arg" contents "\<lambda>t. compare t arg"
  2147483647 "\<lambda>t. 4294967294 - elements_in_tree t" "tree_unlimited arg"
  for key_size :: nat and arg :: 'c
proof
  fix t :: "('c, 'k) TREE" and k :: 'k
  assume t: "tree_unlimited arg t"
  then have inv: "tree_inv arg t" by (simp add: tree_unlimited_def)
  show "sorted_wrt (\<lambda>a b. compare t arg (fst a) (fst b) < 0) (contents t)"
    using inv by (simp add: tree_inv_def)
  show "tally (compare t arg) (contents t) k \<le> 2147483647"
    using inv tally_bound [of "compare t arg" "contents t" k] by (simp add: tree_inv_def)
  assume "0 < 4294967294 - elements_in_tree t"
  then obtain t' e where t': "tree_insert True t k key_size arg = Some (t', Some e)" "tree_inv arg t'"
    "contents t' = ref_insert (\<lambda>x. compare t arg x k) k (contents t)"
    "compare t' = compare t" "memory_limit t' = memory_limit t" "flag t' = flag t"
    using tree_insert_ok [OF inv, of k key_size] t by (auto simp: tree_unlimited_def)
  moreover have "tally (compare t arg) (contents t') j = (if compare t arg k j = 0
      then min 2147483647 (Suc (tally (compare t arg) (contents t) j))
      else tally (compare t arg) (contents t) j)" for j
    using inv tally_ref_insert [of "compare t arg" "contents t" k j] t'(3) by (simp add: tree_inv_def)
  moreover have "elements_in_tree t' \<le> Suc (elements_in_tree t)"
    using inv t'(2,3) length_ref_insert(2) [of "\<lambda>x. compare t arg x k" k "contents t"]
    by (simp add: tree_inv_def)
  ultimately show "\<exists>t'. tree_put key_size arg t k = Some t' \<and> tree_unlimited arg t' \<and>
      compare t' arg = compare t arg \<and>
      4294967294 - elements_in_tree t \<le> Suc (4294967294 - elements_in_tree t') \<and>
      (\<forall>j. tally (compare t arg) (contents t') j = (if compare t arg k j = 0
        then min 2147483647 (Suc (tally (compare t arg) (contents t) j))
        else tally (compare t arg) (contents t) j))"
    using t by (intro exI [of _ t']) (auto simp: tree_put_def tree_unlimited_def)
qed

lemma init_tree_unlimited:
  assumes "good_compare (cmp arg)"
  shows "tree_unlimited arg (init_tree 0 ksize cmp wdel fr ca)"
    and "contents (init_tree limit ksize cmp wdel fr ca) = []"
    and "compare (init_tree limit ksize cmp wdel fr ca) = cmp"
    and "elements_in_tree (init_tree limit ksize cmp wdel fr ca) = 0"
  using assms
  by (simp_all add: init_tree_def Let_def tree_unlimited_def tree_inv_def rb_tree_def)

section \<open>Properties\<close>

text \<open>The trees of the witnesses: integer keys, compared by subtraction.\<close>

definition int_tree :: "nat \<Rightarrow> (unit, int) TREE" where
  "int_tree limit = init_tree limit 8 (\<lambda>_ a b. a - b) True True ()"

lemma good_compare_int: "good_compare (\<lambda>a b. a - b :: int)"
  by (auto simp: good_compare_def sgn_if)

text \<open>C12. A tree used to count values: into a fresh tree without memory limit any list of fewer than
  2^32 - 1 keys can be inserted, whatever their order (the fixed array of parents never
  overflows), and then a walk visits distinct keys in increasing order, each with the number of
  times it was inserted, capped at 2^31 - 1.\<close>

theorem tree_counts_values:
  assumes "good_compare (cmp arg)" "length keys < 4294967295"
  shows "\<exists>t. fold_opt (tree_put key_size arg) (init_tree 0 ksize cmp wdel fr ca) keys = Some t \<and>
    (\<exists>xs. tree_walk t (\<lambda>k n s. (0, s @ [(k, n)])) [] left_root_right = (0, xs) \<and>
      sorted_wrt (\<lambda>a b. cmp arg (fst a) (fst b) < 0) xs \<and>
      (\<forall>j. tally (cmp arg) xs j = min 2147483647 (length (filter (\<lambda>k. cmp arg k j = 0) keys))))"
proof -
  let ?t0 = "init_tree 0 ksize cmp wdel fr ca"
  obtain t where t: "fold_opt (tree_put key_size arg) ?t0 keys = Some t"
    "sorted_wrt (\<lambda>a b. cmp arg (fst a) (fst b) < 0) (contents t)"
    "\<forall>j. tally (cmp arg) (contents t) j = min 2147483647 (length (filter (\<lambda>k. cmp arg k j = 0) keys))"
    using mysys_tree.put_all [of arg ?t0 keys key_size] assms(2)
      init_tree_unlimited [of cmp arg, OF assms(1)] by auto
  have "tree_walk t (\<lambda>k n s. (0, s @ [(k, n)])) [] left_root_right = (0, contents t)"
    by (simp add: tree_walk_def tree_walk_elem walk_collect)
  then show ?thesis using t by blast
qed

theorem tree_counts_values_witness:
  "\<exists>t xs. fold_opt (tree_put 8 ()) (init_tree 0 8 (\<lambda>_ a b. a - b) True True ()) [5, 3, 5::int] = Some t \<and>
     tree_walk t (\<lambda>k n s. (0, s @ [(k, n)])) [] left_root_right = (0, xs) \<and> tally (\<lambda>a b. a - b) xs 5 = 2"
  using tree_counts_values [of "\<lambda>_ a b. a - b" "()" "[5, 3, 5::int]" 8 8 True True "()"] good_compare_int
  by force

text \<open>C21. \<open>tree_insert\<close> implements insertion into the sorted list of keys and counts, keeps the
  invariant (red-black balance included) and returns the element of the key.\<close>

theorem tree_insert_correct:
  assumes "tree_inv arg t" "elements_in_tree t < 4294967294" "memory_limit t = 0"
    "flag t AND TREE_NO_DUPS = 0"
  shows "\<exists>t' e. tree_insert True t key key_size arg = Some (t', Some e) \<and> tree_inv arg t' \<and>
    contents t' = ref_insert (\<lambda>k. compare t arg k key) key (contents t) \<and>
    e \<in> set (contents t') \<and> compare t arg (fst e) key = 0"
  using tree_insert_ok [OF assms] by blast

lemma int_tree_inv: "tree_inv () (int_tree limit)" "elements_in_tree (int_tree limit) = 0"
  "memory_limit (int_tree limit) = limit" "flag (int_tree limit) = 0" "contents (int_tree limit) = []"
  "with_delete (int_tree limit)" "compare (int_tree limit) = (\<lambda>_ a b. a - b)"
  "has_free (int_tree limit)" "free_calls (int_tree limit) = []"
  using good_compare_int
  by (simp_all add: int_tree_def init_tree_def Let_def tree_inv_def rb_tree_def)

theorem tree_insert_correct_witness:
  "\<exists>t' e. tree_insert True (int_tree 0) 7 8 () = Some (t', Some e) \<and> tree_inv () t' \<and> contents t' = [(7, 1)]"
  using tree_insert_correct [of "()" "int_tree 0" 7 8] by (fastforce simp: int_tree_inv)


definition seven_tree :: "nat \<Rightarrow> (unit, int) TREE" where
  "seven_tree limit = (int_tree limit)\<lparr>root := Elem Null 1 BLACK 7 Null, elements_in_tree := 1\<rparr>"

lemma seven_tree_inv: "tree_inv () (seven_tree limit)" "elements_in_tree (seven_tree limit) = 1"
  "memory_limit (seven_tree limit) = limit" "contents (seven_tree limit) = [(7, 1)]"
  "with_delete (seven_tree limit)" "compare (seven_tree limit) = (\<lambda>_ a b. a - b)"
  "has_free (seven_tree limit)" "free_calls (seven_tree limit) = []"
  using good_compare_int
  by (simp_all add: seven_tree_def int_tree_inv tree_inv_def rb_tree_def)


text \<open>C13. \<open>tree_delete\<close> removes exactly the element that compares equal to the key, hands its key
  to the free function, keeps the invariant and returns 0; without such an element it returns 1
  and leaves the tree alone.\<close>

theorem tree_delete_correct:
  assumes "tree_inv arg t" "with_delete t"
  shows "if \<exists>x\<in>set (contents t). compare t arg (fst x) key = 0 then
      \<exists>t' k. tree_delete t key arg = Some (t', False) \<and> tree_inv arg t' \<and>
        contents t' = filter (\<lambda>x. compare t arg (fst x) key \<noteq> 0) (contents t) \<and>
        length (contents t') + 1 = length (contents t) \<and> compare t arg k key = 0 \<and>
        free_calls t' = free_calls t @ (if has_free t then [(Some k, free_free)] else [])
    else tree_delete t key arg = Some (t, True)"
  by (rule tree_delete_ok [OF assms])

theorem tree_delete_correct_witness:
  "\<exists>t'. tree_delete (seven_tree 0) 7 () = Some (t', False) \<and> contents t' = [] \<and> tree_inv () t'"
  using tree_delete_correct [of "()" "seven_tree 0" 7] by (auto simp: seven_tree_inv)

text \<open>C32. \<open>tree_search\<close> finds the key of the tree that compares equal to the key searched for,
  and returns a null pointer exactly when there is none.\<close>

theorem tree_search_correct:
  assumes "tree_inv arg t"
  shows "tree_search t key arg = map_option fst (find (\<lambda>x. compare t arg (fst x) key = 0) (contents t))"
  using assms tree_search_elem_ok [of "\<lambda>k. compare t arg k key" "root t"]
    cuts_compare [of "compare t arg" "contents t" key]
  by (simp add: tree_search_def tree_inv_def)

theorem tree_search_correct_witness:
  "tree_search (seven_tree 0) 7 () = Some 7 \<and> tree_search (seven_tree 0) 8 () = None"
  using tree_search_correct [of "()" "seven_tree 0"] by (simp add: seven_tree_inv)

text \<open>C38. \<open>tree_walk\<close> calls its action on the elements in increasing or in decreasing order, and
  stops with the first non-zero result of the action.\<close>

theorem tree_walk_correct:
  "tree_walk t act s visit =
     walk_list act (case visit of left_root_right \<Rightarrow> contents t | right_root_left \<Rightarrow> rev (contents t)) s"
  by (cases visit) (simp_all add: tree_walk_def tree_walk_elem)

text \<open>C40. The self-check \<open>test_rb_tree\<close> returns the number of BLACK elements on every path when
  no RED element has a RED child and all paths have equally many BLACK elements, and -1 when
  the tree is not red-black.\<close>

theorem test_rb_tree_correct:
  "test_rb_tree t = (if invc t \<and> invh t then int (bheight t) else -1)"
  by (induction t) (auto simp: Let_def split: if_splits)

end
