(* ===== verification/Hash.thy ===== *)
theory Hash
  imports Prelude
begin

text \<open>
  Linear hashing of \<open>mysys/hash.c\<close>.

  A table is a dynamic array of links (an index and a record pointer); the array holds exactly
  the records of the table.  Here it is the list \<open>array\<close>, a record pointer is a value of type
  \<open>'r\<close>, and \<open>bytes\<close> gives the memory a pointer leads to.  The key extractor and the two
  functions of the character set (\<open>hash_sort\<close> and the comparison behind \<open>my_strnncoll\<close>) are
  function pointers of the structure and so fields of the model.  Following an index outside the
  array has no meaning (\<open>None\<close>), and neither has a loop that does not end.
\<close>

unbundle bit_operations_syntax

section \<open>Tables\<close>

datatype 'r HASH_LINK = HASH_LINK (next_link: nat) (dat: 'r)

record ('b, 'r) HASH =
  key_offset :: nat
  key_length :: nat
  records :: nat
  blength :: nat
  current_record :: nat
  flags :: nat
  array :: "'r HASH_LINK list"
  get_key :: "('r \<Rightarrow> bool \<Rightarrow> 'b list) option"
  free :: bool
  bytes :: "'r \<Rightarrow> 'b list"
  hash_sort :: "'b list \<Rightarrow> nat \<times> nat \<Rightarrow> nat \<times> nat"
  strnncoll :: "'b list \<Rightarrow> 'b list \<Rightarrow> int"
  freed :: "'r list"  \<comment> \<open>the records handed to the free function so far\<close>

abbreviation NO_RECORD :: nat where "NO_RECORD \<equiv> 4294967295"

definition calc_hash :: "('b, 'r) HASH \<Rightarrow> 'b list \<Rightarrow> nat" where
  "calc_hash hash key = fst (hash_sort hash key (1, 4)) mod UINT_RANGE"

text \<open>\<open>mem\<close> says whether the array could be allocated; on failure only \<open>records\<close> and \<open>free\<close>
  are set.\<close>

definition hash_init ::
  "bool \<Rightarrow> ('b, 'r) HASH \<Rightarrow> ('b list \<Rightarrow> nat \<times> nat \<Rightarrow> nat \<times> nat) \<Rightarrow> ('b list \<Rightarrow> 'b list \<Rightarrow> int) \<Rightarrow>
   nat \<Rightarrow> nat \<Rightarrow> ('r \<Rightarrow> bool \<Rightarrow> 'b list) option \<Rightarrow> bool \<Rightarrow> nat \<Rightarrow> ('b, 'r) HASH \<times> bool" where
  "hash_init mem hash srt cmp off len gk fr flgs =
     (let h = hash\<lparr>records := 0\<rparr> in
      if \<not> mem then (h\<lparr>free := False\<rparr>, True)
      else (h\<lparr>array := [], key_offset := off, key_length := len, blength := 1,
              current_record := NO_RECORD, get_key := gk, free := fr, flags := flgs,
              hash_sort := srt, strnncoll := cmp\<rparr>, False))"

definition hash_free_elements :: "('b, 'r) HASH \<Rightarrow> ('b, 'r) HASH" where
  "hash_free_elements hash =
     hash\<lparr>freed := freed hash @ (if free hash then map dat (take (records hash) (array hash)) else []),
          records := 0\<rparr>"

definition hash_free :: "('b, 'r) HASH \<Rightarrow> ('b, 'r) HASH" where
  "hash_free hash = (hash_free_elements hash)\<lparr>free := False, array := []\<rparr>"

definition my_hash_reset :: "('b, 'r) HASH \<Rightarrow> ('b, 'r) HASH" where
  "my_hash_reset hash =
     (hash_free_elements hash)\<lparr>array := [], blength := 1, current_record := NO_RECORD\<rparr>"

definition hash_key :: "('b, 'r) HASH \<Rightarrow> 'r \<Rightarrow> bool \<Rightarrow> 'b list" where
  "hash_key hash record first =
     (case get_key hash of
        Some f \<Rightarrow> f record first
      | None \<Rightarrow> take (key_length hash) (drop (key_offset hash) (bytes hash record)))"

definition hash_mask :: "nat \<Rightarrow> nat \<Rightarrow> nat \<Rightarrow> nat" where
  "hash_mask hashnr buffmax maxlength =
     (if hashnr AND u32_sub buffmax 1 < maxlength then hashnr AND u32_sub buffmax 1
      else hashnr AND u32_sub (drop_bit 1 buffmax) 1)"

definition rec_hashnr :: "('b, 'r) HASH \<Rightarrow> 'r \<Rightarrow> nat" where
  "rec_hashnr hash record = calc_hash hash (hash_key hash record False)"

definition hash_rec_mask :: "('b, 'r) HASH \<Rightarrow> 'r HASH_LINK \<Rightarrow> nat \<Rightarrow> nat \<Rightarrow> nat" where
  "hash_rec_mask hash pos buffmax maxlength =
     hash_mask (calc_hash hash (hash_key hash (dat pos) False)) buffmax maxlength"

text \<open>True when the key of the record differs from the key given.\<close>

definition hashcmp :: "('b, 'r) HASH \<Rightarrow> 'r HASH_LINK \<Rightarrow> 'b list \<Rightarrow> nat \<Rightarrow> bool" where
  "hashcmp hash pos key len =
     (let rec_key = hash_key hash (dat pos) True in
      (len \<noteq> 0 \<and> len \<noteq> length rec_key) \<or>
      strnncoll hash rec_key (take (length rec_key) key) \<noteq> 0)"

section \<open>Search\<close>

text \<open>The loop returns the index found; \<open>Some None\<close> is the exit without a match.\<close>

partial_function (option) hash_search_loop ::
  "('b, 'r) HASH \<Rightarrow> 'b list \<Rightarrow> nat \<Rightarrow> bool \<Rightarrow> nat \<Rightarrow> nat option option" where
  "hash_search_loop hash key len flag idx =
     do {
       pos \<leftarrow> rd (array hash) idx;
       if \<not> hashcmp hash pos key len then Some (Some idx)
       else if flag \<and> hash_rec_mask hash pos (blength hash) (records hash) \<noteq> idx then Some None
       else if next_link pos = NO_RECORD then Some None
       else hash_search_loop hash key len False (next_link pos)
     }"

definition hash_search ::
  "('b, 'r) HASH \<Rightarrow> 'b list \<Rightarrow> nat \<Rightarrow> (('b, 'r) HASH \<times> 'r option) option" where
  "hash_search hash key len =
     (if records hash \<noteq> 0 then do {
        f \<leftarrow> hash_search_loop hash key len True
               (hash_mask (calc_hash hash (take (if len \<noteq> 0 then len else key_length hash) key))
                  (blength hash) (records hash));
        case f of
          None \<Rightarrow> Some (hash\<lparr>current_record := NO_RECORD\<rparr>, None)
        | Some idx \<Rightarrow> do {
            pos \<leftarrow> rd (array hash) idx;
            Some (hash\<lparr>current_record := idx\<rparr>, Some (dat pos))
          }
      }
      else Some (hash\<lparr>current_record := NO_RECORD\<rparr>, None))"

partial_function (option) hash_next_loop ::
  "('b, 'r) HASH \<Rightarrow> 'b list \<Rightarrow> nat \<Rightarrow> nat \<Rightarrow> nat option option" where
  "hash_next_loop hash key len idx =
     (if idx = NO_RECORD then Some None
      else do {
        pos \<leftarrow> rd (array hash) idx;
        if \<not> hashcmp hash pos key len then Some (Some idx)
        else hash_next_loop hash key len (next_link pos)
      })"

definition hash_next ::
  "('b, 'r) HASH \<Rightarrow> 'b list \<Rightarrow> nat \<Rightarrow> (('b, 'r) HASH \<times> 'r option) option" where
  "hash_next hash key len =
     (if current_record hash \<noteq> NO_RECORD then do {
        cur \<leftarrow> rd (array hash) (current_record hash);
        f \<leftarrow> hash_next_loop hash key len (next_link cur);
        case f of
          None \<Rightarrow> Some (hash\<lparr>current_record := NO_RECORD\<rparr>, None)
        | Some idx \<Rightarrow> do {
            pos \<leftarrow> rd (array hash) idx;
            Some (hash\<lparr>current_record := idx\<rparr>, Some (dat pos))
          }
      }
      else Some (hash, None))"

section \<open>Insertion\<close>

text \<open>Following a chain to the link that leads to \<open>fnd\<close>.\<close>

partial_function (option) movelink_loop :: "'r HASH_LINK list \<Rightarrow> nat \<Rightarrow> nat \<Rightarrow> nat option" where
  "movelink_loop d fnd nx =
     do {
       old_link \<leftarrow> rd d nx;
       if next_link old_link \<noteq> fnd then movelink_loop d fnd (next_link old_link) else Some nx
     }"

definition movelink ::
  "'r HASH_LINK list \<Rightarrow> nat \<Rightarrow> nat \<Rightarrow> nat \<Rightarrow> 'r HASH_LINK list option" where
  "movelink d fnd nx newlink =
     do {
       i \<leftarrow> movelink_loop d fnd nx;
       old_link \<leftarrow> rd d i;
       wr d i (HASH_LINK newlink (dat old_link))
     }"

abbreviation (input) LOWFIND :: nat where "LOWFIND \<equiv> 1"
abbreviation (input) LOWUSED :: nat where "LOWUSED \<equiv> 2"
abbreviation (input) HIGHFIND :: nat where "HIGHFIND \<equiv> 4"
abbreviation (input) HIGHUSED :: nat where "HIGHUSED \<equiv> 8"

text \<open>The local variables of \<open>my_hash_insert\<close> during the split of a chain; \<open>gpos\<close>, \<open>gpos2\<close> and
  \<open>empty\<close> are indices into the array \<open>links\<close>.\<close>

record 'r split =
  flag :: nat
  gpos :: nat
  ptr_to_rec :: "'r option"
  gpos2 :: nat
  ptr_to_rec2 :: "'r option"
  empty :: nat
  links :: "'r HASH_LINK list"

text \<open>Writing the link at \<open>gpos\<close> (or \<open>gpos2\<close>): its record is the one saved.\<close>

definition put_link :: "'r HASH_LINK list \<Rightarrow> nat \<Rightarrow> 'r option \<Rightarrow> nat \<Rightarrow> 'r HASH_LINK list option" where
  "put_link d g r nx = (case r of None \<Rightarrow> None | Some r' \<Rightarrow> wr d g (HASH_LINK nx r'))"

text \<open>The body of the loop for a key that stays, and for one that moves to the new position.\<close>

definition split_low :: "nat \<Rightarrow> 'r HASH_LINK \<Rightarrow> 'r split \<Rightarrow> 'r split option" where
  "split_low idx pos s =
     (if flag s AND LOWFIND = 0 then
        (if flag s AND HIGHFIND \<noteq> 0 then
           Some (s\<lparr>flag := LOWFIND OR HIGHFIND, gpos := empty s, ptr_to_rec := Some (dat pos),
                   empty := idx\<rparr>)
         else
           Some (s\<lparr>flag := LOWFIND OR LOWUSED, gpos := idx, ptr_to_rec := Some (dat pos)\<rparr>))
      else do {
        s1 \<leftarrow> (if flag s AND LOWUSED = 0 then do {
                 d \<leftarrow> put_link (links s) (gpos s) (ptr_to_rec s) idx;
                 Some (s\<lparr>links := d, flag := (flag s AND HIGHFIND) OR (LOWFIND OR LOWUSED)\<rparr>)
               } else Some s);
        Some (s1\<lparr>gpos := idx, ptr_to_rec := Some (dat pos)\<rparr>)
      })"

definition split_high :: "nat \<Rightarrow> 'r HASH_LINK \<Rightarrow> 'r split \<Rightarrow> 'r split option" where
  "split_high idx pos s =
     (if flag s AND HIGHFIND = 0 then
        Some (s\<lparr>flag := (flag s AND LOWFIND) OR HIGHFIND, gpos2 := empty s, empty := idx,
                ptr_to_rec2 := Some (dat pos)\<rparr>)
      else do {
        s1 \<leftarrow> (if flag s AND HIGHUSED = 0 then do {
                 d \<leftarrow> put_link (links s) (gpos2 s) (ptr_to_rec2 s) idx;
                 Some (s\<lparr>links := d, flag := (flag s AND LOWFIND) OR (HIGHFIND OR HIGHUSED)\<rparr>)
               } else Some s);
        Some (s1\<lparr>gpos2 := idx, ptr_to_rec2 := Some (dat pos)\<rparr>)
      })"

partial_function (option) split_loop ::
  "('b, 'r) HASH \<Rightarrow> nat \<Rightarrow> nat \<Rightarrow> 'r split \<Rightarrow> nat \<Rightarrow> 'r split option" where
  "split_loop info halfbuff first_index s idx =
     do {
       pos \<leftarrow> rd (links s) idx;
       let hash_nr = rec_hashnr info (dat pos);
       if flag s = 0 \<and> hash_mask hash_nr (blength info) (records info) \<noteq> first_index then Some s
       else do {
         s1 \<leftarrow> (if hash_nr AND halfbuff = 0 then split_low idx pos s else split_high idx pos s);
         pos1 \<leftarrow> rd (links s1) idx;
         if next_link pos1 \<noteq> NO_RECORD
         then split_loop info halfbuff first_index s1 (next_link pos1)
         else Some s1
       }
     }"

text \<open>The links that are still to be written when the loop is over.\<close>

definition split_finish :: "'r split \<Rightarrow> 'r split option" where
  "split_finish s =
     do {
       d \<leftarrow> (if flag s AND (LOWFIND OR LOWUSED) = LOWFIND
             then put_link (links s) (gpos s) (ptr_to_rec s) NO_RECORD else Some (links s));
       d \<leftarrow> (if flag s AND (HIGHFIND OR HIGHUSED) = HIGHFIND
             then put_link d (gpos2 s) (ptr_to_rec2 s) NO_RECORD else Some d);
       Some (s\<lparr>links := d\<rparr>)
     }"

text \<open>The whole split: the last cell of the array is the free one.\<close>

definition split_chain :: "('b, 'r) HASH \<Rightarrow> 'r split option" where
  "split_chain info =
     (let halfbuff = drop_bit 1 (blength info);
          first_index = u32_sub (records info) halfbuff;
          s0 = \<lparr>flag = 0, gpos = NO_RECORD, ptr_to_rec = None, gpos2 = NO_RECORD,
                ptr_to_rec2 = None, empty = length (array info) - 1, links = array info\<rparr>
      in if first_index \<noteq> records info
         then Option.bind (split_loop info halfbuff first_index s0 first_index) split_finish
         else Some s0)"

text \<open>The new record enters at its place \<open>idx\<close>; \<open>empty\<close> is the free place.\<close>

definition enter_record ::
  "('b, 'r) HASH \<Rightarrow> 'r HASH_LINK list \<Rightarrow> nat \<Rightarrow> 'r \<Rightarrow> 'r HASH_LINK list option" where
  "enter_record info d e record =
     (let idx = hash_mask (rec_hashnr info record) (blength info) (u32_add (records info) 1) in
      if idx = e then wr d idx (HASH_LINK NO_RECORD record)
      else do {
        pos \<leftarrow> rd d idx;
        d \<leftarrow> wr d e pos;
        let g = hash_rec_mask info pos (blength info) (u32_add (records info) 1);
        if idx = g then wr d idx (HASH_LINK e record)
        else do {
          d \<leftarrow> wr d idx (HASH_LINK NO_RECORD record);
          movelink d idx g e
        }
      })"

text \<open>\<open>mem\<close> says whether the array could grow, \<open>junk\<close> is what the new cell holds.\<close>

definition my_hash_insert ::
  "bool \<Rightarrow> 'r HASH_LINK \<Rightarrow> ('b, 'r) HASH \<Rightarrow> 'r \<Rightarrow> (('b, 'r) HASH \<times> bool) option" where
  "my_hash_insert mem junk info record =
     (if \<not> mem then Some (info, True)
      else
        let info = info\<lparr>array := array info @ [junk], current_record := NO_RECORD\<rparr>
        in do {
          s \<leftarrow> split_chain info;
          d \<leftarrow> enter_record info (links s) (empty s) record;
          let n = u32_add (records info) 1;
          Some (info\<lparr>array := d, records := n,
                     blength := (if n = blength info then u32_add (blength info) (blength info)
                                 else blength info)\<rparr>, False)
        })"

section \<open>Deletion\<close>

text \<open>The search for the record pointer; \<open>Some None\<close> is ``key not found''.\<close>

partial_function (option) hash_delete_loop ::
  "'r HASH_LINK list \<Rightarrow> 'r \<Rightarrow> nat option \<Rightarrow> nat \<Rightarrow> (nat option \<times> nat) option option" where
  "hash_delete_loop d record g p =
     do {
       pos \<leftarrow> rd d p;
       if dat pos = record then Some (Some (g, p))
       else if next_link pos = NO_RECORD then Some None
       else hash_delete_loop d record (Some p) (next_link pos)
     }"

text \<open>Removing the link to the record at \<open>p\<close> with predecessor \<open>g\<close>; the result is the array and
  the place that is now empty.\<close>

definition hash_unlink ::
  "'r HASH_LINK list \<Rightarrow> nat option \<Rightarrow> nat \<Rightarrow> ('r HASH_LINK list \<times> nat) option" where
  "hash_unlink d g p =
     do {
       pos \<leftarrow> rd d p;
       case g of
         Some g' \<Rightarrow> do {
           gp \<leftarrow> rd d g';
           d \<leftarrow> wr d g' (HASH_LINK (next_link pos) (dat gp));
           Some (d, p)
         }
       | None \<Rightarrow>
           if next_link pos \<noteq> NO_RECORD then do {
             e \<leftarrow> rd d (next_link pos);
             d \<leftarrow> wr d p e;
             Some (d, next_link pos)
           }
           else Some (d, p)
     }"

text \<open>Moving the last link, at \<open>records hash\<close>, away; \<open>blen\<close> is the \<open>blength\<close> before deletion.\<close>

definition move_last ::
  "('b, 'r) HASH \<Rightarrow> nat \<Rightarrow> 'r HASH_LINK list \<Rightarrow> nat \<Rightarrow> 'r HASH_LINK list option" where
  "move_last hash blen d e =
     (let last = records hash in
      if e = last then Some d
      else do {
        lastpos \<leftarrow> rd d last;
        let lastpos_hashnr = rec_hashnr hash (dat lastpos);
        let p = hash_mask lastpos_hashnr (blength hash) (records hash);
        if p = e then wr d e lastpos
        else do {
          pos \<leftarrow> rd d p;
          let pos_hashnr = rec_hashnr hash (dat pos);
          let p3 = hash_mask pos_hashnr (blength hash) (records hash);
          if p \<noteq> p3 then do {
            d \<leftarrow> wr d e pos;
            d \<leftarrow> wr d p lastpos;
            movelink d p p3 e
          }
          else do {
            let pos2 = hash_mask lastpos_hashnr blen (u32_add (records hash) 1);
            let same = (pos2 = hash_mask pos_hashnr blen (u32_add (records hash) 1));
            if same \<and> pos2 \<noteq> records hash then do {
              d \<leftarrow> wr d e lastpos;
              movelink d last p e
            }
            else do {
              let idx = (if same then p else NO_RECORD);
              d \<leftarrow> wr d e lastpos;
              pos \<leftarrow> rd d p;
              d \<leftarrow> movelink d idx e (next_link pos);
              pos \<leftarrow> rd d p;
              wr d p (HASH_LINK e (dat pos))
            }
          }
        }
      })"

definition hash_delete :: "('b, 'r) HASH \<Rightarrow> 'r \<Rightarrow> (('b, 'r) HASH \<times> bool) option" where
  "hash_delete hash record =
     (if records hash = 0 then Some (hash, True)
      else do {
        let blen = blength hash;
        f \<leftarrow> hash_delete_loop (array hash) record None
               (hash_mask (rec_hashnr hash record) blen (records hash));
        case f of
          None \<Rightarrow> Some (hash, True)
        | Some (g, p) \<Rightarrow> do {
            let n = records hash - 1;
            let hash = hash\<lparr>records := n,
              blength := (if n < drop_bit 1 blen then drop_bit 1 blen else blen),
              current_record := NO_RECORD\<rparr>;
            (d, e) \<leftarrow> hash_unlink (array hash) g p;
            d \<leftarrow> move_last hash blen d e;
            Some (hash\<lparr>array := butlast d,
                       freed := freed hash @ (if free hash then [record] else [])\<rparr>, False)
          }
      })"

section \<open>Update, access by index and the self-check\<close>

partial_function (option) hash_update_loop ::
  "'r HASH_LINK list \<Rightarrow> 'r \<Rightarrow> nat option \<Rightarrow> nat \<Rightarrow> (nat option \<times> nat) option option" where
  "hash_update_loop d record previous idx =
     do {
       pos \<leftarrow> rd d idx;
       if dat pos = record then Some (Some (previous, idx))
       else if next_link pos = NO_RECORD then Some None
       else hash_update_loop d record (Some idx) (next_link pos)
     }"

text \<open>\<open>old_key\<close> is the memory at the old key; the record already has its new key.\<close>

definition hash_update ::
  "('b, 'r) HASH \<Rightarrow> 'r \<Rightarrow> 'b list \<Rightarrow> nat \<Rightarrow> (('b, 'r) HASH \<times> bool) option" where
  "hash_update hash record old_key old_key_length =
     (let d = array hash; blen = blength hash; n = records hash;
          idx = hash_mask (calc_hash hash
            (take (if old_key_length \<noteq> 0 then old_key_length else key_length hash) old_key)) blen n;
          new_index = hash_mask (rec_hashnr hash record) blen n
      in if idx = new_index then Some (hash, False)
      else do {
        f \<leftarrow> hash_update_loop d record None idx;
        case f of
          None \<Rightarrow> Some (hash, True)
        | Some (previous, p) \<Rightarrow> do {
            org_link \<leftarrow> rd d p;
            (d, e) \<leftarrow> hash_unlink d previous p;
            pos \<leftarrow> rd d new_index;
            let new_pos_index = hash_rec_mask hash pos blen n;
            if new_index \<noteq> new_pos_index then do {
              d \<leftarrow> wr d e pos;
              d \<leftarrow> movelink d new_index new_pos_index e;
              d \<leftarrow> wr d new_index (HASH_LINK NO_RECORD (dat org_link));
              Some (hash\<lparr>array := d, current_record := NO_RECORD\<rparr>, False)
            }
            else do {
              d \<leftarrow> wr d e (HASH_LINK (next_link pos) (dat org_link));
              pos \<leftarrow> rd d new_index;
              d \<leftarrow> wr d new_index (HASH_LINK e (dat pos));
              Some (hash\<lparr>array := d, current_record := NO_RECORD\<rparr>, False)
            }
          }
      })"

definition hash_element :: "('b, 'r) HASH \<Rightarrow> nat \<Rightarrow> 'r option option" where
  "hash_element hash idx =
     (if idx < records hash then map_option (\<lambda>l. Some (dat l)) (rd (array hash) idx) else Some None)"

definition hash_replace :: "('b, 'r) HASH \<Rightarrow> nat \<Rightarrow> 'r \<Rightarrow> ('b, 'r) HASH option" where
  "hash_replace hash idx new_row =
     (if idx \<noteq> NO_RECORD then do {
        l \<leftarrow> rd (array hash) idx;
        d \<leftarrow> wr (array hash) idx (HASH_LINK (next_link l) new_row);
        Some (hash\<lparr>array := d\<rparr>)
      } else Some hash)"

text \<open>The check of one chain: \<open>found\<close> and \<open>error\<close> as the C variables; the statistics, which are
  only printed, are left out.\<close>

partial_function (option) hash_check_chain ::
  "('b, 'r) HASH \<Rightarrow> nat \<Rightarrow> nat \<Rightarrow> nat \<Rightarrow> bool \<Rightarrow> (nat \<times> bool) option" where
  "hash_check_chain hash i idx found error =
     (if idx \<noteq> NO_RECORD \<and> found < records hash + 1 then do {
        l \<leftarrow> rd (array hash) idx;
        let error = (error \<or> idx \<ge> records hash);
        if hash_rec_mask hash l (blength hash) (records hash) \<noteq> i
        then hash_check_chain hash i (next_link l) found True
        else hash_check_chain hash i (next_link l) (found + 1) error
      } else Some (found, error))"

fun hash_check_loop :: "('b, 'r) HASH \<Rightarrow> nat list \<Rightarrow> nat \<Rightarrow> bool \<Rightarrow> (nat \<times> bool) option" where
  "hash_check_loop hash [] found error = Some (found, error)"
| "hash_check_loop hash (i # is) found error =
     do {
       l \<leftarrow> rd (array hash) i;
       if hash_rec_mask hash l (blength hash) (records hash) = i
       then do {
         (found, error) \<leftarrow> hash_check_chain hash i (next_link l) (found + 1) error;
         hash_check_loop hash is found error
       }
       else hash_check_loop hash is found error
     }"

definition hash_check :: "('b, 'r) HASH \<Rightarrow> bool option" where
  "hash_check hash =
     do {
       (found, error) \<leftarrow> hash_check_loop hash [0..<records hash] 0 False;
       Some (error \<or> found \<noteq> records hash)
     }"

end
