(* ===== verification/Hash_Chains.thy ===== *)
theory Hash_Chains
  imports Hash
begin

text \<open>
  The chains of a hash table and what the elementary changes of links do to them.

  \<open>chained d U home\<close> says that in the array \<open>d\<close>, of which the places \<open>U\<close> are in use, every
  record can be reached from its home place: the records with home \<open>j\<close> form one chain, which
  starts at \<open>j\<close> itself.  The set \<open>U\<close> is needed for the intermediate states of insertion and
  deletion, where one place is free.
\<close>

section \<open>Paths\<close>

fun path :: "'r HASH_LINK list \<Rightarrow> nat \<Rightarrow> nat list \<Rightarrow> nat \<Rightarrow> bool" where
  "path d i [] j \<longleftrightarrow> i = j"
| "path d i (x # xs) j \<longleftrightarrow> i = x \<and> x < length d \<and> x \<noteq> NO_RECORD \<and> path d (next_link (d ! x)) xs j"

lemma path_append: "path d i (xs @ ys) j \<longleftrightarrow> (\<exists>k. path d i xs k \<and> path d k ys j)"
  by (induction xs arbitrary: i) auto

lemma path_cong:
  "\<forall>x\<in>set xs. d ! x = d' ! x \<Longrightarrow> length d = length d' \<Longrightarrow> path d i xs j = path d' i xs j"
  by (induction xs arbitrary: i) auto

lemma path_agree:
  "path d i xs j \<Longrightarrow> set xs \<subseteq> S \<Longrightarrow> \<forall>i\<in>S. d' ! i = d ! i \<Longrightarrow> length d' = length d \<Longrightarrow> path d' i xs j"
  by (subst path_cong [of xs d' d]) auto

lemma path_transfer:
  "path d i xs j \<Longrightarrow> \<forall>x\<in>set xs. d' ! x = d ! x \<and> x < length d' \<Longrightarrow> path d' i xs j"
  by (induction xs arbitrary: i) auto

lemma path_upd [simp]: "k \<notin> set xs \<Longrightarrow> path (d[k := v]) i xs j = path d i xs j"
  by (rule path_cong) (auto, metis nth_list_update_neq)

lemma path_bound: "path d i xs j \<Longrightarrow> x \<in> set xs \<Longrightarrow> x < length d \<and> x \<noteq> NO_RECORD"
  by (induction xs arbitrary: i) auto

lemma path_hd: "path d i xs j \<Longrightarrow> i = (if xs = [] then j else hd xs)"
  by (cases xs) auto

lemma path_split: "path d i (us @ p # vs) j \<Longrightarrow> path d i us p \<and> path d p (p # vs) j"
  by (auto simp: path_append)

lemma chain_det: "path d i xs NO_RECORD \<Longrightarrow> path d i ys NO_RECORD \<Longrightarrow> xs = ys"
proof (induction xs arbitrary: i ys)
  case Nil
  then show ?case by (cases ys) auto
next
  case (Cons x xs)
  then show ?case by (cases ys) auto
qed

lemma chain_distinct: "path d i xs NO_RECORD \<Longrightarrow> distinct xs"
proof (induction xs arbitrary: i)
  case (Cons x xs)
  have "x \<notin> set xs"
  proof
    assume "x \<in> set xs"
    then obtain us vs where "xs = us @ x # vs" by (meson split_list)
    then have "path d x (x # us @ x # vs) NO_RECORD" "path d x (x # vs) NO_RECORD"
      using Cons.prems path_split [of d i "x # us" x vs] by auto
    from chain_det [OF this] have "length (us @ x # vs) = length vs" by simp
    then show False by simp
  qed
  then show ?case using Cons by auto
qed simp

lemma movelink_loop_path:
  "path d i xs f \<Longrightarrow> xs \<noteq> [] \<Longrightarrow> f \<notin> set xs \<Longrightarrow> movelink_loop d f i = Some (last xs)"
proof (induction xs arbitrary: i)
  case (Cons x xs)
  show ?case
  proof (cases xs)
    case Nil
    then show ?thesis using Cons.prems by (subst movelink_loop.simps) simp
  next
    case (Cons y ys)
    then have "next_link (d ! x) \<noteq> f" "i = x" "x < length d" using Cons.prems by auto
    then show ?thesis using Cons.IH [of "next_link (d ! x)"] Cons.prems Cons
      by (subst movelink_loop.simps) auto
  qed
qed simp

lemma movelink_path:
  assumes "path d i xs f" "xs \<noteq> []" "f \<notin> set xs"
  shows "movelink d f i new = Some (d[last xs := HASH_LINK new (dat (d ! last xs))])"
  using movelink_loop_path [OF assms] path_bound [OF assms(1), of "last xs"] assms(2)
  by (simp add: movelink_def)

lemma path_relink:
  assumes "path d i xs f" "xs \<noteq> []" "distinct xs"
  shows "path (d[last xs := HASH_LINK new r]) i xs new"
proof -
  obtain us a where xs: "xs = us @ [a]" using assms(2) by (metis append_butlast_last_id)
  then show ?thesis using assms by (auto simp: path_append)
qed

section \<open>Tables with one chain per home\<close>

definition chained :: "'r HASH_LINK list \<Rightarrow> nat set \<Rightarrow> ('r \<Rightarrow> nat) \<Rightarrow> bool" where
  "chained d U home \<longleftrightarrow> U \<subseteq> {..<length d} \<and> length d \<le> NO_RECORD \<and>
     (\<forall>j. \<exists>xs. path d (if xs = [] then NO_RECORD else j) xs NO_RECORD \<and>
        set xs = {i \<in> U. home (dat (d ! i)) = j})"

definition content :: "'r HASH_LINK list \<Rightarrow> nat set \<Rightarrow> 'r multiset" where
  "content d U = image_mset (\<lambda>i. dat (d ! i)) (mset_set U)"

lemma chainedI:
  assumes "U \<subseteq> {..<length d}" "length d \<le> NO_RECORD"
    "\<And>j. \<exists>xs. path d (if xs = [] then NO_RECORD else j) xs NO_RECORD \<and>
        set xs = {i \<in> U. home (dat (d ! i)) = j}"
  shows "chained d U home"
  using assms by (auto simp: chained_def)

lemma chained_chain:
  assumes "chained d U home"
  obtains xs where "path d (if xs = [] then NO_RECORD else j) xs NO_RECORD"
    "set xs = {i \<in> U. home (dat (d ! i)) = j}"
  using assms unfolding chained_def by meson

lemma chained_finite: "chained d U home \<Longrightarrow> finite U"
  unfolding chained_def using finite_subset by blast

text \<open>The chain of a home that is in use.\<close>

lemma chained_at:
  assumes "chained d U home" "p \<in> U"
  obtains xs where "path d (home (dat (d ! p))) xs NO_RECORD" "xs \<noteq> []" "hd xs = home (dat (d ! p))"
    "p \<in> set xs" "set xs = {i \<in> U. home (dat (d ! i)) = home (dat (d ! p))}"
proof -
  obtain xs where xs: "path d (if xs = [] then NO_RECORD else home (dat (d ! p))) xs NO_RECORD"
    "set xs = {i \<in> U. home (dat (d ! i)) = home (dat (d ! p))}"
    using chained_chain [OF assms(1)] by blast
  moreover have "p \<in> set xs" using xs(2) assms(2) by auto
  ultimately show ?thesis
    by (intro that [of xs]) (auto dest: path_hd split: if_splits)
qed

lemma chained_home_used:
  assumes "chained d U home" "p \<in> U"
  shows "home (dat (d ! p)) \<in> U" "home (dat (d ! home (dat (d ! p)))) = home (dat (d ! p))"
proof -
  obtain xs where "xs \<noteq> []" "hd xs = home (dat (d ! p))"
    "set xs = {i \<in> U. home (dat (d ! i)) = home (dat (d ! p))}"
    using chained_at [OF assms] by blast
  then have "home (dat (d ! p)) \<in> {i \<in> U. home (dat (d ! i)) = home (dat (d ! p))}"
    by (metis list.set_sel(1))
  then show "home (dat (d ! p)) \<in> U" "home (dat (d ! home (dat (d ! p)))) = home (dat (d ! p))" by auto
qed

lemma chained_cong:
  assumes "chained d U home" "\<forall>i\<in>U. d ! i = d' ! i" "length d = length d'"
  shows "chained d' U home"
proof (rule chainedI)
  fix j
  obtain xs where xs: "path d (if xs = [] then NO_RECORD else j) xs NO_RECORD"
    "set xs = {i \<in> U. home (dat (d ! i)) = j}" using chained_chain [OF assms(1)] by blast
  then have "path d' (if xs = [] then NO_RECORD else j) xs NO_RECORD"
    using path_cong [of xs d d'] assms by auto
  then show "\<exists>xs. path d' (if xs = [] then NO_RECORD else j) xs NO_RECORD \<and>
        set xs = {i \<in> U. home (dat (d' ! i)) = j}"
    using xs(2) assms(2) by (intro exI [of _ xs]) auto
qed (use assms in \<open>auto simp: chained_def\<close>)

lemma chained_transfer:
  assumes c: "chained d U home" and d': "\<And>i. i \<in> U \<Longrightarrow> d' ! i = d ! i \<and> i < length d'" "length d' \<le> NO_RECORD"
  shows "chained d' U home"
proof (rule chainedI)
  fix j
  obtain xs where xs: "path d (if xs = [] then NO_RECORD else j) xs NO_RECORD"
    "set xs = {i \<in> U. home (dat (d ! i)) = j}" by (rule chained_chain [OF c])
  have "path d' (if xs = [] then NO_RECORD else j) xs NO_RECORD"
    by (rule path_transfer [OF xs(1)]) (use xs(2) d'(1) in blast)
  moreover have "{i \<in> U. home (dat (d ! i)) = j} = {i \<in> U. home (dat (d' ! i)) = j}" using d'(1) by auto
  ultimately show "\<exists>xs. path d' (if xs = [] then NO_RECORD else j) xs NO_RECORD \<and>
      set xs = {i \<in> U. home (dat (d' ! i)) = j}" using xs(2) by metis
qed (use d' in auto)

lemma chained_home_cong:
  assumes "chained d U h" "\<And>i. i \<in> U \<Longrightarrow> h' (dat (d ! i)) = h (dat (d ! i))"
  shows "chained d U h'"
proof -
  have "{i \<in> U. h' (dat (d ! i)) = j} = {i \<in> U. h (dat (d ! i)) = j}" for j using assms(2) by auto
  then show ?thesis using assms(1) unfolding chained_def by presburger
qed

lemma content_cong: "\<forall>i\<in>U. dat (d ! i) = dat (d' ! i) \<Longrightarrow> content d U = content d' U"
  unfolding content_def by (cases "finite U") (auto intro!: image_mset_cong)

lemma content_insert:
  "finite U \<Longrightarrow> e \<notin> U \<Longrightarrow> content d (insert e U) = add_mset (dat (d ! e)) (content d U)"
  by (simp add: content_def)

lemma content_remove:
  "finite U \<Longrightarrow> p \<in> U \<Longrightarrow> content d U = add_mset (dat (d ! p)) (content d (U - {p}))"
  using content_insert [of "U - {p}" p d] by (simp add: insert_absorb)

lemma content_list: "distinct xs \<Longrightarrow> content d (set xs) = mset (map (\<lambda>i. dat (d ! i)) xs)"
  by (simp add: content_def mset_set_set)

lemma content_union:
  "finite A \<Longrightarrow> finite B \<Longrightarrow> A \<inter> B = {} \<Longrightarrow> content d (A \<union> B) = content d A + content d B"
  by (simp add: content_def mset_set_Union)

section \<open>Elementary changes\<close>

lemma upd_agree: "e \<notin> U \<Longrightarrow> \<forall>i\<in>U. d ! i = d[e := v] ! i"
  by (metis nth_list_update_neq)

lemma content_upd [simp]: "e \<notin> U \<Longrightarrow> content (d[e := v]) U = content d U"
  using upd_agree [of e U d v] by (intro content_cong) simp

lemma chained_upd: "chained d U home \<Longrightarrow> e \<notin> U \<Longrightarrow> chained (d[e := v]) U home"
  using chained_cong [OF _ upd_agree] by (metis length_list_update)

text \<open>A record enters its own, free place.\<close>

lemma put_fresh:
  assumes c: "chained d U home" and "e \<notin> U" "e < length d" "d ! e = HASH_LINK NO_RECORD r" "home r = e"
  shows "chained d (insert e U) home" "content d (insert e U) = add_mset r (content d U)"
proof -
  show "chained d (insert e U) home"
  proof (rule chainedI)
    fix j
    obtain xs where xs: "path d (if xs = [] then NO_RECORD else j) xs NO_RECORD"
      "set xs = {i \<in> U. home (dat (d ! i)) = j}" using chained_chain [OF c] by blast
    show "\<exists>xs. path d (if xs = [] then NO_RECORD else j) xs NO_RECORD \<and>
        set xs = {i \<in> insert e U. home (dat (d ! i)) = j}"
    proof (cases "j = e")
      case True
      have "\<not> (\<exists>i\<in>U. home (dat (d ! i)) = e)" using chained_home_used [OF c] assms(2) by blast
      then have "{i \<in> insert e U. home (dat (d ! i)) = j} = {e}" using True assms by auto
      moreover have "e \<noteq> NO_RECORD" using assms(3) c by (auto simp: chained_def)
      ultimately show ?thesis using True assms by (intro exI [of _ "[e]"]) auto
    next
      case False
      then have "{i \<in> insert e U. home (dat (d ! i)) = j} = {i \<in> U. home (dat (d ! i)) = j}"
        using assms(4,5) by auto
      then show ?thesis using xs by metis
    qed
  qed (use assms in \<open>auto simp: chained_def\<close>)
  show "content d (insert e U) = add_mset r (content d U)"
    using content_insert [OF chained_finite [OF c] assms(2), of d] assms(4) by simp
qed

text \<open>A record enters its place \<open>p\<close> in front of its chain; the former head moves to \<open>e\<close>.\<close>

lemma push_front:
  assumes c: "chained d U home" and p: "p \<in> U" "home (dat (d ! p)) = p" and r: "home r = p"
    and e: "e \<notin> U" "e < length d"
  defines "d' \<equiv> d[e := d ! p, p := HASH_LINK e r]"
  shows "chained d' (insert e U) home" "content d' (insert e U) = add_mset r (content d U)"
proof -
  have ne: "p \<noteq> e" "p < length d" "e \<noteq> NO_RECORD" "p \<noteq> NO_RECORD" using c p e by (auto simp: chained_def)
  have d': "d' ! e = d ! p" "d' ! p = HASH_LINK e r" "\<And>i. i \<noteq> e \<Longrightarrow> i \<noteq> p \<Longrightarrow> d' ! i = d ! i" "length d' = length d"
    using ne e by (auto simp: d'_def)
  have key: "home (dat (d' ! i)) = (if i = e then p else home (dat (d ! i)))" for i
    using d' p r by (cases "i = e"; cases "i = p") auto
  show "chained d' (insert e U) home"
  proof (rule chainedI)
    fix j
    show "\<exists>xs. path d' (if xs = [] then NO_RECORD else j) xs NO_RECORD \<and>
        set xs = {i \<in> insert e U. home (dat (d' ! i)) = j}"
    proof (cases "j = p")
      case True
      obtain xs where xs: "path d p xs NO_RECORD" "xs \<noteq> []" "set xs = {i \<in> U. home (dat (d ! i)) = p}"
        using chained_at [OF c p(1)] unfolding p(2) by blast
      then obtain ys where ys: "xs = p # ys" by (cases xs) auto
      have "p \<notin> set ys" "e \<notin> set ys" using chain_distinct [OF xs(1)] ys xs(3) e by auto
      then have "path d' (next_link (d ! p)) ys NO_RECORD" using xs(1) ys by (simp add: d'_def)
      moreover have "set (p # e # ys) = {i \<in> insert e U. home (dat (d' ! i)) = p}"
        using xs(3) ys by (auto simp: key)
      ultimately show ?thesis using True d' ne e by (intro exI [of _ "p # e # ys"]) auto
    next
      case False
      obtain xs where xs: "path d (if xs = [] then NO_RECORD else j) xs NO_RECORD"
        "set xs = {i \<in> U. home (dat (d ! i)) = j}" using chained_chain [OF c] by blast
      then have "p \<notin> set xs" "e \<notin> set xs" using False p e by auto
      then have "path d' (if xs = [] then NO_RECORD else j) xs NO_RECORD" using xs(1) by (simp add: d'_def)
      moreover have "set xs = {i \<in> insert e U. home (dat (d' ! i)) = j}"
        using xs(2) False e by (auto simp: key)
      ultimately show ?thesis by blast
    qed
  qed (use c e d' in \<open>auto simp: chained_def\<close>)
  have "content d' (insert e U) = add_mset (dat (d ! p)) (add_mset r (content d' (U - {p})))"
    using content_insert [OF chained_finite [OF c] e(1), of d'] content_remove [OF chained_finite [OF c] p(1), of d'] d'
    by simp
  moreover have "content d' (U - {p}) = content d (U - {p})" using d'(3) e by (intro content_cong) (metis DiffD1 DiffD2 singletonI)
  ultimately show "content d' (insert e U) = add_mset r (content d U)"
    using content_remove [OF chained_finite [OF c] p(1), of d] by simp
qed

text \<open>The record at a place \<open>p\<close> that is not its home has been copied to the free place \<open>e\<close>, and
  \<open>movelink\<close> redirects its chain.\<close>

lemma relocate:
  assumes c: "chained d U home" and p: "p \<in> U" "home (dat (d ! p)) \<noteq> p" and e: "e \<notin> U" "e < length d"
    and d1: "length d1 = length d" "\<forall>i\<in>U - {p}. d1 ! i = d ! i" "d1 ! e = d ! p"
  shows "\<exists>d2. movelink d1 p (home (dat (d ! p))) e = Some d2 \<and> chained d2 (insert e (U - {p})) home \<and>
    content d2 (insert e (U - {p})) = content d U \<and> d2 ! p = d1 ! p \<and> length d2 = length d \<and>
    (\<forall>i. home (dat (d ! i)) \<noteq> home (dat (d ! p)) \<longrightarrow> d2 ! i = d1 ! i)"
proof -
  let ?g = "home (dat (d ! p))"
  obtain xs where xs: "path d ?g xs NO_RECORD" "hd xs = ?g" "p \<in> set xs"
    "set xs = {i \<in> U. home (dat (d ! i)) = ?g}" by (rule chained_at [OF c p(1)])
  obtain us vs where uv: "xs = us @ p # vs" using xs(3) by (meson split_list)
  have us: "us \<noteq> []" using uv xs(2) p(2) by auto
  have dis: "distinct xs" by (rule chain_distinct [OF xs(1)])
  have pu: "path d ?g us p" "path d (next_link (d ! p)) vs NO_RECORD"
    using xs(1) uv path_split [of d ?g us p vs] by auto
  have sub: "set us \<subseteq> U - {p}" "set vs \<subseteq> U - {p}" "e \<notin> set us" "e \<notin> set vs" using xs(4) uv dis e by auto
  let ?a = "last us"
  have au: "?a \<in> set us" using us by simp
  then have "?a \<in> U - {p}" "?a \<in> {i \<in> U. home (dat (d ! i)) = ?g}" using sub xs(4) uv by auto
  then have a: "?a \<in> set us" "?a \<noteq> e" "?a \<noteq> p" "?a < length d" "home (dat (d ! ?a)) = ?g" "d1 ! ?a = d ! ?a"
    using au sub(3) path_bound [OF pu(1) au] d1(2) by auto
  define d2 where "d2 = d1[?a := HASH_LINK e (dat (d1 ! ?a))]"
  have pd1: "path d1 ?g us p" "path d1 (next_link (d ! p)) vs NO_RECORD"
    using path_agree [OF pu(1) sub(1) d1(2,1)] path_agree [OF pu(2) sub(2) d1(2,1)] by auto
  have mv: "movelink d1 p ?g e = Some d2"
    unfolding d2_def by (rule movelink_path [OF pd1(1) us]) (use sub in auto)
  have d2: "d2 ! e = d ! p" "\<And>i. i \<in> U - {p} \<Longrightarrow> dat (d2 ! i) = dat (d ! i)"
    "\<And>i. i \<noteq> ?a \<Longrightarrow> d2 ! i = d1 ! i" "length d2 = length d" "dat (d2 ! ?a) = dat (d ! ?a)"
    using d1 a by (auto simp: d2_def nth_list_update)
  have ne: "e \<noteq> NO_RECORD" using c e by (auto simp: chained_def)
  have key: "{i \<in> insert e (U - {p}). home (dat (d2 ! i)) = j} =
      (if j = ?g then insert e ({i \<in> U. home (dat (d ! i)) = j} - {p})
       else {i \<in> U. home (dat (d ! i)) = j})" for j
    using d2(1,2) e by (auto, metis)
  have "chained d2 (insert e (U - {p})) home"
  proof (rule chainedI)
    fix j
    show "\<exists>xs. path d2 (if xs = [] then NO_RECORD else j) xs NO_RECORD \<and>
        set xs = {i \<in> insert e (U - {p}). home (dat (d2 ! i)) = j}"
    proof (cases "j = ?g")
      case True
      have "path d2 ?g us e" unfolding d2_def by (rule path_relink [OF pd1(1) us]) (use dis uv in auto)
      moreover have "?a \<notin> set vs" using dis uv a by auto
      then have "path d2 (next_link (d ! p)) vs NO_RECORD" using pd1(2) by (simp add: d2_def)
      ultimately have "path d2 ?g (us @ e # vs) NO_RECORD"
        using d2 ne e by (auto simp: path_append)
      moreover have "set (us @ e # vs) = {i \<in> insert e (U - {p}). home (dat (d2 ! i)) = ?g}"
        unfolding key xs(4) [symmetric] using uv dis by auto
      ultimately show ?thesis using True by (intro exI [of _ "us @ e # vs"]) auto
    next
      case False
      obtain ys where ys: "path d (if ys = [] then NO_RECORD else j) ys NO_RECORD"
        "set ys = {i \<in> U. home (dat (d ! i)) = j}" using chained_chain [OF c] by blast
      have "d2 ! i = d ! i" if "i \<in> set ys" for i
      proof -
        have "i \<in> U - {p}" "i \<noteq> ?a" using that ys(2) False a by auto
        then show ?thesis using d1 d2 by simp
      qed
      then have "path d2 (if ys = [] then NO_RECORD else j) ys NO_RECORD"
        using ys(1) path_cong [of ys d2 d] d2(4) by auto
      moreover have "set ys = {i \<in> insert e (U - {p}). home (dat (d2 ! i)) = j}"
        unfolding key using ys(2) False by simp
      ultimately show ?thesis by blast
    qed
  qed (use c e d2 in \<open>auto simp: chained_def\<close>)
  moreover have "content d2 (insert e (U - {p})) = content d U"
    using content_insert [of "U - {p}" e d2] content_remove [OF chained_finite [OF c] p(1), of d]
      chained_finite [OF c] e content_cong [of "U - {p}" d2 d] d2 by simp
  moreover have "\<forall>i. home (dat (d ! i)) \<noteq> ?g \<longrightarrow> d2 ! i = d1 ! i" using d2(3) a(5) by metis
  ultimately show ?thesis using mv d2(3,4) a(3) by metis
qed

end
