(* ===== verification/Hash_Split.thy ===== *)
theory Hash_Split
  imports Hash_Chains
begin

text \<open>
  The split of a chain in \<open>my_hash_insert\<close>.  The loop distributes the records of a chain over two
  chains in place, using the one free place of the array; the link of the last record of a chain
  is written only when the next record of the same chain is met or at the end.
\<close>

unbundle bit_operations_syntax

section \<open>One of the two chains under construction\<close>

text \<open>
  \<open>side d fnd used g r pos recs nx\<close>: the chain built so far occupies the places \<open>pos\<close> and holds the
  records \<open>recs\<close>; its last place is \<open>g\<close>, its last record \<open>r\<close>.  All places but the last are linked
  and filled.  The last one is too when \<open>used\<close> holds, and then leads to \<open>nx\<close>.
\<close>

definition side ::
  "'r HASH_LINK list \<Rightarrow> bool \<Rightarrow> bool \<Rightarrow> nat \<Rightarrow> 'r option \<Rightarrow> nat list \<Rightarrow> 'r list \<Rightarrow> nat \<Rightarrow> bool" where
  "side d fnd used g r pos recs nx \<longleftrightarrow>
     (if fnd then \<exists>us rs rc. pos = us @ [g] \<and> recs = rs @ [rc] \<and> r = Some rc \<and> distinct pos \<and>
        path d (hd pos) us g \<and> map (\<lambda>i. dat (d ! i)) us = rs \<and> g < length d \<and> g \<noteq> NO_RECORD \<and>
        (used \<longrightarrow> d ! g = HASH_LINK nx rc)
      else pos = [] \<and> recs = [])"

lemma side_none: "side d False used g r [] [] nx"
  by (simp add: side_def)

lemma side_start: "e < length d \<Longrightarrow> e \<noteq> NO_RECORD \<Longrightarrow> side d True False e (Some rc) [e] [rc] nx"
  by (simp add: side_def)

lemma side_here:
  "p < length d \<Longrightarrow> p \<noteq> NO_RECORD \<Longrightarrow> d ! p = HASH_LINK nx rc \<Longrightarrow> side d True used p (Some rc) [p] [rc] nx"
  by (simp add: side_def)

lemma side_pend: "side d fnd used g r pos recs nx \<Longrightarrow> side d fnd False g r pos recs nx'"
  by (auto simp: side_def)

lemma side_keep:
  assumes "side d True True g r pos recs p" "d ! p = HASH_LINK nx rc" "p < length d" "p \<noteq> NO_RECORD"
    "p \<notin> set pos"
  shows "side d True True p (Some rc) (pos @ [p]) (recs @ [rc]) nx"
proof -
  obtain us rs rg where s: "pos = us @ [g]" "recs = rs @ [rg]" "distinct pos" "path d (hd pos) us g"
    "map (\<lambda>i. dat (d ! i)) us = rs" "g < length d" "g \<noteq> NO_RECORD" "d ! g = HASH_LINK p rg"
    using assms(1) by (auto simp: side_def)
  then have "path d (hd (pos @ [p])) pos p" "map (\<lambda>i. dat (d ! i)) pos = recs"
    by (auto simp: path_append hd_append)
  then show ?thesis using s assms by (simp add: side_def)
qed

lemma side_write:
  assumes "side d True used g r pos recs nx0" "d ! p = HASH_LINK nx rc" "p < length d" "p \<noteq> NO_RECORD"
    "p \<notin> set pos"
  shows "\<exists>d'. put_link d g r p = Some d' \<and> length d' = length d \<and> g \<in> set pos \<and>
    (\<forall>i. i \<noteq> g \<longrightarrow> d' ! i = d ! i) \<and> side d' True True p (Some rc) (pos @ [p]) (recs @ [rc]) nx"
proof -
  obtain us rs rg where s: "pos = us @ [g]" "recs = rs @ [rg]" "r = Some rg" "distinct pos"
    "path d (hd pos) us g" "map (\<lambda>i. dat (d ! i)) us = rs" "g < length d" "g \<noteq> NO_RECORD"
    using assms(1) by (auto simp: side_def)
  let ?d = "d[g := HASH_LINK p rg]"
  have g: "g \<notin> set us" using s by auto
  then have "path ?d (hd (pos @ [p])) pos p" "map (\<lambda>i. dat (?d ! i)) pos = recs"
    using s by (auto simp: path_append hd_append intro!: nth_list_update_neq arg_cong [where f = dat])
  moreover have "?d ! p = HASH_LINK nx rc" using assms s by auto
  ultimately have "side ?d True True p (Some rc) (pos @ [p]) (recs @ [rc]) nx"
    using s assms by (simp add: side_def)
  then show ?thesis using s by (auto simp: put_link_def)
qed

lemma side_agree:
  assumes "side d fnd used g r pos recs nx" "\<forall>i\<in>set pos. d' ! i = d ! i" "length d' = length d"
  shows "side d' fnd used g r pos recs nx"
proof (cases fnd)
  case True
  then obtain us where "pos = us @ [g]" using assms(1) by (auto simp: side_def)
  then show ?thesis using assms True path_cong [of us d' d] by (auto simp: side_def)
qed (use assms in \<open>simp add: side_def\<close>)

text \<open>The end of the loop.\<close>

lemma side_finish:
  assumes "side d True used g r pos recs NO_RECORD"
  shows "\<exists>d'. (if used then Some d else put_link d g r NO_RECORD) = Some d' \<and> length d' = length d \<and>
    (\<forall>i. i \<notin> set pos \<longrightarrow> d' ! i = d ! i) \<and> path d' (hd pos) pos NO_RECORD \<and>
    map (\<lambda>i. dat (d' ! i)) pos = recs"
proof -
  obtain us rs rg where s: "pos = us @ [g]" "recs = rs @ [rg]" "r = Some rg" "distinct pos"
    "path d (hd pos) us g" "map (\<lambda>i. dat (d ! i)) us = rs" "g < length d" "g \<noteq> NO_RECORD"
    "used \<longrightarrow> d ! g = HASH_LINK NO_RECORD rg"
    using assms by (auto simp: side_def)
  let ?d = "if used then d else d[g := HASH_LINK NO_RECORD rg]"
  have d: "?d ! g = HASH_LINK NO_RECORD rg" "\<And>i. i \<noteq> g \<Longrightarrow> ?d ! i = d ! i" using s by auto
  have u: "\<forall>i\<in>set us. ?d ! i = d ! i" using s(1,4) d(2) by (metis distinct_append disjoint_insert(1) inf_commute list.simps(15))
  have "path ?d (hd pos) us g" "map (\<lambda>i. dat (?d ! i)) us = rs"
    using s(5,6) u path_cong [of us d ?d] by auto
  then have "path ?d (hd pos) pos NO_RECORD" "map (\<lambda>i. dat (?d ! i)) pos = recs"
    using s d by (auto simp: path_append)
  then show ?thesis using s d by (intro exI [of _ ?d]) (auto simp: put_link_def)
qed

section \<open>The loop\<close>

text \<open>
  After the places \<open>ps\<close> of the chain at \<open>f\<close> in the array \<open>d0\<close>: \<open>la\<close> and \<open>ha\<close> are the places of the
  chain that stays (home \<open>f\<close>) and of the one that moves (home \<open>n\<close>); together with the free place
  \<open>e\<close> they are those seen so far and \<open>n\<close>.  The other places of \<open>d0\<close> are untouched.
\<close>

definition layout ::
  "'r HASH_LINK list \<Rightarrow> nat \<Rightarrow> nat \<Rightarrow> 'r HASH_LINK list \<Rightarrow> nat list \<Rightarrow> nat \<Rightarrow> nat list \<Rightarrow> nat list \<Rightarrow> bool" where
  "layout d0 n f d ps e la ha \<longleftrightarrow>
     (la \<noteq> [] \<longrightarrow> hd la = f) \<and> (ha \<noteq> [] \<longrightarrow> hd ha = n) \<and>
     distinct (e # la @ ha) \<and> set (e # la @ ha) = insert n (set ps) \<and>
     (\<forall>i. i \<notin> insert n (set ps) \<longrightarrow> d ! i = d0 ! i) \<and> length d = length d0 \<and>
     (ha = [] \<longrightarrow> e = n) \<and> (la = [] \<longrightarrow> ha \<noteq> [] \<longrightarrow> e = f) \<and> (ps = [] \<longleftrightarrow> la = [] \<and> ha = [])"

lemma layout_init: "length d = length d0 \<Longrightarrow> \<forall>i. i \<noteq> n \<longrightarrow> d ! i = d0 ! i \<Longrightarrow> layout d0 n f d [] n [] []"
  by (simp add: layout_def)

text \<open>One more place \<open>p\<close>: \<open>e'\<close>, \<open>la'\<close> and \<open>ha'\<close> use the old places and \<open>p\<close>.\<close>

lemma layout_step:
  assumes l: "layout d0 n f d ps e la ha" and p: "p \<notin> insert n (set ps)"
    and d': "length d' = length d" "\<forall>i. i \<notin> insert n (set ps) \<longrightarrow> d' ! i = d ! i"
    and m: "mset (e' # la' @ ha') = add_mset p (mset (e # la @ ha))"
    and h: "la' \<noteq> [] \<longrightarrow> hd la' = f" "ha' \<noteq> [] \<longrightarrow> hd ha' = n" "ha' = [] \<longrightarrow> e' = n"
      "la' = [] \<longrightarrow> ha' \<noteq> [] \<longrightarrow> e' = f" "la' \<noteq> [] \<or> ha' \<noteq> []"
  shows "layout d0 n f d' (ps @ [p]) e' la' ha'"
proof -
  have o: "distinct (e # la @ ha)" "set (e # la @ ha) = insert n (set ps)"
    "\<forall>i. i \<notin> insert n (set ps) \<longrightarrow> d ! i = d0 ! i" "length d = length d0"
    using l unfolding layout_def by blast+
  have "mset (e' # la' @ ha') = mset (p # e # la @ ha)" using m by simp
  then have "set (e' # la' @ ha') = set (p # e # la @ ha)" "distinct (e' # la' @ ha') = distinct (p # e # la @ ha)"
    by (metis mset_eq_setD, metis mset_eq_imp_distinct_iff)
  moreover have "p \<notin> set (e # la @ ha)" using o(2) p by blast
  moreover have "set (p # e # la @ ha) = insert n (set (ps @ [p]))" using o(2) by auto
  ultimately show ?thesis using o(1,3,4) d' h unfolding layout_def by simp
qed

lemma layout_next:
  assumes l: "layout d0 n f d ps e la ha" and p: "p \<notin> insert n (set ps)"
    and d': "length d' = length d" "\<forall>i. i \<notin> insert n (set ps) \<longrightarrow> d' ! i = d ! i"
  shows "la \<noteq> [] \<Longrightarrow> layout d0 n f d' (ps @ [p]) e (la @ [p]) ha"
    and "ha \<noteq> [] \<Longrightarrow> layout d0 n f d' (ps @ [p]) e la (ha @ [p])"
    and "la = [] \<Longrightarrow> ha \<noteq> [] \<Longrightarrow> layout d0 n f d' (ps @ [p]) p [e] ha"
    and "la \<noteq> [] \<Longrightarrow> ha = [] \<Longrightarrow> layout d0 n f d' (ps @ [p]) p la [e]"
    and "ps = [] \<Longrightarrow> p = f \<Longrightarrow> layout d0 n f d' (ps @ [p]) e [p] []"
    and "ps = [] \<Longrightarrow> p = f \<Longrightarrow> layout d0 n f d' (ps @ [p]) p [] [e]"
proof -
  have h: "la \<noteq> [] \<longrightarrow> hd la = f" "ha \<noteq> [] \<longrightarrow> hd ha = n" "ha = [] \<longrightarrow> e = n"
    "la = [] \<longrightarrow> ha \<noteq> [] \<longrightarrow> e = f" "ps = [] \<longrightarrow> la = [] \<and> ha = []"
    using l unfolding layout_def by blast+
  note step = layout_step [OF l p d']
  show "la \<noteq> [] \<Longrightarrow> layout d0 n f d' (ps @ [p]) e (la @ [p]) ha" by (rule step) (use h in auto)
  show "ha \<noteq> [] \<Longrightarrow> layout d0 n f d' (ps @ [p]) e la (ha @ [p])" by (rule step) (use h in auto)
  show "la = [] \<Longrightarrow> ha \<noteq> [] \<Longrightarrow> layout d0 n f d' (ps @ [p]) p [e] ha" by (rule step) (use h in auto)
  show "la \<noteq> [] \<Longrightarrow> ha = [] \<Longrightarrow> layout d0 n f d' (ps @ [p]) p la [e]" by (rule step) (use h in auto)
  show "ps = [] \<Longrightarrow> p = f \<Longrightarrow> layout d0 n f d' (ps @ [p]) e [p] []" by (rule step) (use h in auto)
  show "ps = [] \<Longrightarrow> p = f \<Longrightarrow> layout d0 n f d' (ps @ [p]) p [] [e]" by (rule step) (use h in auto)
qed

lemma layout_p:
  assumes "layout d0 n f d ps e la ha" "p \<notin> insert n (set ps)"
  shows "p \<notin> set la" "p \<notin> set ha" "d ! p = d0 ! p" "length d = length d0" "set la \<inter> set ha = {}"
    "set la \<subseteq> insert n (set ps)" "set ha \<subseteq> insert n (set ps)"
proof -
  have o: "distinct (e # la @ ha)" "set (e # la @ ha) = insert n (set ps)" "length d = length d0" "d ! p = d0 ! p"
    using assms unfolding layout_def by blast+
  have "p \<notin> set (e # la @ ha)" using o(2) assms(2) by blast
  moreover have "set la \<subseteq> set (e # la @ ha)" "set ha \<subseteq> set (e # la @ ha)" by auto
  ultimately show "p \<notin> set la" "p \<notin> set ha" "d ! p = d0 ! p" "length d = length d0" "set la \<inter> set ha = {}"
    "set la \<subseteq> insert n (set ps)" "set ha \<subseteq> insert n (set ps)"
    using o by simp_all
qed

abbreviation stays :: "('r \<Rightarrow> bool) \<Rightarrow> 'r HASH_LINK list \<Rightarrow> nat list \<Rightarrow> 'r list" where
  "stays hi d0 ps \<equiv> filter (\<lambda>r. \<not> hi r) (map (\<lambda>i. dat (d0 ! i)) ps)"

abbreviation moves :: "('r \<Rightarrow> bool) \<Rightarrow> 'r HASH_LINK list \<Rightarrow> nat list \<Rightarrow> 'r list" where
  "moves hi d0 ps \<equiv> filter hi (map (\<lambda>i. dat (d0 ! i)) ps)"

definition split_inv ::
  "'r HASH_LINK list \<Rightarrow> nat \<Rightarrow> nat \<Rightarrow> ('r \<Rightarrow> bool) \<Rightarrow> 'r split \<Rightarrow> nat list \<Rightarrow> nat \<Rightarrow> nat list \<Rightarrow> nat list \<Rightarrow> bool" where
  "split_inv d0 n f hi s ps nx la ha \<longleftrightarrow>
     flag s \<in> {0, 3, 4, 5, 7, 12, 13} \<and>
     side (links s) (flag s \<in> {3, 5, 7, 13}) (flag s \<in> {3, 7}) (gpos s) (ptr_to_rec s) la
       (stays hi d0 ps) nx \<and>
     side (links s) (flag s \<in> {4, 5, 7, 12, 13}) (flag s \<in> {12, 13}) (gpos2 s) (ptr_to_rec2 s) ha
       (moves hi d0 ps) nx \<and>
     layout d0 n f (links s) ps (empty s) la ha"

lemma side_fnd: "side d fnd used g r pos recs nx \<Longrightarrow> pos = [] \<longleftrightarrow> \<not> fnd"
  by (auto simp: side_def split: if_splits)

lemma side_recs: "side d fnd used g r pos recs nx \<Longrightarrow> recs = [] \<longleftrightarrow> \<not> fnd"
  by (auto simp: side_def split: if_splits)

lemma side_last: "side d True used g r pos recs nx \<Longrightarrow> g \<in> set pos"
  by (auto simp: side_def)

lemma split_invD:
  assumes "split_inv d0 n f hi s ps nx la ha"
  shows "flag s \<in> {0, 3, 4, 5, 7, 12, 13}"
    and "side (links s) (flag s \<in> {3, 5, 7, 13}) (flag s \<in> {3, 7}) (gpos s) (ptr_to_rec s) la
       (stays hi d0 ps) nx"
    and "side (links s) (flag s \<in> {4, 5, 7, 12, 13}) (flag s \<in> {12, 13}) (gpos2 s) (ptr_to_rec2 s) ha
       (moves hi d0 ps) nx"
    and "layout d0 n f (links s) ps (empty s) la ha"
    and "ps = [] \<longleftrightarrow> flag s = 0" "la = [] \<longleftrightarrow> flag s \<notin> {3, 5, 7, 13}" "ha = [] \<longleftrightarrow> flag s \<notin> {4, 5, 7, 12, 13}"
proof -
  show i: "flag s \<in> {0, 3, 4, 5, 7, 12, 13}"
    "side (links s) (flag s \<in> {3, 5, 7, 13}) (flag s \<in> {3, 7}) (gpos s) (ptr_to_rec s) la
       (stays hi d0 ps) nx"
    "side (links s) (flag s \<in> {4, 5, 7, 12, 13}) (flag s \<in> {12, 13}) (gpos2 s) (ptr_to_rec2 s) ha
       (moves hi d0 ps) nx"
    "layout d0 n f (links s) ps (empty s) la ha"
    using assms unfolding split_inv_def by blast+
  show la: "la = [] \<longleftrightarrow> flag s \<notin> {3, 5, 7, 13}" using side_fnd [OF i(2)] by blast
  show ha: "ha = [] \<longleftrightarrow> flag s \<notin> {4, 5, 7, 12, 13}" using side_fnd [OF i(3)] by blast
  have "ps = [] \<longleftrightarrow> la = [] \<and> ha = []" using i(4) unfolding layout_def by blast
  moreover have "flag s = 0 \<longleftrightarrow> flag s \<notin> {3, 5, 7, 13} \<and> flag s \<notin> {4, 5, 7, 12, 13}"
    using i(1) by (elim insertE) simp_all
  ultimately show "ps = [] \<longleftrightarrow> flag s = 0" using la ha by blast
qed

lemma filter_snoc:
  "\<not> hi (dat (d0 ! p)) \<Longrightarrow> stays hi d0 (ps @ [p]) =
     stays hi d0 ps @ [dat (d0 ! p)]"
  "\<not> hi (dat (d0 ! p)) \<Longrightarrow> moves hi d0 (ps @ [p]) = moves hi d0 ps"
  "hi (dat (d0 ! p)) \<Longrightarrow> moves hi d0 (ps @ [p]) =
     moves hi d0 ps @ [dat (d0 ! p)]"
  "hi (dat (d0 ! p)) \<Longrightarrow> stays hi d0 (ps @ [p]) =
     stays hi d0 ps"
  by simp_all

text \<open>A record that stays.\<close>

lemma split_low_ok:
  assumes inv: "split_inv d0 n f hi s ps p la ha" and p: "d0 ! p = HASH_LINK nx rc" "\<not> hi rc"
    "p < length d0" "p \<noteq> NO_RECORD" "p \<notin> insert n (set ps)" "ps = [] \<Longrightarrow> p = f"
    and fn: "empty s < length d0" "empty s \<noteq> NO_RECORD"
  shows "\<exists>s' la' ha'. split_low p (links s ! p) s = Some s' \<and> split_inv d0 n f hi s' (ps @ [p]) nx la' ha' \<and>
    links s' ! p = d0 ! p"
proof -
  note i = split_invD [OF inv]
  note l = layout_p [OF i(4) p(5)] and nxt = layout_next [OF i(4) p(5) refl]
  have rc: "\<not> hi (dat (d0 ! p))" "dat (d0 ! p) = rc" using p by simp_all
  note fs = filter_snoc(1,2) [of hi d0 p ps, OF rc(1), unfolded rc(2)]
  have lp: "links s ! p = HASH_LINK nx rc" "p < length (links s)" using l(3,4) p by simp_all
  consider "flag s = 0" | "flag s \<in> {3, 7}" | "flag s \<in> {4, 12}" | "flag s \<in> {5, 13}"
    using i(1) by (elim insertE) simp_all
  then show ?thesis
  proof cases
    case 1
    then have "la = []" "ha = []" "ps = []" using i(5-7) by simp_all
    then have "split_inv d0 n f hi (s\<lparr>flag := 3, gpos := p, ptr_to_rec := Some rc\<rparr>) (ps @ [p]) nx [p] []"
      using nxt(5) p(6) side_here [OF lp(2) p(4) lp(1)] rc by (simp add: split_inv_def side_none)
    then show ?thesis using 1 lp p by (auto simp: split_low_def)
  next
    case 2
    have "side (links s) True True p (Some rc) (la @ [p]) (stays hi d0 (ps @ [p])) nx"
      unfolding fs by (rule side_keep [where g = "gpos s" and r = "ptr_to_rec s"]) (use i(2) 2 lp l(1) p(4) in auto)
    moreover have "side (links s) (flag s \<in> {4, 5, 7, 12, 13}) (flag s \<in> {12, 13}) (gpos2 s) (ptr_to_rec2 s) ha
       (moves hi d0 (ps @ [p])) nx"
      unfolding fs using side_pend [OF i(3)] 2 by auto
    moreover have "layout d0 n f (links s) (ps @ [p]) (empty s) (la @ [p]) ha" using nxt(1) i(6) 2 by auto
    ultimately have "split_inv d0 n f hi (s\<lparr>gpos := p, ptr_to_rec := Some rc\<rparr>) (ps @ [p]) nx (la @ [p]) ha"
      using 2 i(1) unfolding split_inv_def by auto
    then show ?thesis using 2 lp p by (auto simp: split_low_def)
  next
    case 3
    then have la: "la = []" "ha \<noteq> []" using i(6,7) by auto
    have "stays hi d0 ps = []" using side_recs [OF i(2)] 3 by auto
    then have "side (links s) True False (empty s) (Some rc) [empty s]
        (stays hi d0 (ps @ [p])) nx"
      unfolding fs using side_start [of "empty s" "links s" rc nx] fn l(4) by simp
    moreover have "side (links s) True False (gpos2 s) (ptr_to_rec2 s) ha
       (moves hi d0 (ps @ [p])) nx"
      unfolding fs using side_pend [OF i(3)] 3 by auto
    moreover have "layout d0 n f (links s) (ps @ [p]) p [empty s] ha" using nxt(3) la by simp
    ultimately have "split_inv d0 n f hi (s\<lparr>flag := 5, gpos := empty s, ptr_to_rec := Some rc, empty := p\<rparr>)
        (ps @ [p]) nx [empty s] ha" unfolding split_inv_def by simp
    then show ?thesis using 3 lp p by (auto simp: split_low_def)
  next
    case 4
    have sd: "side (links s) True False (gpos s) (ptr_to_rec s) la (stays hi d0 ps) p"
      using i(2) 4 by auto
    obtain d' where d': "put_link (links s) (gpos s) (ptr_to_rec s) p = Some d'" "length d' = length (links s)"
      "\<forall>i. i \<noteq> gpos s \<longrightarrow> d' ! i = links s ! i" "gpos s \<in> set la"
      "side d' True True p (Some rc) (la @ [p]) (stays hi d0 (ps @ [p])) nx"
      unfolding fs using side_write [OF sd lp p(4) l(1)] by blast
    have g: "gpos s \<notin> set ha" "gpos s \<in> insert n (set ps)" using d'(4) l(5,6) by blast+
    have ag: "\<forall>i\<in>set ha. d' ! i = links s ! i" "\<forall>i. i \<notin> insert n (set ps) \<longrightarrow> d' ! i = links s ! i"
      using d'(3) g by metis+
    have "side (links s) True False (gpos2 s) (ptr_to_rec2 s) ha (moves hi d0 (ps @ [p])) nx"
      unfolding fs using side_pend [OF i(3)] 4 by auto
    then have "side d' True False (gpos2 s) (ptr_to_rec2 s) ha (moves hi d0 (ps @ [p])) nx"
      by (rule side_agree [OF _ ag(1) d'(2)])
    moreover have "layout d0 n f d' (ps @ [p]) (empty s) (la @ [p]) ha"
      by (rule layout_next(1) [OF i(4) p(5) d'(2) ag(2)]) (use i(6) 4 in auto)
    ultimately have "split_inv d0 n f hi (s\<lparr>links := d', flag := 7, gpos := p, ptr_to_rec := Some rc\<rparr>)
        (ps @ [p]) nx (la @ [p]) ha" using d'(5) unfolding split_inv_def by simp
    moreover have "d' ! p = d0 ! p" using d'(3,4) l(1,3) by metis
    moreover have "split_low p (links s ! p) s =
        Some (s\<lparr>links := d', flag := 7, gpos := p, ptr_to_rec := Some rc\<rparr>)"
      using 4 lp d'(1) by (auto simp: split_low_def)
    ultimately show ?thesis by fastforce
  qed
qed

text \<open>A record that moves.\<close>

lemma split_high_ok:
  assumes inv: "split_inv d0 n f hi s ps p la ha" and p: "d0 ! p = HASH_LINK nx rc" "hi rc"
    "p < length d0" "p \<noteq> NO_RECORD" "p \<notin> insert n (set ps)" "ps = [] \<Longrightarrow> p = f"
    and fn: "empty s < length d0" "empty s \<noteq> NO_RECORD"
  shows "\<exists>s' la' ha'. split_high p (links s ! p) s = Some s' \<and> split_inv d0 n f hi s' (ps @ [p]) nx la' ha' \<and>
    links s' ! p = d0 ! p"
proof -
  note i = split_invD [OF inv]
  note l = layout_p [OF i(4) p(5)] and nxt = layout_next [OF i(4) p(5) refl]
  have rc: "hi (dat (d0 ! p))" "dat (d0 ! p) = rc" using p by simp_all
  note fs = filter_snoc(3,4) [of hi d0 p ps, OF rc(1), unfolded rc(2)]
  have lp: "links s ! p = HASH_LINK nx rc" "p < length (links s)" using l(3,4) p by simp_all
  consider "flag s = 0" | "flag s \<in> {12, 13}" | "flag s = 3" | "flag s \<in> {4, 5, 7}"
    using i(1) by (elim insertE) simp_all
  then show ?thesis
  proof cases
    case 1
    then have e: "la = []" "ha = []" "ps = []" using i(5-7) by simp_all
    have "side (links s) True False (empty s) (Some rc) [empty s] (moves hi d0 (ps @ [p])) nx"
      unfolding fs using e side_start [of "empty s" "links s" rc nx] fn l(4) by simp
    then have "split_inv d0 n f hi (s\<lparr>flag := 4, gpos2 := empty s, empty := p, ptr_to_rec2 := Some rc\<rparr>)
        (ps @ [p]) nx [] [empty s]"
      using nxt(6) p(6) e rc by (simp add: split_inv_def side_none)
    then show ?thesis using 1 lp p by (auto simp: split_high_def)
  next
    case 2
    have "side (links s) True True p (Some rc) (ha @ [p]) (moves hi d0 (ps @ [p])) nx"
      unfolding fs by (rule side_keep [where g = "gpos2 s" and r = "ptr_to_rec2 s"]) (use i(3) 2 lp l(2) p(4) in auto)
    moreover have "side (links s) (flag s \<in> {3, 5, 7, 13}) (flag s \<in> {3, 7}) (gpos s) (ptr_to_rec s) la
       (stays hi d0 (ps @ [p])) nx"
      unfolding fs using side_pend [OF i(2)] 2 by auto
    moreover have "layout d0 n f (links s) (ps @ [p]) (empty s) la (ha @ [p])" using nxt(2) i(7) 2 by auto
    ultimately have "split_inv d0 n f hi (s\<lparr>gpos2 := p, ptr_to_rec2 := Some rc\<rparr>) (ps @ [p]) nx la (ha @ [p])"
      using 2 i(1) unfolding split_inv_def by auto
    then show ?thesis using 2 lp p by (auto simp: split_high_def)
  next
    case 3
    then have la: "la \<noteq> []" "ha = []" using i(6,7) by auto
    have "moves hi d0 ps = []" using side_recs [OF i(3)] 3 by auto
    then have "side (links s) True False (empty s) (Some rc) [empty s] (moves hi d0 (ps @ [p])) nx"
      unfolding fs using side_start [of "empty s" "links s" rc nx] fn l(4) by simp
    moreover have "side (links s) True False (gpos s) (ptr_to_rec s) la (stays hi d0 (ps @ [p])) nx"
      unfolding fs using side_pend [OF i(2)] 3 by auto
    moreover have "layout d0 n f (links s) (ps @ [p]) p la [empty s]" using nxt(4) la by simp
    ultimately have "split_inv d0 n f hi (s\<lparr>flag := 5, gpos2 := empty s, empty := p, ptr_to_rec2 := Some rc\<rparr>)
        (ps @ [p]) nx la [empty s]" unfolding split_inv_def by simp
    then show ?thesis using 3 lp p by (auto simp: split_high_def)
  next
    case 4
    have sd: "side (links s) True False (gpos2 s) (ptr_to_rec2 s) ha (moves hi d0 ps) p"
      using i(3) 4 by auto
    obtain d' where d': "put_link (links s) (gpos2 s) (ptr_to_rec2 s) p = Some d'" "length d' = length (links s)"
      "\<forall>i. i \<noteq> gpos2 s \<longrightarrow> d' ! i = links s ! i" "gpos2 s \<in> set ha"
      "side d' True True p (Some rc) (ha @ [p]) (moves hi d0 (ps @ [p])) nx"
      unfolding fs using side_write [OF sd lp p(4) l(2)] by blast
    have g: "gpos2 s \<notin> set la" "gpos2 s \<in> insert n (set ps)" using d'(4) l(5,7) by blast+
    have ag: "\<forall>i\<in>set la. d' ! i = links s ! i" "\<forall>i. i \<notin> insert n (set ps) \<longrightarrow> d' ! i = links s ! i"
      using d'(3) g by metis+
    let ?lf = "flag s \<noteq> 4" and ?fl = "if flag s = 4 then 12 else 13"
    have "side (links s) ?lf False (gpos s) (ptr_to_rec s) la (stays hi d0 (ps @ [p])) nx"
      unfolding fs using side_pend [OF i(2)] 4 by auto
    then have "side d' ?lf False (gpos s) (ptr_to_rec s) la (stays hi d0 (ps @ [p])) nx"
      by (rule side_agree [OF _ ag(1) d'(2)])
    moreover have "layout d0 n f d' (ps @ [p]) (empty s) la (ha @ [p])"
      by (rule layout_next(2) [OF i(4) p(5) d'(2) ag(2)]) (use i(7) 4 in auto)
    ultimately have "split_inv d0 n f hi (s\<lparr>links := d', flag := ?fl, gpos2 := p, ptr_to_rec2 := Some rc\<rparr>)
        (ps @ [p]) nx la (ha @ [p])" using d'(5) rc unfolding split_inv_def by (cases "flag s = 4") simp_all
    moreover have "d' ! p = d0 ! p" using d'(3,4) l(2,3) by metis
    moreover have "split_high p (links s ! p) s =
        Some (s\<lparr>links := d', flag := ?fl, gpos2 := p, ptr_to_rec2 := Some rc\<rparr>)"
      using 4 lp d'(1) by (auto simp: split_high_def)
    ultimately show ?thesis by fastforce
  qed
qed

lemma split_step:
  assumes inv: "split_inv d0 n f hi s ps p la ha" and p: "d0 ! p = HASH_LINK nx rc"
    "p \<notin> insert n (set ps)" "ps = [] \<Longrightarrow> p = f" and b: "\<forall>q\<in>insert n (insert p (set ps)). q < length d0 \<and> q \<noteq> NO_RECORD"
  shows "\<exists>s' la' ha'. (if hi rc then split_high p (links s ! p) s else split_low p (links s ! p) s) = Some s' \<and>
    split_inv d0 n f hi s' (ps @ [p]) nx la' ha' \<and> links s' ! p = d0 ! p"
proof -
  have "empty s \<in> insert n (set ps)" using split_invD(4) [OF inv] unfolding layout_def by auto
  then have e: "empty s < length d0" "empty s \<noteq> NO_RECORD" "p < length d0" "p \<noteq> NO_RECORD" using b by auto
  show ?thesis
  proof (cases "hi rc")
    case True
    then show ?thesis using split_high_ok [OF inv p(1) True e(3,4) p(2,3) e(1,2)] by simp
  next
    case False
    then show ?thesis using split_low_ok [OF inv p(1) False e(3,4) p(2,3) e(1,2)] by simp
  qed
qed

lemma split_loop_ok:
  assumes "split_inv d0 n f hi s ps p la ha" "path d0 p (p # xs) NO_RECORD" "distinct (ps @ p # xs)"
    "n \<notin> set (ps @ p # xs)" "ps = [] \<Longrightarrow> p = f"
    "\<forall>q\<in>insert n (set (ps @ p # xs)). q < length d0 \<and> q \<noteq> NO_RECORD"
    "\<And>r. hi r \<longleftrightarrow> rec_hashnr info r AND half \<noteq> 0"
    "ps = [] \<Longrightarrow> hash_mask (rec_hashnr info (dat (d0 ! p))) (blength info) (records info) = f"
  shows "\<exists>s' la' ha'. split_loop info half f s p = Some s' \<and> split_inv d0 n f hi s' (ps @ p # xs) NO_RECORD la' ha'"
  using assms(1-6,8)
proof (induction xs arbitrary: s ps p la ha)
  case (Nil s ps p)
  obtain nx rc where l: "d0 ! p = HASH_LINK nx rc" by (cases "d0 ! p")
  obtain s' la' ha' where s': "(if hi rc then split_high p (links s ! p) s else split_low p (links s ! p) s) = Some s'"
    "split_inv d0 n f hi s' (ps @ [p]) nx la' ha'" "links s' ! p = d0 ! p"
    using split_step [OF Nil.prems(1) l] Nil.prems(3-6) by auto
  have lp: "links s ! p = d0 ! p" "length (links s) = length d0" "length (links s') = length d0"
    using split_invD(4) [OF Nil.prems(1)] split_invD(4) [OF s'(2)] Nil.prems(3,4) unfolding layout_def by auto
  have "split_loop info half f s p = Some s'"
    using s'(1,3) lp l Nil.prems assms(7) split_invD(5) [OF Nil.prems(1)]
    by (subst split_loop.simps) (auto simp: Let_def split: if_splits)
  then show ?case using s' l Nil.prems(2) by auto
next
  case (Cons q xs s ps p)
  obtain nx rc where l: "d0 ! p = HASH_LINK nx rc" by (cases "d0 ! p")
  have nx: "nx = q" "q \<noteq> NO_RECORD" using Cons.prems(2) l by auto
  obtain s' la' ha' where s': "(if hi rc then split_high p (links s ! p) s else split_low p (links s ! p) s) = Some s'"
    "split_inv d0 n f hi s' (ps @ [p]) q la' ha'" "links s' ! p = d0 ! p"
    using split_step [OF Cons.prems(1) l] Cons.prems(3-6) nx by auto
  have lp: "links s ! p = d0 ! p" "length (links s) = length d0" "length (links s') = length d0"
    using split_invD(4) [OF Cons.prems(1)] split_invD(4) [OF s'(2)] Cons.prems(3,4) unfolding layout_def by auto
  have "split_loop info half f s p = split_loop info half f s' q"
    using s'(1,3) lp l nx Cons.prems assms(7) split_invD(5) [OF Cons.prems(1)]
    by (subst split_loop.simps) (auto simp: Let_def split: if_splits)
  moreover have "\<exists>t la' ha'. split_loop info half f s' q = Some t \<and> split_inv d0 n f hi t ((ps @ [p]) @ q # xs) NO_RECORD la' ha'"
    by (rule Cons.IH [OF s'(2)]) (use Cons.prems nx l in auto)
  ultimately show ?case by simp
qed

section \<open>The table after the split\<close>

text \<open>One side at the end, also when it is empty.\<close>

lemma side_end:
  assumes "side d fnd used g r pos recs NO_RECORD"
  shows "\<exists>d'. (if fnd \<and> \<not> used then put_link d g r NO_RECORD else Some d) = Some d' \<and> length d' = length d \<and>
    (\<forall>i. i \<notin> set pos \<longrightarrow> d' ! i = d ! i) \<and>
    path d' (if pos = [] then NO_RECORD else hd pos) pos NO_RECORD \<and> map (\<lambda>i. dat (d' ! i)) pos = recs"
proof (cases fnd)
  case True
  then show ?thesis using side_finish [of d used g r pos recs] side_fnd [OF assms] assms by auto
next
  case False
  then show ?thesis using assms by (auto simp: side_def)
qed

lemma split_finish_ok:
  assumes inv: "split_inv d0 n f hi s ps NO_RECORD la ha"
  shows "\<exists>d'. split_finish s = Some (s\<lparr>links := d'\<rparr>) \<and>
    path d' (if la = [] then NO_RECORD else f) la NO_RECORD \<and> map (\<lambda>i. dat (d' ! i)) la = stays hi d0 ps \<and>
    path d' (if ha = [] then NO_RECORD else n) ha NO_RECORD \<and> map (\<lambda>i. dat (d' ! i)) ha = moves hi d0 ps \<and>
    layout d0 n f d' ps (empty s) la ha"
proof -
  note i = split_invD [OF inv]
  have lay: "(la \<noteq> [] \<longrightarrow> hd la = f)" "(ha \<noteq> [] \<longrightarrow> hd ha = n)" "set la \<inter> set ha = {}"
    "set la \<subseteq> insert n (set ps)" "set ha \<subseteq> insert n (set ps)"
    using i(4) unfolding layout_def by auto
  obtain d1 where d1: "(if flag s \<in> {3, 5, 7, 13} \<and> flag s \<notin> {3, 7} then put_link (links s) (gpos s) (ptr_to_rec s) NO_RECORD
      else Some (links s)) = Some d1" "length d1 = length (links s)" "\<forall>i. i \<notin> set la \<longrightarrow> d1 ! i = links s ! i"
    "path d1 (if la = [] then NO_RECORD else hd la) la NO_RECORD" "map (\<lambda>i. dat (d1 ! i)) la = stays hi d0 ps"
    using side_end [OF i(2)] by blast
  have "side d1 (flag s \<in> {4, 5, 7, 12, 13}) (flag s \<in> {12, 13}) (gpos2 s) (ptr_to_rec2 s) ha (moves hi d0 ps) NO_RECORD"
    by (rule side_agree [OF i(3) _ d1(2)]) (use d1(3) lay(3) in blast)
  from side_end [OF this] obtain d2 where d2:
    "(if flag s \<in> {4, 5, 7, 12, 13} \<and> flag s \<notin> {12, 13} then put_link d1 (gpos2 s) (ptr_to_rec2 s) NO_RECORD
      else Some d1) = Some d2" "length d2 = length d1" "\<forall>i. i \<notin> set ha \<longrightarrow> d2 ! i = d1 ! i"
    "path d2 (if ha = [] then NO_RECORD else hd ha) ha NO_RECORD" "map (\<lambda>i. dat (d2 ! i)) ha = moves hi d0 ps"
    by blast
  have "split_finish s = Some (s\<lparr>links := d2\<rparr>)"
    using d1(1) d2(1) i(1) by (elim insertE) (simp_all add: split_finish_def)
  moreover have ag: "\<forall>i\<in>set la. d2 ! i = d1 ! i" using d2(3) lay(3) by blast
  then have "map (\<lambda>i. dat (d2 ! i)) la = map (\<lambda>i. dat (d1 ! i)) la" by simp
  then have "path d2 (if la = [] then NO_RECORD else hd la) la NO_RECORD" "map (\<lambda>i. dat (d2 ! i)) la = stays hi d0 ps"
    using d1(4,5) path_cong [OF ag d2(2)] by auto
  moreover have "\<forall>i. i \<notin> insert n (set ps) \<longrightarrow> d2 ! i = links s ! i"
    using d1(3) d2(3) lay(4,5) by (metis subsetD)
  then have "layout d0 n f d2 ps (empty s) la ha"
    using i(4) d1(2) d2(2) unfolding layout_def by simp
  moreover have "(if la = [] then NO_RECORD else f) = (if la = [] then NO_RECORD else hd la)"
    "(if ha = [] then NO_RECORD else n) = (if ha = [] then NO_RECORD else hd ha)" using lay(1,2) by auto
  ultimately show ?thesis using d2(4,5) by (intro exI [of _ d2]) simp
qed

text \<open>
  The split of the chain at \<open>f\<close>: from a table of the places below \<open>n\<close> and homes \<open>h0\<close> to one with
  homes \<open>h1\<close> and one free place among those up to \<open>n\<close>.
\<close>

lemma three_parts:
  assumes "\<And>i. i \<in> A \<Longrightarrow> g i = f" "\<And>i. i \<in> B \<Longrightarrow> g i = n" "\<And>i. i \<in> V \<Longrightarrow> g i \<noteq> f \<and> g i \<noteq> n"
    "\<And>i. i \<in> V \<Longrightarrow> g i = g' i" "f \<noteq> n"
  shows "{i \<in> A \<union> B \<union> V. g i = j} = (if j = f then A else if j = n then B else {i \<in> V. g' i = j})"
proof -
  have "{i \<in> A \<union> B \<union> V. g i = j} = {i \<in> A. g i = j} \<union> {i \<in> B. g i = j} \<union> {i \<in> V. g i = j}" by blast
  also have "{i \<in> A. g i = j} = (if j = f then A else {})" using assms(1) by auto
  also have "{i \<in> B. g i = j} = (if j = n then B else {})" using assms(2) by auto
  also have "{i \<in> V. g i = j} = (if j = f \<or> j = n then {} else {i \<in> V. g' i = j})" using assms(3,4) by auto
  finally show ?thesis using assms(5) by simp
qed

lemma split_table:
  assumes c: "chained d0 {..<n} h0" and n: "length d0 = Suc n"
    and h1: "\<And>r. h1 r = (if h0 r = f \<and> hi r then n else h0 r)"
    and p: "path d0 f ps NO_RECORD" "ps \<noteq> []" "set ps = {i \<in> {..<n}. h0 (dat (d0 ! i)) = f}"
    and l: "layout d0 n f d ps e la ha"
    and la: "path d (if la = [] then NO_RECORD else f) la NO_RECORD" "map (\<lambda>i. dat (d ! i)) la = stays hi d0 ps"
    and ha: "path d (if ha = [] then NO_RECORD else n) ha NO_RECORD" "map (\<lambda>i. dat (d ! i)) ha = moves hi d0 ps"
  shows "chained d ({..<Suc n} - {e}) h1" "content d ({..<Suc n} - {e}) = content d0 {..<n}" "e < Suc n"
proof -
  have o: "distinct (e # la @ ha)" "set (e # la @ ha) = insert n (set ps)"
    "\<forall>i. i \<notin> insert n (set ps) \<longrightarrow> d ! i = d0 ! i" "length d = length d0"
    using l unfolding layout_def by blast+
  let ?V = "{..<n} - set ps"
  have ps: "set ps \<subseteq> {..<n}" "n \<notin> set ps" "distinct ps" "f \<in> set ps"
  proof -
    show "set ps \<subseteq> {..<n}" "n \<notin> set ps" unfolding p(3) by blast+
    show "distinct ps" by (rule chain_distinct [OF p(1)])
    show "f \<in> set ps" using path_hd [OF p(1)] p(2) by simp
  qed
  have U: "{..<Suc n} - {e} = set la \<union> set ha \<union> ?V"
  proof -
    have "{..<Suc n} = insert n (set ps) \<union> ?V" using ps(1) by auto
    then have "{..<Suc n} = insert e (set la \<union> set ha) \<union> ?V" using o(2) by simp
    moreover have "e \<in> insert n (set ps)" unfolding o(2) [symmetric] by simp
    then have "e \<notin> ?V" by auto
    moreover have "e \<notin> set la" "e \<notin> set ha" using o(1) by simp_all
    ultimately show ?thesis by blast
  qed
  have "e \<in> insert n (set ps)" unfolding o(2) [symmetric] by simp
  then show "e < Suc n" using ps(1) by auto
  have ph: "q \<in> set ps \<longleftrightarrow> q < n \<and> h0 (dat (d0 ! q)) = f" for q unfolding p(3) by simp
  have dl: "h1 (dat (d ! i)) = f" if "i \<in> set la" for i
  proof -
    have "dat (d ! i) \<in> set (stays hi d0 ps)" using that la(2) by (metis image_eqI list.set_map)
    then obtain q where "q \<in> set ps" "dat (d ! i) = dat (d0 ! q)" "\<not> hi (dat (d ! i))" by auto
    then show ?thesis using ph [of q] by (simp add: h1)
  qed
  have dh: "h1 (dat (d ! i)) = n" if "i \<in> set ha" for i
  proof -
    have "dat (d ! i) \<in> set (moves hi d0 ps)" using that ha(2) by (metis image_eqI list.set_map)
    then obtain q where "q \<in> set ps" "dat (d ! i) = dat (d0 ! q)" "hi (dat (d ! i))" by auto
    then show ?thesis using ph [of q] by (simp add: h1)
  qed
  have dv: "d ! i = d0 ! i" "h1 (dat (d ! i)) = h0 (dat (d0 ! i))" "h0 (dat (d0 ! i)) \<noteq> f" "h0 (dat (d0 ! i)) < n"
    if "i \<in> ?V" for i
  proof -
    show e: "d ! i = d0 ! i" using that o(3) by auto
    show "h0 (dat (d0 ! i)) \<noteq> f" using that ph [of i] by auto
    then show "h1 (dat (d ! i)) = h0 (dat (d0 ! i))" by (simp add: h1 e)
    show "h0 (dat (d0 ! i)) < n" using chained_home_used(1) [OF c, of i] that by auto
  qed
  have fn: "f < n" using ps by auto
  show "chained d ({..<Suc n} - {e}) h1"
  proof (rule chainedI)
    fix j
    have sets: "{i \<in> set la \<union> set ha \<union> ?V. h1 (dat (d ! i)) = j} =
        (if j = f then set la else if j = n then set ha else {i \<in> ?V. h0 (dat (d0 ! i)) = j})"
    proof -
      have ne: "h1 (dat (d ! i)) \<noteq> f \<and> h1 (dat (d ! i)) \<noteq> n" if "i \<in> ?V" for i
        using dv(2-4) [OF that] by simp
      show ?thesis by (rule three_parts) (use dl dh ne dv(2) fn in auto)
    qed
    then have "{i \<in> set la \<union> set ha \<union> ?V. h1 (dat (d ! i)) = j} = {i \<in> ?V. h0 (dat (d0 ! i)) = j}"
      if "j \<noteq> f" "j \<noteq> n" using that by simp
    moreover have "{i \<in> ?V. h0 (dat (d0 ! i)) = j} = {i \<in> {..<n}. h0 (dat (d0 ! i)) = j}" if "j \<noteq> f"
      using that ph by blast
    moreover have "path d (if xs = [] then NO_RECORD else j) xs NO_RECORD"
      if "j \<noteq> f" "path d0 (if xs = [] then NO_RECORD else j) xs NO_RECORD" "set xs = {i \<in> {..<n}. h0 (dat (d0 ! i)) = j}" for xs
    proof (rule path_agree [OF that(2)])
      show "set xs \<subseteq> ?V" unfolding that(3) using that(1) ph by blast
      show "\<forall>i\<in>?V. d ! i = d0 ! i" using dv(1) by blast
    qed (rule o(4))
    moreover obtain xs where "path d0 (if xs = [] then NO_RECORD else j) xs NO_RECORD"
      "set xs = {i \<in> {..<n}. h0 (dat (d0 ! i)) = j}" by (rule chained_chain [OF c])
    ultimately have "path d (if xs = [] then NO_RECORD else j) xs NO_RECORD \<and>
        set xs = {i \<in> set la \<union> set ha \<union> ?V. h1 (dat (d ! i)) = j}" if "j \<noteq> f" "j \<noteq> n"
      using that by simp
    moreover have "path d (if la = [] then NO_RECORD else j) la NO_RECORD \<and>
        set la = {i \<in> set la \<union> set ha \<union> ?V. h1 (dat (d ! i)) = j}" if "j = f"
      unfolding sets using that la(1) by (simp split: if_splits)
    moreover have "path d (if ha = [] then NO_RECORD else j) ha NO_RECORD \<and>
        set ha = {i \<in> set la \<union> set ha \<union> ?V. h1 (dat (d ! i)) = j}" if "j = n"
      unfolding sets using that ha(1) fn by (simp split: if_splits)
    ultimately show "\<exists>xs. path d (if xs = [] then NO_RECORD else j) xs NO_RECORD \<and>
        set xs = {i \<in> {..<Suc n} - {e}. h1 (dat (d ! i)) = j}"
      unfolding U by blast
  qed (use o(4) n c in \<open>auto simp: chained_def\<close>)
  have "content d ({..<Suc n} - {e}) = mset (stays hi d0 ps) + mset (moves hi d0 ps) + content d ?V"
  proof -
    have lah: "set la \<union> set ha \<subseteq> insert n (set ps)" unfolding o(2) [symmetric] by auto
    have "set la \<inter> set ha = {}" "(set la \<union> set ha) \<inter> ?V = {}" "distinct la" "distinct ha"
      using o(1) lah by auto
    then show ?thesis unfolding U la(2) [symmetric] ha(2) [symmetric] by (simp add: content_union content_list)
  qed
  also have "mset (stays hi d0 ps) + mset (moves hi d0 ps) = mset (map (\<lambda>i. dat (d0 ! i)) ps)"
    by (induction ps) auto
  also have "content d ?V = content d0 ?V" using dv(1) by (intro content_cong) auto
  also have "mset (map (\<lambda>i. dat (d0 ! i)) ps) + content d0 ?V = content d0 {..<n}"
    using content_union [of "set ps" ?V d0] content_list [OF ps(3), of d0] ps(1) by (simp add: Un_absorb1)
  finally show "content d ({..<Suc n} - {e}) = content d0 {..<n}" .
qed

end
