(* ===== verification/Hash_Table.thy ===== *)
theory Hash_Table
  imports Hash_Split
begin

text \<open>
  Correctness of the hash tables of \<open>mysys/hash.c\<close>: the invariant of a table, that insertion and
  deletion keep it and change the records as they should, and that a search finds a record
  whenever there is one.
\<close>

unbundle bit_operations_syntax

section \<open>Homes of records\<close>

lemma and_pow_minus_1: "x AND (2 ^ k - 1) = x mod 2 ^ k" for x :: nat
  using take_bit_eq_mask [of k x] by (simp add: take_bit_eq_mod mask_eq_exp_minus_1)

lemma mod_pow_Suc: "x mod 2 ^ Suc k = (if x AND 2 ^ k = 0 then 0 else 2 ^ k) + x mod 2 ^ k" for x :: nat
  using take_bit_Suc_from_most [of k x]
  by (simp add: take_bit_eq_mod and_exp_eq_0_iff_not_bit)

text \<open>\<open>size_ok k n\<close>: a table of \<open>n\<close> records with \<open>blength = 2 ^ k\<close>.\<close>

definition size_ok :: "nat \<Rightarrow> nat \<Rightarrow> bool" where
  "size_ok k n \<longleftrightarrow> 2 ^ k div 2 \<le> n \<and> n < 2 ^ k \<and> k \<le> 31"

lemma hash_mask_pow:
  assumes "k \<le> 30"
  shows "hash_mask x (2 ^ Suc k) n = (if x mod 2 ^ Suc k < n then x mod 2 ^ Suc k else x mod 2 ^ k)"
proof -
  have "(2::nat) ^ k \<le> 2 ^ 30" using assms by (intro power_increasing) auto
  then have "u32_sub (2 ^ Suc k) 1 = 2 ^ Suc k - 1" "u32_sub (2 ^ k) 1 = 2 ^ k - 1"
    by (subst u32_sub_small; simp)+
  moreover have "drop_bit 1 ((2::nat) ^ Suc k) = 2 ^ k" by (simp add: drop_bit_eq_div)
  ultimately show ?thesis unfolding hash_mask_def and_pow_minus_1 [symmetric] by simp
qed

lemma hash_mask_lt:
  assumes "size_ok k n" "0 < n"
  shows "hash_mask x (2 ^ k) n < n"
proof (cases k)
  case (Suc k')
  then have "2 ^ k' \<le> n" "k' \<le> 30" using assms by (auto simp: size_ok_def)
  moreover have "x mod 2 ^ k' < n" 
    using \<open>2 ^ k' \<le> n\<close> by (meson less_le_trans mod_less_divisor zero_less_numeral zero_less_power)
  ultimately show ?thesis using Suc hash_mask_pow [of k' x n] by (simp del: power_Suc)
qed (use assms in \<open>auto simp: size_ok_def\<close>)

lemma split_arith:
  fixes q n m :: nat
  assumes "q \<le> n" "n < 2 * q" "m < q"
  shows "(if (if b then 0 else q) + m < Suc n then (if b then 0 else q) + m else m) =
    (if (if (if b then 0 else q) + m < n then (if b then 0 else q) + m else m) = n - q \<and> \<not> b then n
     else if (if b then 0 else q) + m < n then (if b then 0 else q) + m else m)"
  using assms by (cases b) auto

text \<open>With one more record, the chain at \<open>n - blength / 2\<close> is split between its home and \<open>n\<close>.\<close>

lemma hash_mask_split:
  assumes "size_ok (Suc k) n"
  shows "hash_mask x (2 ^ Suc k) (Suc n) =
    (if hash_mask x (2 ^ Suc k) n = n - 2 ^ k \<and> x AND 2 ^ k \<noteq> 0 then n else hash_mask x (2 ^ Suc k) n)"
proof -
  have k: "2 ^ k \<le> n" "n < 2 * 2 ^ k" "k \<le> 30" using assms by (auto simp: size_ok_def)
  have lt: "x mod 2 ^ k < 2 ^ k" by simp
  show ?thesis
    unfolding hash_mask_pow [OF k(3)] mod_pow_Suc by (rule split_arith [OF k(1,2) lt])
qed

lemma hash_mask_double:
  assumes "k \<le> 30"
  shows "hash_mask x (2 ^ Suc k) (2 ^ k) = x mod 2 ^ k"
  unfolding hash_mask_pow [OF assms] mod_pow_Suc by (cases "x AND 2 ^ k = 0") simp_all

lemma hash_mask_full:
  assumes "k \<le> 31"
  shows "hash_mask x (2 ^ k) (2 ^ k) = x mod 2 ^ k"
proof (cases k)
  case 0
  then show ?thesis by (simp add: hash_mask_def)
next
  case (Suc k')
  then show ?thesis using assms hash_mask_pow [of k' x "2 ^ k"] by (simp del: power_Suc)
qed

text \<open>The hash number of a record does not depend on the state of the table.\<close>

lemma rec_hashnr_upd [simp]:
  "rec_hashnr (h\<lparr>array := a\<rparr>) = rec_hashnr h" "rec_hashnr (h\<lparr>current_record := c\<rparr>) = rec_hashnr h"
  "rec_hashnr (h\<lparr>records := n\<rparr>) = rec_hashnr h" "rec_hashnr (h\<lparr>blength := n\<rparr>) = rec_hashnr h"
  "rec_hashnr (h\<lparr>freed := fs\<rparr>) = rec_hashnr h"
  by (simp_all add: fun_eq_iff rec_hashnr_def calc_hash_def hash_key_def split: option.split)

section \<open>Entering a record\<close>

lemma enter_record_home:
  assumes "\<And>r. hash_mask (rec_hashnr info r) (blength info) (u32_add (records info) 1) = home r"
  shows "enter_record info d e rc =
    (if home rc = e then wr d (home rc) (HASH_LINK NO_RECORD rc)
     else do {
       pos \<leftarrow> rd d (home rc);
       d \<leftarrow> wr d e pos;
       if home rc = home (dat pos) then wr d (home rc) (HASH_LINK e rc)
       else do {
         d \<leftarrow> wr d (home rc) (HASH_LINK NO_RECORD rc);
         movelink d (home rc) (home (dat pos)) e
       }
     })"
  unfolding enter_record_def Let_def hash_rec_mask_def rec_hashnr_def [symmetric] assms by (rule refl)

lemma enter_record_ok:
  assumes home: "\<And>r. hash_mask (rec_hashnr info r) (blength info) (u32_add (records info) 1) = home r"
    and c: "chained d U home" and e: "e \<notin> U" "e < length d" and full: "insert e U = {..<length d}"
    and h: "home rc < length d"
  shows "\<exists>d'. enter_record info d e rc = Some d' \<and> chained d' {..<length d} home \<and>
    content d' {..<length d} = add_mset rc (content d U) \<and> length d' = length d"
proof (cases "home rc = e")
  case True
  let ?d = "d[e := HASH_LINK NO_RECORD rc]"
  have "chained ?d U home" by (rule chained_upd [OF c e(1)])
  from put_fresh [OF this e(1), of rc] have "chained ?d (insert e U) home"
    "content ?d (insert e U) = add_mset rc (content ?d U)" using e True by auto
  moreover have "enter_record info d e rc = Some ?d"
    unfolding enter_record_home [OF home] using True e by simp
  ultimately show ?thesis using e full by simp
next
  case False
  let ?p = "home rc"
  have p: "?p \<in> U" using full h False by auto
  show ?thesis
  proof (cases "home (dat (d ! ?p)) = ?p")
    case True
    have "enter_record info d e rc = Some (d[e := d ! ?p, ?p := HASH_LINK e rc])"
      unfolding enter_record_home [OF home] using True e h False by simp
    then show ?thesis using push_front [OF c p True refl e] full by simp
  next
    case foreign: False
    let ?d1 = "d[e := d ! ?p, ?p := HASH_LINK NO_RECORD rc]"
    have d1: "length ?d1 = length d" "\<forall>i\<in>U - {?p}. ?d1 ! i = d ! i" "?d1 ! e = d ! ?p"
      using e False upd_agree [of e U d "d ! ?p"] by (auto simp: nth_list_update)
    obtain d2 where d2: "movelink ?d1 ?p (home (dat (d ! ?p))) e = Some d2"
      "chained d2 (insert e (U - {?p})) home" "content d2 (insert e (U - {?p})) = content d U"
      "d2 ! ?p = ?d1 ! ?p" "length d2 = length d"
      using relocate [OF c p foreign e d1] by blast
    have "d2 ! ?p = HASH_LINK NO_RECORD rc" using d2(4) h by simp
    from put_fresh [OF d2(2) _ _ this refl] have "chained d2 (insert ?p (insert e (U - {?p}))) home"
      "content d2 (insert ?p (insert e (U - {?p}))) = add_mset rc (content d U)"
      using False h d2(3,5) by auto
    moreover have "insert ?p (insert e (U - {?p})) = {..<length d}" using full p by auto
    moreover have "enter_record info d e rc = Some d2"
      unfolding enter_record_home [OF home] using d2(1) foreign [symmetric] e h False by simp
    ultimately show ?thesis using d2(5) by simp
  qed
qed

section \<open>The invariant of a table\<close>

abbreviation home :: "('b, 'r) HASH \<Rightarrow> 'r \<Rightarrow> nat" where
  "home h \<equiv> \<lambda>r. hash_mask (rec_hashnr h r) (blength h) (records h)"

definition hash_inv :: "('b, 'r) HASH \<Rightarrow> bool" where
  "hash_inv h \<longleftrightarrow> (\<exists>k. blength h = 2 ^ k \<and> size_ok k (records h)) \<and> length (array h) = records h \<and>
     chained (array h) {..<records h} (home h)"

abbreviation hash_records :: "('b, 'r) HASH \<Rightarrow> 'r multiset" where
  "hash_records h \<equiv> mset (map dat (array h))"

lemma content_all: "length d = n \<Longrightarrow> content d {..<n} = mset (map dat d)"
proof -
  assume "length d = n"
  then have "content d {..<n} = mset (map (\<lambda>i. dat (d ! i)) [0..<n])"
    using content_list [of "[0..<n]" d] by (simp add: atLeast0LessThan)
  also have "map (\<lambda>i. dat (d ! i)) [0..<n] = map dat d"
    using \<open>length d = n\<close> by (intro nth_equalityI) auto
  finally show ?thesis .
qed

section \<open>Insertion\<close>

text \<open>The split, also when there is nothing to split.\<close>

lemma split_phase:
  fixes info :: "('b, 'r) HASH" and d0 :: "'r HASH_LINK list" and n :: nat
  defines "s0 \<equiv> \<lparr>flag = 0, gpos = NO_RECORD, ptr_to_rec = None, gpos2 = NO_RECORD,
    ptr_to_rec2 = None, empty = n, links = d0\<rparr>"
  assumes c: "chained d0 {..<n} (home info)" and n: "length d0 = Suc n" and f: "f < n"
    and h1: "\<And>r. h1 r = (if home info r = f \<and> rec_hashnr info r AND half \<noteq> 0 then n else home info r)"
  shows "\<exists>s. Option.bind (split_loop info half f s0 f) split_finish = Some s \<and>
    chained (links s) ({..<Suc n} - {empty s}) h1 \<and> content (links s) ({..<Suc n} - {empty s}) = content d0 {..<n} \<and>
    length (links s) = Suc n \<and> empty s < Suc n"
proof (cases "home info (dat (d0 ! f)) = f")
  case False
  have nf: "home info (dat (d0 ! i)) \<noteq> f" if "i < n" for i
    using chained_home_used(2) [OF c, of i] that False by fastforce
  have "split_loop info half f s0 f = Some s0"
    using False n f by (subst split_loop.simps) (simp add: s0_def Let_def)
  moreover have "split_finish s0 = Some s0" by (simp add: split_finish_def s0_def)
  moreover have "chained d0 {..<n} h1"
    by (rule chained_home_cong [OF c]) (use nf in \<open>simp add: h1\<close>)
  moreover have "{..<Suc n} - {n} = {..<n}" by auto
  ultimately show ?thesis using n by (simp add: s0_def)
next
  case True
  obtain ps where ps: "path d0 f ps NO_RECORD" "ps \<noteq> []" "set ps = {i \<in> {..<n}. home info (dat (d0 ! i)) = f}"
    using chained_at [OF c, of f] f True by force
  then obtain xs where xs: "ps = f # xs" by (cases ps) auto
  let ?hi = "\<lambda>r. rec_hashnr info r AND half \<noteq> 0"
  have "split_inv d0 n f ?hi s0 [] f [] []"
    by (simp add: split_inv_def s0_def side_none layout_init)
  moreover have "length d0 \<le> NO_RECORD" using c by (simp add: chained_def)
  then have "\<forall>q\<in>insert n (set ps). q < length d0 \<and> q \<noteq> NO_RECORD"
    unfolding ps(3) using n by auto
  moreover have "n \<notin> set ps" unfolding ps(3) by simp
  ultimately obtain s la ha where s: "split_loop info half f s0 f = Some s" "split_inv d0 n f ?hi s ps NO_RECORD la ha"
    using split_loop_ok [of d0 n f ?hi s0 "[]" f "[]" "[]" xs info half] ps(1) chain_distinct [OF ps(1)] True xs by auto
  from split_finish_ok [OF s(2)] obtain d where d: "split_finish s = Some (s\<lparr>links := d\<rparr>)"
    "path d (if la = [] then NO_RECORD else f) la NO_RECORD" "map (\<lambda>i. dat (d ! i)) la = stays ?hi d0 ps"
    "path d (if ha = [] then NO_RECORD else n) ha NO_RECORD" "map (\<lambda>i. dat (d ! i)) ha = moves ?hi d0 ps"
    "layout d0 n f d ps (empty s) la ha" by blast
  note t = split_table [OF c n h1 ps d(6,2-5)]
  have "length d = Suc n" using d(6) n by (simp add: layout_def)
  then show ?thesis using s(1) d(1) t by simp
qed

text \<open>The home of a record once the table has one record more (before \<open>blength\<close> is doubled).\<close>

abbreviation home_Suc :: "('b, 'r) HASH \<Rightarrow> 'r \<Rightarrow> nat" where
  "home_Suc h \<equiv> \<lambda>r. hash_mask (rec_hashnr h r) (blength h) (Suc (records h))"

lemma home_Suc_lt:
  assumes "blength h = 2 ^ k" "size_ok k (records h)"
  shows "home_Suc h r < Suc (records h)"
proof (cases k)
  case 0
  then show ?thesis using assms by (simp add: size_ok_def hash_mask_def)
next
  case (Suc k')
  then have "home h r < records h" using hash_mask_lt [of k "records h" "rec_hashnr h r"] assms by (simp add: size_ok_def)
  then show ?thesis
    using assms Suc hash_mask_split [of k' "records h" "rec_hashnr h r"] by (simp del: power_Suc)
qed

lemma hash_mask_doubled:
  assumes "size_ok k n" "Suc n = 2 ^ k" "k \<le> 30"
  shows "hash_mask x (2 ^ Suc k) (Suc n) = hash_mask x (2 ^ k) (Suc n)"
  using assms hash_mask_double [of k x] hash_mask_full [of k x] by (simp del: power_Suc)

text \<open>\<open>size_ok\<close> after one record more.\<close>

lemma size_ok_Suc:
  assumes "size_ok k n" "n < 2147483647"
  shows "Suc n = 2 ^ k \<Longrightarrow> size_ok (Suc k) (Suc n) \<and> k \<le> 30" "Suc n \<noteq> 2 ^ k \<Longrightarrow> size_ok k (Suc n)"
proof -
  show "size_ok (Suc k) (Suc n) \<and> k \<le> 30" if "Suc n = 2 ^ k"
  proof -
    have "(2::nat) ^ k < 2 ^ 31" using that assms(2) by simp
    then have "k < 31" using power_less_imp_less_exp [of 2 k 31] by simp
    then show ?thesis using that by (simp add: size_ok_def)
  qed
  show "Suc n \<noteq> 2 ^ k \<Longrightarrow> size_ok k (Suc n)" using assms(1) by (auto simp: size_ok_def)
qed

lemma hash_insert_split:
  assumes inv: "hash_inv h" and rm: "records h < 2147483647"
  shows "\<exists>s. split_chain (h\<lparr>array := array h @ [junk], current_record := NO_RECORD\<rparr>) = Some s \<and>
    chained (links s) ({..<Suc (records h)} - {empty s}) (home_Suc h) \<and>
    content (links s) ({..<Suc (records h)} - {empty s}) = hash_records h \<and>
    length (links s) = Suc (records h) \<and> empty s < Suc (records h)"
proof -
  obtain k where k: "blength h = 2 ^ k" "size_ok k (records h)" and len: "length (array h) = records h"
    and c0: "chained (array h) {..<records h} (home h)" using inv by (auto simp: hash_inv_def)
  let ?n = "records h" and ?d0 = "array h @ [junk]"
  have ct: "content ?d0 {..<?n} = hash_records h"
    using content_all [OF len] content_cong [of "{..<?n}" ?d0 "array h"] len by (simp add: nth_append)
  show ?thesis
  proof (cases k)
    case 0
    then have n0: "?n = 0" using k by (simp add: size_ok_def)
    have "chained ?d0 {} (home_Suc h)" using len n0 by (intro chainedI) auto
    then show ?thesis using 0 k n0 ct len
      by (simp add: split_chain_def u32_sub_def content_def drop_bit_eq_div lessThan_Suc)
  next
    case (Suc k')
    have half: "drop_bit 1 (blength h) = 2 ^ k'" using k Suc by (simp add: drop_bit_eq_div)
    have n: "2 ^ k' \<le> ?n" "0 < (2::nat) ^ k'" using k Suc by (auto simp: size_ok_def)
    then have f: "u32_sub ?n (2 ^ k') = ?n - 2 ^ k'" "?n - 2 ^ k' < ?n"
      using rm by (simp, metis diff_less less_le_trans n)
    have "chained ?d0 {..<?n} (home h)"
      by (rule chained_transfer [OF c0]) (use len rm in \<open>auto simp: nth_append\<close>)
    moreover have "home_Suc h r = (if home h r = ?n - 2 ^ k' \<and> rec_hashnr h r AND 2 ^ k' \<noteq> 0 then ?n else home h r)" for r
      using hash_mask_split [of k' ?n "rec_hashnr h r"] k Suc by (simp del: power_Suc)
    ultimately show ?thesis
      using split_phase [of ?d0 ?n "h\<lparr>array := ?d0, current_record := NO_RECORD\<rparr>" "?n - 2 ^ k'" "home_Suc h" "2 ^ k'"] f len ct half
      by (simp add: split_chain_def Let_def cong: if_cong)
  qed
qed

lemma my_hash_insert_ok:
  assumes inv: "hash_inv h" and rm: "records h < 2147483647"
  shows "\<exists>h'. my_hash_insert True junk h rc = Some (h', False) \<and> hash_inv h' \<and>
    hash_records h' = add_mset rc (hash_records h) \<and> records h' = Suc (records h) \<and>
    (\<exists>a n b. h' = h\<lparr>array := a, records := n, blength := b, current_record := NO_RECORD\<rparr>)"
proof -
  obtain k where k: "blength h = 2 ^ k" "size_ok k (records h)" using inv by (auto simp: hash_inv_def)
  let ?n = "records h" and ?h0 = "h\<lparr>array := array h @ [junk], current_record := NO_RECORD\<rparr>"
  obtain s where s: "split_chain ?h0 = Some s"
    "chained (links s) ({..<Suc ?n} - {empty s}) (home_Suc h)"
    "content (links s) ({..<Suc ?n} - {empty s}) = hash_records h"
    "length (links s) = Suc ?n" "empty s < Suc ?n" using hash_insert_split [OF inv rm] by blast
  have "\<exists>d'. enter_record ?h0 (links s) (empty s) rc = Some d' \<and> chained d' {..<length (links s)} (home_Suc h) \<and>
    content d' {..<length (links s)} = add_mset rc (content (links s) ({..<Suc ?n} - {empty s})) \<and>
    length d' = length (links s)"
    by (rule enter_record_ok) (use s home_Suc_lt [OF k] rm in auto)
  then obtain d' where d': "enter_record ?h0 (links s) (empty s) rc = Some d'" "chained d' {..<Suc ?n} (home_Suc h)"
    "content d' {..<Suc ?n} = add_mset rc (hash_records h)" "length d' = Suc ?n" using s(3,4) by auto
  let ?b = "if Suc ?n = blength h then u32_add (blength h) (blength h) else blength h"
  let ?h' = "h\<lparr>array := d', records := Suc ?n, blength := ?b, current_record := NO_RECORD\<rparr>"
  have "my_hash_insert True junk h rc = Some (?h', False)"
    using s(1) d'(1) rm by (simp add: my_hash_insert_def Let_def)
  moreover have "hash_inv ?h'"
  proof (cases "Suc ?n = 2 ^ k")
    case True
    have "size_ok (Suc k) (Suc ?n)" "k \<le> 30" using size_ok_Suc(1) [OF k(2) rm True] by auto
    moreover have "u32_add (2 ^ k) (2 ^ k) = 2 ^ Suc k" using True rm by (subst True [symmetric])+ simp
    ultimately show ?thesis
      using k d'(2,4) True hash_mask_doubled [OF k(2) True] by (auto simp: hash_inv_def simp del: power_Suc)
  next
    case False
    then show ?thesis using size_ok_Suc(2) [OF k(2) rm False] k d'(2,4) by (auto simp: hash_inv_def)
  qed
  moreover have "hash_records ?h' = add_mset rc (hash_records h)"
    using d'(3) content_all [OF d'(4)] by simp
  moreover have "\<exists>a n b. ?h' = h\<lparr>array := a, records := n, blength := b, current_record := NO_RECORD\<rparr>"
    by blast
  moreover have "records ?h' = Suc ?n" by simp
  ultimately show ?thesis by blast
qed

end
