(* ===== verification/Hash_Delete.thy ===== *)
theory Hash_Delete
  imports Hash_Table
begin

text \<open>
  Deletion from a hash table.  The record is unlinked, which leaves one free place; then the last
  place of the array is emptied, where its chain and the chain at \<open>records - blength / 2\<close> are
  merged.
\<close>

unbundle bit_operations_syntax

section \<open>Finding and unlinking the record\<close>

lemma hash_delete_loop_path:
  assumes "path d p xs NO_RECORD" "xs \<noteq> []"
  shows "hash_delete_loop d rc g p =
    (case List.find (\<lambda>i. dat (d ! i) = rc) xs of None \<Rightarrow> Some None
     | Some q \<Rightarrow> Some (Some ((let us = takeWhile (\<lambda>i. dat (d ! i) \<noteq> rc) xs in if us = [] then g else Some (last us)), q)))"
  using assms
proof (induction xs arbitrary: p g)
  case (Cons x xs)
  have x: "p = x" "x < length d" "path d (next_link (d ! x)) xs NO_RECORD" using Cons.prems by auto
  show ?case
  proof (cases "dat (d ! x) = rc \<or> xs = []")
    case True
    then show ?thesis using x by (subst hash_delete_loop.simps) auto
  next
    case False
    then have "next_link (d ! x) \<noteq> NO_RECORD" using x(3) by (cases xs) auto
    then show ?thesis
      using x False Cons.IH [OF x(3)] by (subst hash_delete_loop.simps) (auto split: option.splits)
  qed
qed simp

text \<open>Every place in use leads to the end of its chain.\<close>

lemma chained_walk:
  assumes "chained d U hm" "p \<in> U"
  obtains xs where "path d p xs NO_RECORD" "xs \<noteq> []" "set xs \<subseteq> {i \<in> U. hm (dat (d ! i)) = hm (dat (d ! p))}"
proof -
  obtain ys where ys: "path d (hm (dat (d ! p))) ys NO_RECORD" "p \<in> set ys"
    "set ys = {i \<in> U. hm (dat (d ! i)) = hm (dat (d ! p))}"
    by (rule chained_at [OF assms])
  then obtain us vs where uv: "ys = us @ p # vs" by (meson split_list)
  then have "path d p (p # vs) NO_RECORD" using path_split ys(1) by blast
  moreover have "set (p # vs) \<subseteq> set ys" using uv by auto
  ultimately show ?thesis using that [of "p # vs"] ys(3) by simp
qed

text \<open>Changes confined to one chain leave the others alone.\<close>

lemma chained_other:
  assumes c: "chained d U hm" and "l \<noteq> j" "length d' = length d" "\<forall>i. i \<notin> {i \<in> U. hm (dat (d ! i)) = j} \<longrightarrow> d' ! i = d ! i"
  shows "\<exists>xs. path d' (if xs = [] then NO_RECORD else l) xs NO_RECORD \<and> set xs = {i \<in> U. hm (dat (d ! i)) = l}"
proof -
  obtain xs where xs: "path d (if xs = [] then NO_RECORD else l) xs NO_RECORD"
    "set xs = {i \<in> U. hm (dat (d ! i)) = l}" by (rule chained_chain [OF c])
  have "\<forall>i\<in>set xs. d' ! i = d ! i" unfolding xs(2) using assms(2,4) by blast
  then have "path d' (if xs = [] then NO_RECORD else l) xs NO_RECORD"
    using path_cong [of xs d' d] assms(3) xs(1) by metis
  then show ?thesis using xs(2) by blast
qed

text \<open>The record at \<open>p\<close> has a predecessor in its chain.\<close>

lemma unlink_inner:
  assumes c: "chained d U hm" and x: "path d j (us @ p # vs) NO_RECORD" "set (us @ p # vs) = {i \<in> U. hm (dat (d ! i)) = j}"
    and us: "us \<noteq> []"
  defines "d' \<equiv> d[last us := HASH_LINK (next_link (d ! p)) (dat (d ! last us))]"
  shows "chained d' (U - {p}) hm" "content d U = add_mset (dat (d ! p)) (content d' (U - {p}))" "last us < length d"
proof -
  let ?a = "last us"
  have dis: "distinct (us @ p # vs)" by (rule chain_distinct [OF x(1)])
  have pU: "p \<in> U" "hm (dat (d ! p)) = j" using x(2) by auto
  have a: "?a \<in> set us" "?a \<noteq> p" using us dis by auto
  show al: "?a < length d" using path_bound [OF x(1), of ?a] us by simp
  have dat: "dat (d' ! i) = dat (d ! i)" for i using al by (simp add: nth_list_update d'_def)
  show "chained d' (U - {p}) hm"
  proof (rule chainedI)
    fix l
    show "\<exists>xs. path d' (if xs = [] then NO_RECORD else l) xs NO_RECORD \<and>
      set xs = {i \<in> U - {p}. hm (dat (d' ! i)) = l}"
    proof (cases "l = j")
      case True
      have p1: "path d j us p" "path d (next_link (d ! p)) vs NO_RECORD" using path_split [OF x(1)] by auto
      have "path d' j us (next_link (d ! p))" unfolding d'_def by (rule path_relink [OF p1(1) us]) (use dis in simp)
      moreover have "?a \<notin> set vs" using a dis by auto
      then have "path d' (next_link (d ! p)) vs NO_RECORD" using p1(2) by (simp add: d'_def)
      ultimately have "path d' j (us @ vs) NO_RECORD" by (auto simp: path_append)
      moreover have "{i \<in> U - {p}. hm (dat (d' ! i)) = j} = set (us @ p # vs) - {p}" unfolding x(2) dat by blast
      then have "set (us @ vs) = {i \<in> U - {p}. hm (dat (d' ! i)) = j}" using dis by auto
      ultimately show ?thesis using True us by (intro exI [of _ "us @ vs"]) simp
    next
      case False
      then have "{i \<in> U - {p}. hm (dat (d' ! i)) = l} = {i \<in> U. hm (dat (d ! i)) = l}"
        using pU by (auto simp: dat)
      moreover have "\<forall>i. i \<notin> {i \<in> U. hm (dat (d ! i)) = j} \<longrightarrow> d' ! i = d ! i"
        unfolding x(2) [symmetric] d'_def using a(1) by (metis UnI1 nth_list_update_neq set_append)
      ultimately show ?thesis using chained_other [OF c False, of d'] by (simp add: d'_def)
    qed
  qed (use c in \<open>auto simp: chained_def d'_def\<close>)
  show "content d U = add_mset (dat (d ! p)) (content d' (U - {p}))"
    using content_remove [OF chained_finite [OF c] pU(1), of d] content_cong [of "U - {p}" d' d] dat by simp
qed

text \<open>The record at \<open>p\<close> is alone in its chain.\<close>

lemma unlink_single:
  assumes c: "chained d U hm" and x: "path d p [p] NO_RECORD" "{p} = {i \<in> U. hm (dat (d ! i)) = p}"
  shows "chained d (U - {p}) hm"
proof (rule chainedI)
  fix l
  have "{i \<in> U - {p}. hm (dat (d ! i)) = l} = (if l = p then {} else {i \<in> U. hm (dat (d ! i)) = l})"
    using x(2) by auto
  then show "\<exists>xs. path d (if xs = [] then NO_RECORD else l) xs NO_RECORD \<and>
      set xs = {i \<in> U - {p}. hm (dat (d ! i)) = l}" using chained_other [OF c, of l p d] by (cases "l = p") auto
qed (use c in \<open>auto simp: chained_def\<close>)

text \<open>The record at \<open>p\<close> is the head of its chain; the next one takes its place.\<close>

lemma unlink_head:
  assumes c: "chained d U hm" and x: "path d p (p # q # ws) NO_RECORD" "set (p # q # ws) = {i \<in> U. hm (dat (d ! i)) = p}"
  defines "d' \<equiv> d[p := d ! q]"
  shows "chained d' (U - {q}) hm" "content d U = add_mset (dat (d ! p)) (content d' (U - {q}))"
proof -
  have dis: "distinct (p # q # ws)" by (rule chain_distinct [OF x(1)])
  have q: "q < length d" "q \<in> U" "q \<noteq> p" "hm (dat (d ! q)) = p" "p < length d" "p \<in> U" "hm (dat (d ! p)) = p"
    "p \<noteq> NO_RECORD"
    using x dis by auto
  have fin: "finite U" by (rule chained_finite [OF c])
  have dat: "hm (dat (d' ! i)) = hm (dat (d ! i))" for i using q by (cases "i = p") (auto simp: d'_def)
  show "chained d' (U - {q}) hm"
  proof (rule chainedI)
    fix l
    show "\<exists>xs. path d' (if xs = [] then NO_RECORD else l) xs NO_RECORD \<and>
      set xs = {i \<in> U - {q}. hm (dat (d' ! i)) = l}"
    proof (cases "l = p")
      case True
      have "path d' (next_link (d ! q)) ws NO_RECORD" using x(1) dis by (auto simp: d'_def)
      then have "path d' p (p # ws) NO_RECORD" using q by (simp add: d'_def)
      moreover have "{i \<in> U - {q}. hm (dat (d' ! i)) = p} = set (p # q # ws) - {q}" unfolding x(2) dat by blast
      then have "set (p # ws) = {i \<in> U - {q}. hm (dat (d' ! i)) = p}" using dis by auto
      ultimately show ?thesis using True by (intro exI [of _ "p # ws"]) simp
    next
      case False
      then have "{i \<in> U - {q}. hm (dat (d' ! i)) = l} = {i \<in> U. hm (dat (d ! i)) = l}"
        using q(4) by (auto simp: dat)
      moreover have "\<forall>i. i \<notin> {i \<in> U. hm (dat (d ! i)) = p} \<longrightarrow> d' ! i = d ! i"
        unfolding x(2) [symmetric] by (auto simp: d'_def)
      ultimately show ?thesis using chained_other [OF c False, of d'] by (simp add: d'_def)
    qed
  qed (use c in \<open>auto simp: chained_def d'_def\<close>)
  have "content d U = add_mset (dat (d ! p)) (add_mset (dat (d ! q)) (content d (U - {p} - {q})))"
    using content_remove [OF fin q(6), of d] content_remove [of "U - {p}" q d] fin q by simp
  moreover have "content d' (U - {q}) = add_mset (dat (d ! q)) (content d' (U - {q} - {p}))"
    using content_remove [of "U - {q}" p d'] fin q by (simp add: d'_def)
  moreover have "U - {q} - {p} = U - {p} - {q}" by blast
  ultimately show "content d U = add_mset (dat (d ! p)) (content d' (U - {q}))" by (simp add: d'_def)
qed

lemma unlink_ok:
  assumes c: "chained d U hm" and x: "path d j (us @ p # vs) NO_RECORD" "set (us @ p # vs) = {i \<in> U. hm (dat (d ! i)) = j}"
  shows "\<exists>d' e. hash_unlink d (if us = [] then None else Some (last us)) p = Some (d', e) \<and>
    chained d' (U - {e}) hm \<and> content d U = add_mset (dat (d ! p)) (content d' (U - {e})) \<and>
    e \<in> U \<and> length d' = length d"
proof -
  have pU: "p \<in> U" using x(2) by auto
  have pl: "p < length d" using path_bound [OF x(1), of p] by simp
  show ?thesis
  proof (cases "us = []")
    case False
    then show ?thesis using unlink_inner [OF c x False] pl pU by (simp add: hash_unlink_def)
  next
    case us: True
    then have x': "path d p (p # vs) NO_RECORD" "set (p # vs) = {i \<in> U. hm (dat (d ! i)) = p}" using x by auto
    show ?thesis
    proof (cases vs)
      case Nil
      have "chained d (U - {p}) hm" by (rule unlink_single [OF c]) (use x' Nil in auto)
      then show ?thesis
        using us x' Nil pl pU content_remove [OF chained_finite [OF c] pU, of d] by (simp add: hash_unlink_def)
    next
      case (Cons q ws)
      have "q \<in> U" "q < length d" "next_link (d ! p) = q" "q \<noteq> NO_RECORD" using x' Cons by auto
      then show ?thesis
        using us pl unlink_head [OF c x' [unfolded Cons]] by (simp add: hash_unlink_def)
    qed
  qed
qed

section \<open>Emptying the last place\<close>

text \<open>The homes change from \<open>h1\<close> to \<open>h0\<close>: the chain at \<open>n\<close> joins the one at \<open>f\<close>.  When nothing has
  home \<open>n\<close>, no chain changes.\<close>

lemma rehome_none:
  assumes c: "chained d U h1" and "n \<notin> U" and h0: "\<And>r. h0 r = (if h1 r = n then f else h1 r)"
  shows "chained d U h0"
  by (rule chained_home_cong [OF c]) (use chained_home_used(1) [OF c] assms(2) in \<open>auto simp: h0\<close>)

text \<open>When place \<open>f\<close> is free, the head of the chain at \<open>n\<close> is copied there.\<close>

lemma rehome_head:
  assumes c: "chained d U h1" and n: "n \<in> U" "h1 (dat (d ! n)) = n" and f: "f \<notin> U" "f < length d" "d ! f = d ! n"
    and h0: "\<And>r. h0 r = (if h1 r = n then f else h1 r)"
  shows "chained d (insert f (U - {n})) h0" "content d (insert f (U - {n})) = content d U"
proof -
  have ne: "f \<noteq> n" "f \<noteq> NO_RECORD" using n f c by (auto simp: chained_def)
  have nof: "h1 (dat (d ! i)) \<noteq> f" if "i \<in> U" for i using chained_home_used(1) [OF c that] f(1) by auto
  have sets: "{i \<in> insert f (U - {n}). h0 (dat (d ! i)) = j} =
      (if j = f then insert f ({i \<in> U. h1 (dat (d ! i)) = n} - {n})
       else if j = n then {} else {i \<in> U. h1 (dat (d ! i)) = j})" for j
    using nof n(2) f(3) ne(1) by (auto simp: h0)
  show "chained d (insert f (U - {n})) h0"
  proof (rule chainedI)
    fix j
    obtain xs where xs: "path d n xs NO_RECORD" "xs \<noteq> []" "set xs = {i \<in> U. h1 (dat (d ! i)) = n}"
      using chained_at [OF c n(1)] unfolding n(2) by blast
    then obtain ws where ws: "xs = n # ws" by (cases xs) auto
    have "path d f (f # ws) NO_RECORD" using xs(1) ws f ne by simp
    moreover have "set (f # ws) = insert f ({i \<in> U. h1 (dat (d ! i)) = n} - {n})"
      using xs(3) ws chain_distinct [OF xs(1)] by (metis Diff_insert_absorb distinct.simps(2) list.simps(15))
    ultimately have "\<exists>xs. path d (if xs = [] then NO_RECORD else j) xs NO_RECORD \<and>
        set xs = insert f ({i \<in> U. h1 (dat (d ! i)) = n} - {n})" if "j = f"
      unfolding that by (intro exI [of _ "f # ws"]) simp
    moreover have "\<exists>xs. path d (if xs = [] then NO_RECORD else j) xs NO_RECORD \<and> set xs = {}"
      by (intro exI [of _ "[]"]) simp
    moreover have "\<exists>ys. path d (if ys = [] then NO_RECORD else j) ys NO_RECORD \<and>
      set ys = {i \<in> U. h1 (dat (d ! i)) = j}" using c unfolding chained_def by blast
    ultimately show "\<exists>xs. path d (if xs = [] then NO_RECORD else j) xs NO_RECORD \<and>
        set xs = {i \<in> insert f (U - {n}). h0 (dat (d ! i)) = j}"
      unfolding sets by (cases "j = f"; cases "j = n") simp_all
  qed (use c f in \<open>auto simp: chained_def\<close>)
  show "content d (insert f (U - {n})) = content d U"
    using content_remove [OF chained_finite [OF c] n(1), of d] content_insert [of "U - {n}" f d]
      chained_finite [OF c] f by simp
qed

text \<open>Linking the places \<open>us\<close> after \<open>n\<close>, now with \<open>e\<close> instead of \<open>n\<close>, in between \<open>f\<close> and its successors.\<close>

definition merge_links :: "'r HASH_LINK list \<Rightarrow> nat \<Rightarrow> nat \<Rightarrow> nat \<Rightarrow> nat \<Rightarrow> 'r HASH_LINK list option" where
  "merge_links d n f e idx =
     do {
       lastpos \<leftarrow> rd d n;
       d \<leftarrow> wr d e lastpos;
       pos \<leftarrow> rd d f;
       d \<leftarrow> movelink d idx e (next_link pos);
       pos \<leftarrow> rd d f;
       wr d f (HASH_LINK e (dat pos))
     }"

lemma merge_links_ok:
  assumes us: "path d n (n # us) idx" "idx \<notin> set (n # us)" "idx \<noteq> e" and vs: "path d (next_link (d ! f)) vs NO_RECORD"
    and dis: "distinct (n # us @ f # vs)" and e: "e \<notin> set (n # us @ f # vs)" "e < length d" "e \<noteq> NO_RECORD"
    and f: "f < length d" "f \<noteq> NO_RECORD"
  shows "\<exists>d'. merge_links d n f e idx = Some d' \<and> path d' f (f # e # us @ vs) NO_RECORD \<and> length d' = length d \<and>
    (\<forall>i. dat (d' ! i) = (if i = e then dat (d ! n) else dat (d ! i))) \<and>
    (\<forall>i. i \<notin> set (e # f # us) \<longrightarrow> d' ! i = d ! i)"
proof -
  let ?d1 = "d[e := d ! n]" and ?a = "last (e # us)" and ?k = "next_link (d ! f)"
  have n: "n < length d" "path d (next_link (d ! n)) us idx" using us(1) by auto
  have p1: "path ?d1 e (e # us) idx" using n e by simp
  let ?d2 = "?d1[?a := HASH_LINK ?k (dat (?d1 ! ?a))]"
  have a: "?a \<in> set (e # us)" "?a \<noteq> f" "?a < length d" "?a \<notin> set vs"
  proof -
    show ae: "?a \<in> set (e # us)" using last_in_set [of "e # us"] by blast
    then show "?a \<noteq> f" "?a \<notin> set vs" using dis e(1) by auto
    show "?a < length d" using path_bound [OF p1 ae] by simp
  qed
  have mv: "movelink ?d1 idx e ?k = Some ?d2"
    by (rule movelink_path [OF p1]) (use us(2,3) in auto)
  let ?d3 = "?d2[f := HASH_LINK e (dat (d ! f))]"
  have d2f: "?d2 ! f = d ! f" using a e(1) by (simp add: nth_list_update)
  have run: "merge_links d n f e idx = Some ?d3"
    unfolding merge_links_def using n(1) e f mv d2f by (simp add: nth_list_update)
  have "path ?d2 e (e # us) ?k" by (rule path_relink [OF p1]) (use dis e(1) in auto)
  moreover have "path ?d2 ?k vs NO_RECORD" using vs a(4) e(1) by simp
  ultimately have "path ?d2 e ((e # us) @ vs) NO_RECORD" unfolding path_append by blast
  moreover have "f \<notin> set ((e # us) @ vs)" using dis e(1) by auto
  ultimately have "path ?d3 e ((e # us) @ vs) NO_RECORD" by (subst path_upd)
  then have "path ?d3 f (f # e # us @ vs) NO_RECORD" using f by simp
  moreover have "dat (?d3 ! i) = (if i = e then dat (d ! n) else dat (d ! i))" for i
    using a e f dis by (auto simp: nth_list_update)
  moreover have "?d3 ! i = d ! i" if "i \<notin> set (e # f # us)" for i
  proof -
    have "i \<noteq> ?a" using that a(1) by auto
    then show ?thesis using that by simp
  qed
  ultimately show ?thesis using run by (intro exI [of _ ?d3]) simp
qed

text \<open>The chains at \<open>n\<close> and \<open>f\<close>: the record at \<open>f\<close> is in the chain at \<open>n\<close>, and then there is no
  other chain, or it is the head of its own.\<close>

lemma two_chains:
  assumes c: "chained d U h1" and n: "n \<in> U" "h1 (dat (d ! n)) = n" and f: "f \<in> U" "f \<noteq> n"
    "h1 (dat (d ! f)) = n \<or> h1 (dat (d ! f)) = f"
  obtains us vs where "path d n (n # us) (if h1 (dat (d ! f)) = n then f else NO_RECORD)"
    "path d (next_link (d ! f)) vs NO_RECORD" "distinct (n # us @ f # vs)"
    "set (n # us @ f # vs) = {i \<in> U. h1 (dat (d ! i)) = n} \<union> {i \<in> U. h1 (dat (d ! i)) = f}"
proof -
  obtain xs where xs: "path d n xs NO_RECORD" "xs \<noteq> []" "set xs = {i \<in> U. h1 (dat (d ! i)) = n}"
    using chained_at [OF c n(1)] unfolding n(2) by blast
  then obtain ws where ws: "xs = n # ws" by (cases xs) auto
  have dx: "distinct xs" by (rule chain_distinct [OF xs(1)])
  show thesis
  proof (cases "h1 (dat (d ! f)) = n")
    case True
    then have "f \<in> set ws" using xs(3) f ws by auto
    then obtain us vs where w: "ws = us @ f # vs" by (meson split_list)
    have "\<not> (\<exists>i\<in>U. h1 (dat (d ! i)) = f)" using chained_home_used(2) [OF c] True f(2) by metis
    moreover have "path d n (n # us) f" "path d (next_link (d ! f)) vs NO_RECORD"
      using path_split [of d n "n # us" f vs NO_RECORD] xs(1) ws w by auto
    ultimately show thesis using that [of us vs] dx xs(3) ws w True by auto
  next
    case False
    then have hf: "h1 (dat (d ! f)) = f" using f(3) by blast
    obtain ys where ys: "path d f ys NO_RECORD" "ys \<noteq> []" "set ys = {i \<in> U. h1 (dat (d ! i)) = f}"
      using chained_at [OF c f(1)] unfolding hf by blast
    then obtain vs where v: "ys = f # vs" by (cases ys) auto
    have "set xs \<inter> set ys = {}" unfolding xs(3) ys(3) using f(2) by auto
    then have "distinct (n # ws @ f # vs)" "set (n # ws @ f # vs) = set xs \<union> set ys"
      using dx chain_distinct [OF ys(1)] ws v by auto
    then show thesis using that [of ws vs] xs ys ws v False by auto
  qed
qed

lemma merge_chains:
  assumes c: "chained d U h1" and n: "n \<in> U" "h1 (dat (d ! n)) = n" and f: "f \<in> U" "f \<noteq> n"
    "h1 (dat (d ! f)) = n \<or> h1 (dat (d ! f)) = f"
    and e: "e \<notin> U" "e < length d" and h0: "\<And>r. h0 r = (if h1 r = n then f else h1 r)"
  shows "\<exists>d'. merge_links d n f e (if h1 (dat (d ! f)) = n then f else NO_RECORD) = Some d' \<and>
    chained d' (insert e (U - {n})) h0 \<and> content d' (insert e (U - {n})) = content d U \<and> length d' = length d"
proof -
  let ?idx = "if h1 (dat (d ! f)) = n then f else NO_RECORD"
  have len: "length d \<le> NO_RECORD" "U \<subseteq> {..<length d}" using c by (auto simp: chained_def)
  have bd: "e \<noteq> NO_RECORD" "f < length d" "f \<noteq> NO_RECORD" using len e f(1) by auto
  obtain us vs where uv: "path d n (n # us) ?idx" "path d (next_link (d ! f)) vs NO_RECORD"
    "distinct (n # us @ f # vs)" "set (n # us @ f # vs) = {i \<in> U. h1 (dat (d ! i)) = n} \<union> {i \<in> U. h1 (dat (d ! i)) = f}"
    by (rule two_chains [OF c n f])
  have eU: "e \<notin> set (n # us @ f # vs)" using uv(4) e(1) by blast
  have "?idx \<notin> set (n # us)" "?idx \<noteq> e" using uv(3) eU bd(1) path_bound [OF uv(1)] by auto
  from merge_links_ok [OF uv(1) this uv(2,3) eU e(2) bd] obtain d' where d': "merge_links d n f e ?idx = Some d'"
    "path d' f (f # e # us @ vs) NO_RECORD" "length d' = length d"
    "\<And>i. dat (d' ! i) = (if i = e then dat (d ! n) else dat (d ! i))" "\<And>i. i \<notin> set (e # f # us) \<Longrightarrow> d' ! i = d ! i"
    by blast
  have sets: "{i \<in> insert e (U - {n}). h0 (dat (d' ! i)) = j} =
      (if j = f then insert e (set (n # us @ f # vs) - {n}) else if j = n then {} else {i \<in> U. h1 (dat (d ! i)) = j})" for j
    unfolding uv(4) using e(1) f(2) n(2) by (auto simp: d'(4) h0)
  have "chained d' (insert e (U - {n})) h0"
  proof (rule chainedI)
    fix j
    have "set (f # e # us @ vs) = insert e (set (n # us @ f # vs) - {n})" using uv(3) by auto
    then have "\<exists>xs. path d' (if xs = [] then NO_RECORD else j) xs NO_RECORD \<and>
        set xs = insert e (set (n # us @ f # vs) - {n})" if "j = f"
      unfolding that using d'(2) by (intro exI [of _ "f # e # us @ vs"]) simp
    moreover have "\<exists>xs. path d' (if xs = [] then NO_RECORD else j) xs NO_RECORD \<and> set xs = {}"
      by (intro exI [of _ "[]"]) simp
    moreover have "\<exists>xs. path d' (if xs = [] then NO_RECORD else j) xs NO_RECORD \<and> set xs = {i \<in> U. h1 (dat (d ! i)) = j}"
      if "j \<noteq> f" "j \<noteq> n"
    proof -
      obtain xs where xs: "path d (if xs = [] then NO_RECORD else j) xs NO_RECORD"
        "set xs = {i \<in> U. h1 (dat (d ! i)) = j}" by (rule chained_chain [OF c])
      have "set xs \<inter> set (n # us @ f # vs) = {}" "e \<notin> set xs" unfolding xs(2) uv(4) using that e(1) by blast+
      then have "d' ! i = d ! i" if "i \<in> set xs" for i using that by (intro d'(5)) auto
      then have "\<forall>i\<in>set xs. d' ! i = d ! i" by blast
      then show ?thesis using xs path_cong [of xs d' d] d'(3) by metis
    qed
    ultimately show "\<exists>xs. path d' (if xs = [] then NO_RECORD else j) xs NO_RECORD \<and>
        set xs = {i \<in> insert e (U - {n}). h0 (dat (d' ! i)) = j}"
      unfolding sets by (cases "j = f"; cases "j = n") simp_all
  qed (use len e d'(3) in auto)
  moreover have "content d' (insert e (U - {n})) = content d U"
    using content_remove [OF chained_finite [OF c] n(1), of d] content_insert [of "U - {n}" e d'] e(1)
      content_cong [of "U - {n}" d' d] chained_finite [OF c] d'(4) by simp
  ultimately show ?thesis using d'(1,3) by blast
qed

text \<open>\<open>move_last\<close>: the place \<open>n\<close> is emptied, \<open>e\<close> being the free place; \<open>h1\<close> are the homes before and
  \<open>h0\<close> those after the deletion.\<close>

lemma move_last_homes:
  assumes h0: "\<And>r. hash_mask (rec_hashnr h r) (blength h) (records h) = h0 r"
    and h1: "\<And>r. hash_mask (rec_hashnr h r) blen (u32_add (records h) 1) = h1 r"
    and n: "records h = n" "n < length d" and e: "e \<noteq> n"
  shows "move_last h blen d e =
    (let p = h0 (dat (d ! n)) in
     if p = e then wr d e (d ! n)
     else do {
       pos \<leftarrow> rd d p;
       if p \<noteq> h0 (dat pos) then do {
         d1 \<leftarrow> wr d e pos;
         d2 \<leftarrow> wr d1 p (d ! n);
         movelink d2 p (h0 (dat pos)) e
       }
       else if h1 (dat (d ! n)) = h1 (dat pos) \<and> h1 (dat (d ! n)) \<noteq> n then do {
         d1 \<leftarrow> wr d e (d ! n);
         movelink d1 n p e
       }
       else merge_links d n p e (if h1 (dat (d ! n)) = h1 (dat pos) then p else NO_RECORD)
     })"
  unfolding move_last_def merge_links_def Let_def h0 h1 using n e by (simp add: Let_def cong: if_cong)

lemma move_last_ok:
  assumes c: "chained d ({..<Suc n} - {e}) h1" and len: "length d = Suc n" and e: "e < Suc n"
    and h0: "\<And>r. hash_mask (rec_hashnr h r) (blength h) (records h) = h0 r" and n: "records h = n"
    and h1: "\<And>r. hash_mask (rec_hashnr h r) blen (u32_add (records h) 1) = h1 r"
    and h01: "0 < n \<Longrightarrow> f < n \<and> (\<forall>r. h0 r = (if h1 r = n then f else h1 r))"
  shows "\<exists>d'. move_last h blen d e = Some d' \<and> chained d' {..<n} h0 \<and>
    content d' {..<n} = content d ({..<Suc n} - {e}) \<and> length d' = Suc n"
proof (cases "e = n")
  case True
  then have U: "{..<Suc n} - {e} = {..<n}" by auto
  have "chained d {..<n} h0"
  proof (cases "n = 0")
    case True
    then show ?thesis using c len U unfolding chained_def by auto
  next
    case False
    then show ?thesis using rehome_none [OF c [unfolded U], of n h0 f] h01 by simp
  qed
  then show ?thesis using True n len U by (simp add: move_last_def)
next
  case False
  let ?U = "{..<Suc n} - {e}" and ?L = "dat (d ! n)"
  have hh: "f < n" "\<And>r. h0 r = (if h1 r = n then f else h1 r)" using h01 e False by auto
  have en: "n \<in> ?U" "e \<notin> ?U" "n < length d" "e < length d" using e False len by auto
  have U: "insert e (?U - {n}) = {..<n}" using False e by auto
  define q where "q = h0 ?L"
  define P where "P = dat (d ! q)"
  note ml = move_last_homes [where d = d and e = e, OF h0 h1 n en(3) False, unfolded Let_def, folded q_def]
  have Lc: "h1 ?L \<in> ?U" "h1 ?L \<noteq> n \<Longrightarrow> q = h1 ?L \<and> h1 P = q" "h1 ?L = n \<Longrightarrow> q = f"
    using chained_home_used [OF c en(1)] hh(2) by (auto simp: q_def P_def)
  show ?thesis
  proof (cases "q = e")
    case True
    have Ln: "h1 ?L = n" using Lc True en(2) by auto
    let ?d = "d[e := d ! n]"
    have cd: "chained ?d ?U h1" by (rule chained_upd [OF c en(2)])
    have "?d ! n = d ! n" "?d ! e = ?d ! n" using False en by auto
    then have "chained ?d (insert e (?U - {n})) h0" "content ?d (insert e (?U - {n})) = content ?d ?U"
      using rehome_head [OF cd en(1) _ en(2), of h0] Ln en hh(2) Lc(3) True by auto
    moreover have "content ?d ?U = content d ?U" using en(2) by simp
    ultimately show ?thesis unfolding U using True ml en len by simp
  next
    case pe: False
    have p: "q \<in> ?U" "q \<noteq> n" "q < length d" using Lc pe hh(1) len by (cases "h1 ?L = n"; auto)+
    consider (wrong) "q \<noteq> h0 P" | (same) "q = h0 P" "h1 ?L = h1 P" "h1 ?L \<noteq> n"
      | (merge) "q = h0 P" "\<not> (h1 ?L = h1 P \<and> h1 ?L \<noteq> n)" by blast
    then show ?thesis
    proof cases
      case wrong
      have Ln: "h1 ?L = n" using Lc(2) wrong hh(2) [of P] by (metis p(2))
      have Pn: "h1 P \<noteq> n" "h1 P \<noteq> q" "h0 P = h1 P"
        using wrong Lc(3) [OF Ln] hh(2) [of P] p(2) by (auto split: if_splits)
      let ?d1 = "d[e := d ! q, q := d ! n]"
      have "length ?d1 = length d" "\<forall>i\<in>?U - {q}. ?d1 ! i = d ! i" "?d1 ! e = d ! q"
        using en p pe by (auto simp: nth_list_update)
      from relocate [OF c p(1) Pn(2) [unfolded P_def] en(2,4) this, folded P_def] obtain d2 where d2: "movelink ?d1 q (h1 P) e = Some d2"
        "chained d2 (insert e (?U - {q})) h1" "content d2 (insert e (?U - {q})) = content d ?U"
        "d2 ! q = ?d1 ! q" "length d2 = length d" "\<forall>i. h1 (dat (d ! i)) \<noteq> h1 P \<longrightarrow> d2 ! i = ?d1 ! i" by blast
      have "d2 ! n = d ! n" "d2 ! q = d2 ! n" using d2(4,6) Ln Pn(1) p en False by auto
      then have "chained d2 (insert q (insert e (?U - {q}) - {n})) h0"
        "content d2 (insert q (insert e (?U - {q}) - {n})) = content d ?U"
        using rehome_head [OF d2(2), of n q h0] d2(3,5) Ln Lc(3) p en pe hh(2) False by auto
      moreover have "insert q (insert e (?U - {q}) - {n}) = {..<n}" using p False e by auto
      ultimately show ?thesis using ml wrong pe p en d2(1,5) Pn(3) len by (simp flip: P_def)
    next
      case same
      have pL: "q = h1 ?L" using Lc(2) [OF same(3)] by blast
      let ?d1 = "d[e := d ! n]"
      have "length ?d1 = length d" "\<forall>i\<in>?U - {n}. ?d1 ! i = d ! i" "?d1 ! e = d ! n"
        using en by auto
      from relocate [OF c en(1) same(3) en(2,4) this] obtain d2 where d2: "movelink ?d1 n (h1 ?L) e = Some d2"
        "chained d2 {..<n} h1" "content d2 {..<n} = content d ?U" "length d2 = length d" unfolding U by blast
      have "chained d2 {..<n} h0" using rehome_none [OF d2(2), of n h0 f] hh(2) by simp
      then show ?thesis
        using ml same(1) [symmetric] same(2,3) pe p(3) en(4) d2 pL [symmetric] len by (simp flip: P_def)
    next
      case merge
      have Ln: "h1 ?L = n" using Lc(2) merge by metis
      have pf: "q = f" by (rule Lc(3) [OF Ln])
      have "h1 P = n \<or> h1 P = q" using merge(1) hh(2) [of P] by (auto split: if_splits)
      from merge_chains [OF c en(1) Ln p(1,2) this [unfolded P_def] en(2,4), of h0, folded P_def] obtain d' where
        "merge_links d n q e (if h1 P = n then q else NO_RECORD) = Some d'" "chained d' {..<n} h0"
        "content d' {..<n} = content d ?U" "length d' = length d" unfolding U pf using hh(2) by blast
      then show ?thesis using ml merge(1) [symmetric] merge(2) pe p(3) Ln len by (simp add: eq_commute [of n] flip: P_def)
    qed
  qed
qed

end
