(* ===== verification/Hash_Ops.thy ===== *)
theory Hash_Ops
  imports Hash_Delete
begin

text \<open>
  The operations of a hash table as a whole: deletion, search, the loop over equal keys, the
  self-check, update; the interface \<open>record_index\<close> and its interpretation; the properties.
\<close>

unbundle bit_operations_syntax

section \<open>Deletion\<close>

text \<open>The sizes before and after a deletion.\<close>

lemma split_home:
  assumes "size_ok (Suc k) m" "0 < m"
  shows "m - 2 ^ k < m \<and> hash_mask x (2 ^ Suc k) m =
    (if hash_mask x (2 ^ Suc k) (Suc m) = m then m - 2 ^ k else hash_mask x (2 ^ Suc k) (Suc m))"
  using hash_mask_split [OF assms(1), of x] hash_mask_lt [OF assms, of x] assms by auto

lemma shrink:
  fixes k :: nat
  assumes sz: "size_ok k (Suc m)"
  defines "b \<equiv> if m < drop_bit 1 (2 ^ k) then drop_bit 1 (2 ^ k) else 2 ^ k"
  shows "\<exists>k' f. b = 2 ^ k' \<and> size_ok k' m \<and> (0 < m \<longrightarrow> f < m \<and> (\<forall>x. hash_mask x b m =
     (if hash_mask x (2 ^ k) (Suc m) = m then f else hash_mask x (2 ^ k) (Suc m))))"
proof -
  obtain j where k: "k = Suc j" using sz by (cases k) (auto simp: size_ok_def)
  then have j: "drop_bit 1 ((2::nat) ^ k) = 2 ^ j" "2 ^ j \<le> Suc m" "Suc m < 2 ^ Suc j" "j \<le> 30"
    using sz by (auto simp: size_ok_def drop_bit_eq_div)
  show ?thesis
  proof (cases "m < 2 ^ j")
    case True
    then have b: "b = 2 ^ j" and m: "Suc m = 2 ^ j" using j by (auto simp: b_def)
    have szj: "size_ok j m" using m j by (auto simp: size_ok_def)
    show ?thesis
    proof (cases j)
      case 0
      then show ?thesis using b szj m by (intro exI [of _ j]) auto
    next
      case (Suc i)
      have "hash_mask x (2 ^ k) (Suc m) = hash_mask x (2 ^ j) (Suc m)" for x
        unfolding k by (rule hash_mask_doubled [OF szj m j(4)])
      then show ?thesis using b szj split_home [of i m] Suc
        by (intro exI [of _ j] exI [of _ "m - 2 ^ i"]) (simp del: power_Suc)
    qed
  next
    case False
    then have b: "b = 2 ^ k" using j by (simp add: b_def)
    have szk: "size_ok k m" using False j k by (auto simp: size_ok_def)
    show ?thesis using b szk split_home [of j m] k
      by (intro exI [of _ k] exI [of _ "m - 2 ^ j"]) (simp del: power_Suc)
  qed
qed

lemma find_takeWhile:
  "List.find P xs = Some p \<Longrightarrow> P p \<and> (\<exists>vs. xs = takeWhile (\<lambda>x. \<not> P x) xs @ p # vs)"
  by (induction xs) (auto split: if_splits)

text \<open>The search of \<open>hash_delete\<close> for a record pointer.\<close>

lemma hash_delete_find:
  assumes c: "chained d U hm" and j: "hm rc \<in> U"
  shows "if \<exists>i\<in>U. dat (d ! i) = rc then
      \<exists>us p vs. hash_delete_loop d rc None (hm rc) = Some (Some (if us = [] then None else Some (last us), p)) \<and>
        dat (d ! p) = rc \<and> path d (hm rc) (us @ p # vs) NO_RECORD \<and> set (us @ p # vs) = {i \<in> U. hm (dat (d ! i)) = hm rc}
    else hash_delete_loop d rc None (hm rc) = Some None"
proof (cases "\<exists>i\<in>U. dat (d ! i) = rc")
  case True
  then obtain i where i: "i \<in> U" "dat (d ! i) = rc" by blast
  obtain xs where xs: "path d (hm rc) xs NO_RECORD" "xs \<noteq> []" "i \<in> set xs" "set xs = {i \<in> U. hm (dat (d ! i)) = hm rc}"
    using chained_at [OF c i(1)] unfolding i(2) by blast
  obtain p where p: "List.find (\<lambda>i. dat (d ! i) = rc) xs = Some p"
    using xs(3) i(2) by (cases "List.find (\<lambda>i. dat (d ! i) = rc) xs") (auto simp: find_None_iff)
  let ?us = "takeWhile (\<lambda>i. dat (d ! i) \<noteq> rc) xs"
  obtain vs where "dat (d ! p) = rc" "xs = ?us @ p # vs" using find_takeWhile [OF p] by blast
  moreover have "hash_delete_loop d rc None (hm rc) = Some (Some (if ?us = [] then None else Some (last ?us), p))"
    unfolding hash_delete_loop_path [OF xs(1,2)] p by (simp add: Let_def)
  ultimately have "hash_delete_loop d rc None (hm rc) = Some (Some (if ?us = [] then None else Some (last ?us), p)) \<and>
        dat (d ! p) = rc \<and> path d (hm rc) (?us @ p # vs) NO_RECORD \<and> set (?us @ p # vs) = {i \<in> U. hm (dat (d ! i)) = hm rc}"
    using xs(1,4) by simp
  then show ?thesis unfolding if_P [OF True] by blast
next
  case False
  obtain xs where xs: "path d (hm rc) xs NO_RECORD" "xs \<noteq> []" "set xs \<subseteq> {i \<in> U. hm (dat (d ! i)) = hm (dat (d ! hm rc))}"
    by (rule chained_walk [OF c j])
  then have "List.find (\<lambda>i. dat (d ! i) = rc) xs = None" using False by (auto simp: find_None_iff)
  then show ?thesis using False unfolding hash_delete_loop_path [OF xs(1,2)] by simp
qed

lemma hash_records_iff: "length (array h) = n \<Longrightarrow> rc \<in># hash_records h \<longleftrightarrow> (\<exists>i\<in>{..<n}. dat (array h ! i) = rc)"
  by (auto simp: in_set_conv_nth) (metis nth_mem image_eqI)

text \<open>The table after the deletion.\<close>

definition shrunk :: "('b, 'r) HASH \<Rightarrow> 'r HASH_LINK list \<Rightarrow> 'r \<Rightarrow> ('b, 'r) HASH" where
  "shrunk h d rc = h\<lparr>records := records h - 1,
     blength := (if records h - 1 < drop_bit 1 (blength h) then drop_bit 1 (blength h) else blength h),
     current_record := NO_RECORD, array := d, freed := freed h @ (if free h then [rc] else [])\<rparr>"

lemma hash_delete_ok:
  assumes inv: "hash_inv h"
  shows "if rc \<in># hash_records h then
      \<exists>d. hash_delete h rc = Some (shrunk h d rc, False) \<and> hash_inv (shrunk h d rc) \<and>
        hash_records h = add_mset rc (mset (map dat d))
    else hash_delete h rc = Some (h, True)"
proof (cases "records h")
  case 0
  then show ?thesis using inv by (simp add: hash_inv_def hash_delete_def)
next
  case (Suc m)
  obtain k where k: "blength h = 2 ^ k" "size_ok k (Suc m)" and len: "length (array h) = Suc m"
    and c: "chained (array h) {..<Suc m} (home h)" using inv Suc by (auto simp: hash_inv_def)
  have j: "home h rc \<in> {..<Suc m}" using hash_mask_lt [OF k(2)] k(1) Suc by simp
  note fnd = hash_delete_find [OF c j]
  have rin: "rc \<in># hash_records h \<longleftrightarrow> (\<exists>i\<in>{..<Suc m}. dat (array h ! i) = rc)" by (rule hash_records_iff [OF len])
  show ?thesis
  proof (cases "rc \<in># hash_records h")
    case False
    then show ?thesis using fnd rin Suc by (simp add: hash_delete_def)
  next
    case True
    then obtain us p vs where f: "hash_delete_loop (array h) rc None (home h rc) =
        Some (Some (if us = [] then None else Some (last us), p))" "dat (array h ! p) = rc"
      "path (array h) (home h rc) (us @ p # vs) NO_RECORD"
      "set (us @ p # vs) = {i \<in> {..<Suc m}. home h (dat (array h ! i)) = home h rc}"
      using fnd unfolding rin [symmetric] by auto
    obtain d1 e where d1: "hash_unlink (array h) (if us = [] then None else Some (last us)) p = Some (d1, e)"
      "chained d1 ({..<Suc m} - {e}) (home h)"
      "content (array h) {..<Suc m} = add_mset rc (content d1 ({..<Suc m} - {e}))" "e < Suc m" "length d1 = Suc m"
      using unlink_ok [OF c f(3,4)] f(2) len by auto
    let ?b = "if m < drop_bit 1 (blength h) then drop_bit 1 (blength h) else blength h"
    let ?h = "h\<lparr>records := m, blength := ?b, current_record := NO_RECORD\<rparr>"
    obtain k' g where g: "?b = 2 ^ k'" "size_ok k' m"
      "0 < m \<longrightarrow> g < m \<and> (\<forall>x. hash_mask x ?b m = (if hash_mask x (blength h) (Suc m) = m then g else hash_mask x (blength h) (Suc m)))"
      using shrink [OF k(2)] unfolding k(1) by blast
    have "Suc m < 2 ^ k" "k \<le> 31" using k(2) by (auto simp: size_ok_def)
    then have "Suc m < 2 ^ 31" by (meson less_le_trans one_le_numeral power_increasing)
    then have u: "u32_add m 1 = Suc m" by simp
    have "\<exists>d2. move_last ?h (blength h) d1 e = Some d2 \<and> chained d2 {..<m} (home ?h) \<and>
        content d2 {..<m} = content d1 ({..<Suc m} - {e}) \<and> length d2 = Suc m"
      by (rule move_last_ok [OF d1(2,5,4), where f = g]) (use u Suc g(3) in simp_all)
    then obtain d2 where d2: "move_last ?h (blength h) d1 e = Some d2" "chained d2 {..<m} (home ?h)"
      "content d2 {..<m} = content d1 ({..<Suc m} - {e})" "length d2 = Suc m" by blast
    have "hash_delete h rc = Some (shrunk h (butlast d2) rc, False)"
      using Suc f(1) d1(1) d2(1) by (simp add: hash_delete_def Let_def shrunk_def)
    moreover have "chained (butlast d2) {..<m} (home ?h)"
      by (rule chained_transfer [OF d2(2)]) (use d2(4) \<open>Suc m < 2 ^ 31\<close> in \<open>auto simp: nth_butlast\<close>)
    then have "hash_inv (shrunk h (butlast d2) rc)"
      using g(1,2) d2(4) Suc by (auto simp: hash_inv_def shrunk_def)
    moreover have "content (butlast d2) {..<m} = content d2 {..<m}"
      using d2(4) by (intro content_cong) (simp add: nth_butlast)
    then have "hash_records h = add_mset rc (mset (map dat (butlast d2)))"
      using d1(3) d2(3,4) content_all [OF len] content_all [of "butlast d2" m] by simp
    ultimately show ?thesis using True by auto
  qed
qed

section \<open>Search\<close>

text \<open>The records a key matches.\<close>

definition matches :: "('b, 'r) HASH \<Rightarrow> 'b list \<Rightarrow> nat \<Rightarrow> 'r \<Rightarrow> bool" where
  "matches h key len r \<longleftrightarrow> \<not> hashcmp h (HASH_LINK 0 r) key len"

lemma hashcmp_matches: "hashcmp h pos key len \<longleftrightarrow> \<not> matches h key len (dat pos)"
  by (simp add: matches_def hashcmp_def)

text \<open>What the character set promises: records that compare equal to the key have its hash
  number.\<close>

definition hash_compatible :: "('b, 'r) HASH \<Rightarrow> 'b list \<Rightarrow> nat \<Rightarrow> bool" where
  "hash_compatible h key len \<longleftrightarrow> (\<forall>r\<in>#hash_records h. matches h key len r \<longrightarrow>
     rec_hashnr h r = calc_hash h (take (if len \<noteq> 0 then len else key_length h) key))"

abbreviation key_home :: "('b, 'r) HASH \<Rightarrow> 'b list \<Rightarrow> nat \<Rightarrow> nat" where
  "key_home h key len \<equiv> hash_mask (calc_hash h (take (if len \<noteq> 0 then len else key_length h) key)) (blength h) (records h)"

lemma hash_search_loop_path:
  assumes "path (array h) i xs NO_RECORD" "xs \<noteq> []"
    "fl0 \<Longrightarrow> home h (dat (array h ! i)) = i"
  shows "hash_search_loop h key len fl0 i = Some (List.find (\<lambda>i. matches h key len (dat (array h ! i))) xs)"
  using assms
proof (induction xs arbitrary: i fl0)
  case (Cons x xs)
  have x: "i = x" "x < length (array h)" "path (array h) (next_link (array h ! x)) xs NO_RECORD" using Cons.prems by auto
  have fl: "\<not> (fl0 \<and> hash_rec_mask h (array h ! x) (blength h) (records h) \<noteq> x)"
    using Cons.prems(3) x(1) by (auto simp: hash_rec_mask_def rec_hashnr_def)
  show ?case
  proof (cases "xs = []")
    case True
    then show ?thesis using x fl by (subst hash_search_loop.simps) (auto simp: hashcmp_matches)
  next
    case False
    then have "next_link (array h ! x) \<noteq> NO_RECORD" using x(3) by (cases xs) auto
    then show ?thesis using x fl Cons.IH [OF x(3) False, of False]
      by (subst hash_search_loop.simps) (auto simp: hashcmp_matches)
  qed
qed simp

text \<open>The places that hold matching records are on the chain at the key's home.\<close>

lemma hash_search_ok:
  assumes inv: "hash_inv h" and n: "0 < records h" and comp: "hash_compatible h key len"
  obtains xs where "path (array h) (if xs = [] then NO_RECORD else key_home h key len) xs NO_RECORD"
    "hash_search_loop h key len True (key_home h key len) = Some (List.find (\<lambda>i. matches h key len (dat (array h ! i))) xs)"
    "mset (map (\<lambda>i. dat (array h ! i)) (filter (\<lambda>i. matches h key len (dat (array h ! i))) xs)) =
       filter_mset (matches h key len) (hash_records h)"
proof -
  let ?d = "array h" and ?j = "key_home h key len" and ?m = "\<lambda>i. matches h key len (dat (array h ! i))"
  obtain k where k: "blength h = 2 ^ k" "size_ok k (records h)" and len: "length ?d = records h"
    and c: "chained ?d {..<records h} (home h)" using inv by (auto simp: hash_inv_def)
  have j: "?j < records h" using hash_mask_lt [OF k(2) n] k(1) by simp
  have mh: "home h (dat (?d ! i)) = ?j" if "i < records h" "?m i" for i
    using comp that len unfolding hash_compatible_def by (simp add: nth_mem)
  obtain xs where xs: "path ?d (if xs = [] then NO_RECORD else ?j) xs NO_RECORD"
    "set xs = {i \<in> {..<records h}. home h (dat (?d ! i)) = ?j}" by (rule chained_chain [OF c])
  have dx: "distinct xs" by (rule chain_distinct [OF xs(1)])
  have sf: "{i \<in> {..<records h}. ?m i} = set (filter ?m xs)" using xs(2) mh by auto
  have "mset (map (\<lambda>i. dat (?d ! i)) (filter ?m xs)) = image_mset (\<lambda>i. dat (?d ! i)) (mset_set {i \<in> {..<records h}. ?m i})"
    unfolding sf mset_set_set [OF distinct_filter [OF dx]] by simp
  also have "\<dots> = filter_mset (matches h key len) (content ?d {..<records h})"
    by (simp add: content_def filter_mset_image_mset)
  also have "content ?d {..<records h} = hash_records h" by (rule content_all [OF len])
  finally have ms: "mset (map (\<lambda>i. dat (?d ! i)) (filter ?m xs)) = filter_mset (matches h key len) (hash_records h)" .
  have "hash_search_loop h key len True ?j = Some (List.find ?m xs)"
  proof (cases "xs = []")
    case True
    then have "home h (dat (?d ! ?j)) \<noteq> ?j" "\<not> ?m ?j" using xs(2) j mh by auto
    then show ?thesis using True j len
      by (subst hash_search_loop.simps) (simp add: hashcmp_matches hash_rec_mask_def rec_hashnr_def)
  next
    case False
    then have p: "path ?d ?j xs NO_RECORD" using xs(1) by simp
    then have "?j \<in> set xs" using False path_hd [OF p] by simp
    then show ?thesis by (intro hash_search_loop_path [OF p False]) (simp add: xs(2))
  qed
  then show ?thesis using that xs(1) ms by blast
qed

text \<open>The loop of the callers: \<open>hash_search\<close> for the first record of a key, then \<open>hash_next\<close> until it
  returns a null pointer.\<close>

partial_function (option) hash_next_all :: "('b, 'r) HASH \<Rightarrow> 'b list \<Rightarrow> nat \<Rightarrow> 'r list option" where
  "hash_next_all h key len =
     do {
       (h', r) \<leftarrow> hash_next h key len;
       case r of
         None \<Rightarrow> Some []
       | Some r' \<Rightarrow> do { rs \<leftarrow> hash_next_all h' key len; Some (r' # rs) }
     }"

definition hash_find_all :: "('b, 'r) HASH \<Rightarrow> 'b list \<Rightarrow> nat \<Rightarrow> 'r list option" where
  "hash_find_all h key len =
     do {
       (h', r) \<leftarrow> hash_search h key len;
       case r of
         None \<Rightarrow> Some []
       | Some r' \<Rightarrow> do { rs \<leftarrow> hash_next_all h' key len; Some (r' # rs) }
     }"

lemma hash_next_loop_path:
  assumes "path (array h) i xs NO_RECORD"
  shows "hash_next_loop h key len i = Some (List.find (\<lambda>i. matches h key len (dat (array h ! i))) xs)"
  using assms
proof (induction xs arbitrary: i)
  case Nil
  then show ?case by (subst hash_next_loop.simps) simp
next
  case (Cons x xs)
  then show ?case by (subst hash_next_loop.simps) (auto simp: hashcmp_matches)
qed

lemma matches_upd [simp]: "matches (h\<lparr>current_record := c\<rparr>) = matches h"
  by (simp add: fun_eq_iff matches_def hashcmp_def hash_key_def split: option.split)

lemma find_filter: "List.find P xs = Some p \<Longrightarrow> \<exists>us vs. xs = us @ p # vs \<and> filter P xs = p # filter P vs"
proof -
  assume "List.find P xs = Some p"
  from find_takeWhile [OF this] obtain vs where vs: "P p" "xs = takeWhile (\<lambda>x. \<not> P x) xs @ p # vs" by auto
  have "filter P (takeWhile (\<lambda>x. \<not> P x) xs) = []" by (auto simp: filter_empty_conv dest: set_takeWhileD)
  then have "filter P (takeWhile (\<lambda>x. \<not> P x) xs @ p # vs) = p # filter P vs" using vs(1) by simp
  then show ?thesis using vs(2) by metis
qed

lemma hash_next_all_path:
  assumes "path (array h) (current_record h) (current_record h # ys) NO_RECORD"
  shows "hash_next_all h key len =
    Some (map (\<lambda>i. dat (array h ! i)) (filter (\<lambda>i. matches h key len (dat (array h ! i))) ys))"
  using assms
proof (induction "length ys" arbitrary: h ys rule: less_induct)
  case less
  let ?m = "\<lambda>i. matches h key len (dat (array h ! i))" and ?c = "current_record h"
  have c: "?c < length (array h)" "?c \<noteq> NO_RECORD" "path (array h) (next_link (array h ! ?c)) ys NO_RECORD"
    using less.prems by auto
  note loop = hash_next_loop_path [OF c(3), of key len]
  show ?case
  proof (cases "List.find ?m ys")
    case None
    then have "filter ?m ys = []" by (simp add: find_None_iff filter_empty_conv)
    then show ?thesis using c loop None by (subst hash_next_all.simps) (simp add: hash_next_def)
  next
    case (Some p)
    then obtain us vs where uv: "ys = us @ p # vs" "filter ?m ys = p # filter ?m vs"
      using find_filter [OF Some] by auto
    then have p: "path (array h) p (p # vs) NO_RECORD" using path_split [OF c(3) [unfolded uv(1)]] by simp
    then have pl: "p < length (array h)" by simp
    have "hash_next_all (h\<lparr>current_record := p\<rparr>) key len = Some (map (\<lambda>i. dat (array h ! i)) (filter ?m vs))"
      using less.hyps [of vs "h\<lparr>current_record := p\<rparr>"] uv(1) p by simp
    then show ?thesis using c loop Some uv(2) pl by (subst hash_next_all.simps) (simp add: hash_next_def)
  qed
qed

lemma hash_find_all_ok:
  assumes inv: "hash_inv h" and comp: "hash_compatible h key len"
  shows "\<exists>rs. hash_find_all h key len = Some rs \<and> mset rs = filter_mset (matches h key len) (hash_records h)"
proof (cases "records h = 0")
  case True
  then show ?thesis using inv by (simp add: hash_find_all_def hash_search_def hash_inv_def)
next
  case False
  let ?m = "\<lambda>i. matches h key len (dat (array h ! i))"
  obtain xs where xs: "path (array h) (if xs = [] then NO_RECORD else key_home h key len) xs NO_RECORD"
    "hash_search_loop h key len True (key_home h key len) = Some (List.find ?m xs)"
    "mset (map (\<lambda>i. dat (array h ! i)) (filter ?m xs)) = filter_mset (matches h key len) (hash_records h)"
    using hash_search_ok [OF inv _ comp] False by blast
  have "hash_find_all h key len = Some (map (\<lambda>i. dat (array h ! i)) (filter ?m xs))"
  proof (cases "List.find ?m xs")
    case None
    then have "filter ?m xs = []" by (simp add: find_None_iff filter_empty_conv)
    then show ?thesis using None xs(2) False by (simp add: hash_find_all_def hash_search_def)
  next
    case (Some p)
    then obtain us vs where uv: "xs = us @ p # vs" "filter ?m xs = p # filter ?m vs"
      using find_filter [OF Some] by auto
    then have p: "path (array h) p (p # vs) NO_RECORD"
      using path_split [OF xs(1) [unfolded uv(1)]] by simp
    then have "hash_next_all (h\<lparr>current_record := p\<rparr>) key len = Some (map (\<lambda>i. dat (array h ! i)) (filter ?m vs))"
      using hash_next_all_path [of "h\<lparr>current_record := p\<rparr>" vs key len] by simp
    then show ?thesis using Some xs(2) False uv(2) p by (simp add: hash_find_all_def hash_search_def)
  qed
  then show ?thesis using xs(3) by blast
qed

section \<open>The self-check\<close>

lemma hash_check_chain_path:
  assumes "path (array h) j xs NO_RECORD" "\<forall>i\<in>set xs. home h (dat (array h ! i)) = i0 \<and> i < records h"
    "found + length xs \<le> records h"
  shows "hash_check_chain h i0 j found False = Some (found + length xs, False)"
  using assms
proof (induction xs arbitrary: j found)
  case Nil
  then show ?case by (subst hash_check_chain.simps) simp
next
  case (Cons x xs)
  then show ?case
    by (subst hash_check_chain.simps) (auto simp: hash_rec_mask_def rec_hashnr_def)
qed

lemma hash_check_loop_ok:
  fixes h :: "('b, 'r) HASH"
  defines "low \<equiv> \<lambda>i. card {p \<in> {..<records h}. home h (dat (array h ! p)) < i}"
  assumes c: "chained (array h) {..<records h} (home h)" and len: "length (array h) = records h"
    and "i \<le> records h"
  shows "hash_check_loop h [i..<records h] (low i) False = Some (low (records h), False)"
  using assms(4)
proof (induction "records h - i" arbitrary: i)
  case 0
  then show ?case by simp
next
  case (Suc k)
  then have i: "i < records h" "[i..<records h] = i # [Suc i..<records h]" by (auto simp: upt_conv_Cons)
  have IH: "hash_check_loop h [Suc i..<records h] (low (Suc i)) False = Some (low (records h), False)"
    by (rule Suc.hyps(1)) (use Suc in auto)
  let ?C = "{p \<in> {..<records h}. home h (dat (array h ! p)) = i}"
  have "{p \<in> {..<records h}. home h (dat (array h ! p)) < Suc i} = {p \<in> {..<records h}. home h (dat (array h ! p)) < i} \<union> ?C"
    by auto
  then have low: "low (Suc i) = low i + card ?C" unfolding low_def by (simp only:) (rule card_Un_disjoint, auto)
  have bound: "low (Suc i) \<le> records h" 
    unfolding low_def using card_mono [of "{..<records h}" "{p \<in> {..<records h}. home h (dat (array h ! p)) < Suc i}"] by auto
  show ?case
  proof (cases "home h (dat (array h ! i)) = i")
    case True
    obtain xs where xs: "path (array h) i xs NO_RECORD" "xs \<noteq> []" "set xs = ?C"
      using chained_at [OF c, of i] i(1) unfolding True by blast
    then obtain ys where ys: "xs = i # ys" by (cases xs) auto
    have "card ?C = length xs" using xs(3) chain_distinct [OF xs(1)] distinct_card by metis
    then have "low (Suc i) = low i + 1 + length ys" using low ys by simp
    moreover have "path (array h) (next_link (array h ! i)) ys NO_RECORD" using xs(1) ys by simp
    then have "hash_check_chain h i (next_link (array h ! i)) (low i + 1) False = Some (low i + 1 + length ys, False)"
    proof (rule hash_check_chain_path)
      show "\<forall>p\<in>set ys. home h (dat (array h ! p)) = i \<and> p < records h" using xs(3) ys by auto
      show "low i + 1 + length ys \<le> records h" using calculation bound by simp
    qed
    ultimately show ?thesis using True i IH len by (simp add: hash_rec_mask_def rec_hashnr_def)
  next
    case False
    then have "?C = {}" using chained_home_used(2) [OF c] by auto
    then have "low (Suc i) = low i" using low by simp
    then show ?thesis using False i IH len by (simp add: hash_rec_mask_def rec_hashnr_def)
  qed
qed

lemma hash_check_ok:
  assumes "hash_inv h"
  shows "hash_check h = Some False"
proof -
  have c: "chained (array h) {..<records h} (home h)" and len: "length (array h) = records h"
    using assms by (auto simp: hash_inv_def)
  have "home h (dat (array h ! p)) < records h" if "p < records h" for p
    using chained_home_used(1) [OF c, of p] that by simp
  then have "{p \<in> {..<records h}. home h (dat (array h ! p)) < records h} = {..<records h}" by auto
  then show ?thesis using hash_check_loop_ok [OF c len, of 0] by (simp add: hash_check_def)
qed

section \<open>Tables as indexes of records\<close>

definition hash_put :: "'r HASH_LINK \<Rightarrow> ('b, 'r) HASH \<Rightarrow> 'r \<Rightarrow> ('b, 'r) HASH option" where
  "hash_put junk h r = (case my_hash_insert True junk h r of Some (h', False) \<Rightarrow> Some h' | _ \<Rightarrow> None)"

definition hash_del :: "('b, 'r) HASH \<Rightarrow> 'r \<Rightarrow> ('b, 'r) HASH option" where
  "hash_del h r = (case hash_delete h r of Some (h', False) \<Rightarrow> Some h' | _ \<Rightarrow> None)"

text \<open>Keys, of explicit length, for which the hash number respects the comparison.\<close>

definition good_key :: "('b, 'r) HASH \<Rightarrow> 'b list \<times> nat \<Rightarrow> bool" where
  "good_key h k \<longleftrightarrow> (\<forall>r. matches h (fst k) (snd k) r \<longrightarrow>
     rec_hashnr h r = calc_hash h (take (if snd k \<noteq> 0 then snd k else key_length h) (fst k)))"

lemma key_functions_upd:
  assumes "key_offset h' = key_offset h" "key_length h' = key_length h" "get_key h' = get_key h"
    "bytes h' = bytes h" "hash_sort h' = hash_sort h" "strnncoll h' = strnncoll h"
  shows "matches h' = matches h" "good_key h' = good_key h"
proof -
  have k: "hash_key h' = hash_key h" "calc_hash h' = calc_hash h"
    by (intro ext, simp add: hash_key_def calc_hash_def assms split: option.split)+
  show "matches h' = matches h" by (intro ext, simp add: matches_def hashcmp_def k assms)
  then show "good_key h' = good_key h" by (intro ext, simp add: good_key_def rec_hashnr_def k assms)
qed

interpretation mysys_hash: record_index "hash_put junk" hash_del "\<lambda>h k. hash_find_all h (fst k) (snd k)"
  hash_records "\<lambda>h k. matches h (fst k) (snd k)" good_key "\<lambda>h. 2147483647 - records h" hash_inv
  for junk :: "'r HASH_LINK"
proof
  fix h :: "('b, 'r) HASH" and r :: 'r and k :: "'b list \<times> nat"
  assume inv: "hash_inv h"
  show "\<exists>rs. hash_find_all h (fst k) (snd k) = Some rs \<and> mset rs = filter_mset (matches h (fst k) (snd k)) (hash_records h)"
    if "good_key h k"
    by (rule hash_find_all_ok [OF inv]) (use that in \<open>auto simp: hash_compatible_def good_key_def\<close>)
  show "\<exists>h'. hash_put junk h r = Some h' \<and> hash_inv h' \<and> hash_records h' = add_mset r (hash_records h) \<and>
      (\<lambda>k. matches h' (fst k) (snd k)) = (\<lambda>k. matches h (fst k) (snd k)) \<and> good_key h' = good_key h \<and>
      2147483647 - records h \<le> Suc (2147483647 - records h')" if room: "0 < 2147483647 - records h"
  proof -
    obtain h' a n b where h': "my_hash_insert True junk h r = Some (h', False)" "hash_inv h'"
      "hash_records h' = add_mset r (hash_records h)" "records h' = Suc (records h)"
      "h' = h\<lparr>array := a, records := n, blength := b, current_record := NO_RECORD\<rparr>"
      using my_hash_insert_ok [OF inv room [unfolded zero_less_diff], of junk r] by blast
    have "matches h' = matches h" "good_key h' = good_key h" by (rule key_functions_upd; simp add: h'(5))+
    then show ?thesis using h' by (auto simp: hash_put_def)
  qed
  show "\<exists>h'. hash_del h r = Some h' \<and> hash_inv h' \<and> hash_records h = add_mset r (hash_records h') \<and>
      (\<lambda>k. matches h' (fst k) (snd k)) = (\<lambda>k. matches h (fst k) (snd k)) \<and> good_key h' = good_key h"
    if mem: "r \<in># hash_records h"
  proof -
    obtain d where d: "hash_delete h r = Some (shrunk h d r, False)" "hash_inv (shrunk h d r)"
      "hash_records h = add_mset r (mset (map dat d))" using hash_delete_ok [OF inv, of r] mem by (auto simp del: mset_map)
    have "matches (shrunk h d r) = matches h" "good_key (shrunk h d r) = good_key h"
      by (rule key_functions_upd; simp add: shrunk_def)+
    then show ?thesis using d by (auto simp: hash_del_def shrunk_def)
  qed
qed

lemma hash_init_inv:
  assumes "hash_init True h srt cmp off len gk fr flgs = (h', err)"
  shows "\<not> err" "hash_inv h'" "records h' = 0" "hash_records h' = {#}"
proof -
  have h': "h' = h\<lparr>records := 0, array := [], key_offset := off, key_length := len, blength := 1,
      current_record := NO_RECORD, get_key := gk, free := fr, flags := flgs, hash_sort := srt, strnncoll := cmp\<rparr>" "\<not> err"
    using assms by (auto simp: hash_init_def Let_def)
  have "chained [] {..<0} hm" for hm :: "'b \<Rightarrow> nat" by (rule chainedI) auto
  then show "\<not> err" "hash_inv h'" "records h' = 0" "hash_records h' = {#}"
    unfolding h' by (auto simp: hash_inv_def size_ok_def intro!: exI [of _ 0] h'(2))
qed

section \<open>Properties\<close>

text \<open>A table of numbers as record pointers; the key of a record is one byte, which is its own
  hash number.\<close>

definition byte_table :: "(nat \<Rightarrow> nat) \<Rightarrow> (nat, nat) HASH" where
  "byte_table key = \<lparr>key_offset = 0, key_length = 1, records = 0, blength = 1, current_record = NO_RECORD,
     flags = 0, array = [], get_key = None, free = True, bytes = (\<lambda>r. [key r]),
     hash_sort = (\<lambda>k (nr, nr2). (if k = [] then 0 else hd k, nr2)), strnncoll = (\<lambda>a b. if a = b then 0 else 1),
     freed = []\<rparr>"

lemma byte_table_inv: "hash_inv (byte_table key)" "hash_records (byte_table key) = {#}" "records (byte_table key) = 0"
proof -
  have "hash_init True (byte_table key) (hash_sort (byte_table key)) (strnncoll (byte_table key)) 0 1 None True 0
    = (byte_table key, False)" by (simp add: hash_init_def byte_table_def)
  from hash_init_inv [OF this] show "hash_inv (byte_table key)" "hash_records (byte_table key) = {#}"
    "records (byte_table key) = 0" by auto
qed

text \<open>C5 After \<open>hash_init\<close>, any sequence of insertions that the counter can hold and any sequence
  of deletions of records that are present all succeed, and \<open>hash_search\<close> followed by \<open>hash_next\<close>
  then enumerates exactly the remaining records whose key equals the key searched, for every
  character set in which equal keys have equal hash numbers.\<close>

theorem hash_table_index:
  assumes "hash_init True h0 srt cmp off len gk fr flgs = (h, err)"
    and "length ins < 2147483648" and "mset dels \<subseteq># mset ins" and "good_key h (key, n)"
  shows "\<exists>h1 h2 fs. fold_opt (hash_put junk) h ins = Some h1 \<and> fold_opt hash_del h1 dels = Some h2 \<and>
    hash_find_all h2 key n = Some fs \<and> mset fs = filter_mset (matches h key n) (mset ins - mset dels)"
  using mysys_hash.put_del_find [of h ins dels "(key, n)" junk] hash_init_inv [OF assms(1)] assms(2-) by simp

lemma hash_table_index_witness:
  "\<exists>h1 h2 fs. fold_opt (hash_put (HASH_LINK 0 0)) (byte_table (\<lambda>r. r mod 5)) [10, 11, 15] = Some h1 \<and>
     fold_opt hash_del h1 [10] = Some h2 \<and> hash_find_all h2 [0] 1 = Some fs \<and> mset fs = {#15#}"
proof -
  let ?t = "byte_table (\<lambda>r. r mod 5)"
  have "hash_init True ?t (hash_sort ?t) (strnncoll ?t) 0 1 None True 0 = (?t, False)"
    by (simp add: hash_init_def byte_table_def)
  moreover have "good_key ?t ([0], 1)"
    by (auto simp: good_key_def matches_def hashcmp_def hash_key_def rec_hashnr_def calc_hash_def byte_table_def split: if_splits)
  moreover have "filter_mset (matches ?t [0] 1) (mset [10, 11, 15] - mset [10]) = {#15#}"
    by (simp add: matches_def hashcmp_def hash_key_def byte_table_def)
  ultimately show ?thesis
    using hash_table_index [of ?t "hash_sort ?t" "strnncoll ?t" 0 1 None True 0 ?t False "[10, 11, 15]" "[10]" "[0]" 1 "HASH_LINK 0 0"]
    by simp
qed

text \<open>C16 Insertion keeps the table well formed (every record is in the chain of its home place)
  and adds exactly the record given; it always returns.\<close>

theorem my_hash_insert_correct:
  assumes "hash_inv h" "records h < 2147483647"
  shows "\<exists>h'. my_hash_insert True junk h rc = Some (h', False) \<and> hash_inv h' \<and>
    hash_records h' = add_mset rc (hash_records h) \<and> records h' = Suc (records h)"
  using my_hash_insert_ok [OF assms] by blast

lemma my_hash_insert_correct_witness:
  "\<exists>h'. my_hash_insert True (HASH_LINK 0 0) (byte_table id) 7 = Some (h', False) \<and> hash_inv h' \<and>
    hash_records h' = {#7#} \<and> records h' = 1"
  using my_hash_insert_correct [of "byte_table id" "HASH_LINK 0 0" 7] byte_table_inv [of id] by simp

text \<open>C17 Deletion removes exactly one occurrence of the record, hands it to the free function when
  there is one, and keeps the table well formed; a record that is not in the table is reported and
  the table is unchanged.  It always returns.\<close>

theorem hash_delete_correct:
  assumes "hash_inv h"
  shows "if rc \<in># hash_records h
    then \<exists>h'. hash_delete h rc = Some (h', False) \<and> hash_inv h' \<and> hash_records h' = hash_records h - {#rc#} \<and>
      freed h' = freed h @ (if free h then [rc] else [])
    else hash_delete h rc = Some (h, True)"
proof (cases "rc \<in># hash_records h")
  case True
  then obtain d where d: "hash_delete h rc = Some (shrunk h d rc, False)" "hash_inv (shrunk h d rc)"
    "hash_records h = add_mset rc (mset (map dat d))" using hash_delete_ok [OF assms, of rc] by auto
  have "hash_records (shrunk h d rc) = hash_records h - {#rc#}" unfolding d(3) by (simp add: shrunk_def)
  moreover have "freed (shrunk h d rc) = freed h @ (if free h then [rc] else [])" by (simp add: shrunk_def)
  ultimately show ?thesis using d(1,2) True by auto
next
  case False
  then show ?thesis using hash_delete_ok [OF assms, of rc] by auto
qed

lemma hash_delete_correct_witness: "hash_delete (byte_table id) 3 = Some (byte_table id, True)"
  using hash_delete_correct [of "byte_table id" 3] byte_table_inv [of id] by simp

text \<open>The debugging check of the table accepts every well-formed table: it finds each record
  once, in the chain of its home place.\<close>

theorem hash_check_accepts: "hash_inv h \<Longrightarrow> hash_check h = Some False"
  by (rule hash_check_ok)

lemma hash_check_accepts_witness: "hash_check (byte_table id) = Some False"
  using hash_check_accepts [of "byte_table id"] byte_table_inv by blast

text \<open>\<open>my_hash_reset\<close> leaves an empty well-formed table and hands every record of the table to
  the free function exactly once; \<open>hash_free\<close> frees the same records and switches freeing off.\<close>

theorem hash_reset_frees:
  assumes "hash_inv h" "free h"
  shows "hash_inv (my_hash_reset h) \<and> hash_records (my_hash_reset h) = {#} \<and>
    mset (freed (my_hash_reset h)) = mset (freed h) + hash_records h \<and>
    freed (hash_free h) = freed (my_hash_reset h) \<and> \<not> free (hash_free h) \<and> freed (hash_free (hash_free h)) = freed (hash_free h)"
proof -
  have "chained [] {..<0} hm" for hm :: "'b \<Rightarrow> nat" by (rule chainedI) auto
  moreover have "length (array h) = records h" using assms(1) by (simp add: hash_inv_def)
  ultimately show ?thesis
    using assms by (simp add: my_hash_reset_def hash_free_def hash_free_elements_def hash_inv_def size_ok_def)
      (auto intro!: exI [of _ 0])
qed

lemma hash_reset_frees_witness: "freed (hash_free (hash_free (byte_table id))) = []"
  using hash_reset_frees [of "byte_table id"] byte_table_inv [of id]
  by (simp add: byte_table_def hash_free_def hash_free_elements_def)

text \<open>Two records with equal keys; the caller then gives the first one the key 1 and calls
  \<open>hash_update\<close>.\<close>

definition one_key :: "(nat, nat) HASH" where
  "one_key = (byte_table (\<lambda>r. 0))\<lparr>records := 1, blength := 2, array := [HASH_LINK NO_RECORD 11]\<rparr>"

definition two_equal_keys :: "(nat, nat) HASH" where
  "two_equal_keys = (byte_table (\<lambda>r. if r = 11 then 1 else 0))\<lparr>records := 2, blength := 4,
     array := [HASH_LINK 1 10, HASH_LINK NO_RECORD 11]\<rparr>"

definition after_update :: "(nat, nat) HASH" where
  "after_update = two_equal_keys\<lparr>array := [HASH_LINK NO_RECORD 10, HASH_LINK 1 11]\<rparr>"

lemmas byte_table_eval = byte_table_def one_key_def two_equal_keys_def after_update_def hash_mask_def rec_hashnr_def calc_hash_def
  hash_key_def hash_rec_mask_def hashcmp_def

lemma one_key_split:
  "split_chain (one_key\<lparr>array := array one_key @ [HASH_LINK 0 0], current_record := NO_RECORD\<rparr>) =
     Some \<lparr>flag = 3, gpos = 0, ptr_to_rec = Some 11, gpos2 = NO_RECORD, ptr_to_rec2 = None, empty = 1,
       links = [HASH_LINK NO_RECORD 11, HASH_LINK 0 0]\<rparr>"
  by (simp add: split_chain_def byte_table_eval Let_def)
    (simp add: split_loop.simps byte_table_eval split_low_def split_finish_def Let_def)

lemma two_inserts:
  "hash_put (HASH_LINK 0 0) (byte_table (\<lambda>r. 0)) 11 = Some one_key"
  "hash_put (HASH_LINK 0 0) one_key 10 = Some (two_equal_keys\<lparr>bytes := (\<lambda>r. [0])\<rparr>)"
  by (simp add: hash_put_def my_hash_insert_def split_chain_def enter_record_def byte_table_eval Let_def)
    (simp add: hash_put_def my_hash_insert_def one_key_split, simp add: enter_record_def byte_table_eval Let_def)

lemma after_update_loops:
  assumes "hash_search_loop h key len fl p = Some y"
  shows "h = after_update \<longrightarrow> key = [3] \<longrightarrow> p = 1 \<longrightarrow> False"
proof (rule hash_search_loop.raw_induct [OF _ assms, where P = "\<lambda>h key len fl p y. h = after_update \<longrightarrow> key = [3] \<longrightarrow> p = 1 \<longrightarrow> False"], goal_cases)
  case (1 f h key len fl p y)
  have "f after_update [3] len False 1 = Some y" if "h = after_update" "key = [3]" "p = 1"
    using 1(2) unfolding that by (simp add: byte_table_eval split: if_splits)
  then show ?case using 1(1) by blast
qed

text \<open>When the place that an update frees is the new home place of the record, \<open>hash_update\<close>
  links the record to itself: with two records of key 0, in a table that \<open>my_hash_insert\<close> has
  built, changing the key of the one inserted first to 1 makes a later search for the absent key 3 run
  forever.\<close>

theorem hash_update_self_link:
  "fold_opt (hash_put (HASH_LINK 0 0)) (byte_table (\<lambda>r. 0)) [11, 10] =
     Some (two_equal_keys\<lparr>bytes := (\<lambda>r. [0])\<rparr>) \<and>
   hash_update two_equal_keys 11 [0] 0 = Some (after_update, False) \<and>
   hash_search after_update [3] 0 = None"
proof -
  have "hash_search_loop after_update [3] 0 True 1 = None"
    using after_update_loops by (metis not_None_eq)
  then have "hash_search after_update [3] 0 = None"
    by (simp add: hash_search_def) (simp add: byte_table_eval)
  moreover have "hash_update two_equal_keys 11 [0] 0 = Some (after_update, False)"
    by (simp add: hash_update_def byte_table_eval Let_def hash_unlink_def) (simp add: hash_update_loop.simps)
  moreover have "fold_opt (hash_put (HASH_LINK 0 0)) (byte_table (\<lambda>r. 0)) [11, 10] =
     Some (two_equal_keys\<lparr>bytes := (\<lambda>r. [0])\<rparr>)"
    by (simp add: two_inserts)
  ultimately show ?thesis by blast
qed

end
