(* ===== verification/Bitmap.thy ===== *)
theory Bitmap
  imports Prelude "HOL-Library.Word"
begin

text \<open>
  Bit maps of \<open>mysys/my_bitmap.c\<close> and the bit functions of \<open>mysys/my_bit.c\<close>.

  The bytes are \<open>8 word\<close> values; \<open>bitmap\<close> is the memory block the pointer leads to (\<open>None\<close> for
  a null pointer), of which the first \<open>bitmap_size\<close> bytes belong to the map.  \<open>mutex\<close> is
  \<open>None\<close> for a map that is not thread safe and otherwise says whether the mutex is held; taking
  a held mutex does not return.  The operations on two maps are modelled for two different
  objects.
\<close>

unbundle bit_operations_syntax

section \<open>Bit functions\<close>

function my_bit_log2_loop :: "nat \<Rightarrow> nat \<Rightarrow> nat" where
  "my_bit_log2_loop value n = (if value > 1 then my_bit_log2_loop (drop_bit 1 value) (n + 1) else n)"
  by pat_completeness auto
termination by (relation "measure fst") (auto simp: drop_bit_eq_div)

declare my_bit_log2_loop.simps [simp del]

definition my_bit_log2 :: "nat \<Rightarrow> nat" where
  "my_bit_log2 value = my_bit_log2_loop value 0"

definition nbits :: "nat list" where
  "nbits = [
    0, 1, 1, 2, 1, 2, 2, 3, 1, 2, 2, 3, 2, 3, 3, 4, 1, 2, 2, 3, 2, 3, 3, 4, 2, 3, 3, 4, 3, 4, 4, 5, 1, 2, 2, 3, 2,
    3, 3, 4, 2, 3, 3, 4, 3, 4, 4, 5, 2, 3, 3, 4, 3, 4, 4, 5, 3, 4, 4, 5, 4, 5, 5, 6, 1, 2, 2, 3, 2, 3, 3, 4, 2, 3,
    3, 4, 3, 4, 4, 5, 2, 3, 3, 4, 3, 4, 4, 5, 3, 4, 4, 5, 4, 5, 5, 6, 2, 3, 3, 4, 3, 4, 4, 5, 3, 4, 4, 5, 4, 5, 5,
    6, 3, 4, 4, 5, 4, 5, 5, 6, 4, 5, 5, 6, 5, 6, 6, 7, 1, 2, 2, 3, 2, 3, 3, 4, 2, 3, 3, 4, 3, 4, 4, 5, 2, 3, 3, 4,
    3, 4, 4, 5, 3, 4, 4, 5, 4, 5, 5, 6, 2, 3, 3, 4, 3, 4, 4, 5, 3, 4, 4, 5, 4, 5, 5, 6, 3, 4, 4, 5, 4, 5, 5, 6, 4,
    5, 5, 6, 5, 6, 6, 7, 2, 3, 3, 4, 3, 4, 4, 5, 3, 4, 4, 5, 4, 5, 5, 6, 3, 4, 4, 5, 4, 5, 5, 6, 4, 5, 5, 6, 5, 6,
    6, 7, 3, 4, 4, 5, 4, 5, 5, 6, 4, 5, 5, 6, 5, 6, 6, 7, 4, 5, 5, 6, 5, 6, 6, 7, 5, 6, 6, 7, 6, 7, 7, 8]"

definition my_count_bits :: "64 word \<Rightarrow> nat option" where
  "my_count_bits v =
     (let v2 = drop_bit 32 v; at = (\<lambda>w. rd nbits (unat (ucast w :: 8 word)))
      in do {
        a \<leftarrow> at v; b \<leftarrow> at (drop_bit 8 v); c \<leftarrow> at (drop_bit 16 v); d \<leftarrow> at (drop_bit 24 v);
        e \<leftarrow> at v2; f \<leftarrow> at (drop_bit 8 v2); g \<leftarrow> at (drop_bit 16 v2); h \<leftarrow> at (drop_bit 24 v2);
        Some ((a + b + c + d + e + f + g + h) mod 256)
      })"

definition my_count_bits_ushort :: "16 word \<Rightarrow> nat option" where
  "my_count_bits_ushort v = rd nbits (unat v)"

section \<open>The structure\<close>

type_synonym uchar = "8 word"

abbreviation MY_BIT_NONE :: nat where "MY_BIT_NONE \<equiv> 4294967295"

record MY_BITMAP =
  bitmap :: "uchar list option"
  bitmap_size :: nat
  mutex :: "bool option"

definition bitmap_lock :: "MY_BITMAP \<Rightarrow> MY_BITMAP option" where
  "bitmap_lock bm = (case mutex bm of
     None \<Rightarrow> Some bm | Some held \<Rightarrow> (if held then None else Some (bm\<lparr>mutex := Some True\<rparr>)))"

definition bitmap_unlock :: "MY_BITMAP \<Rightarrow> MY_BITMAP option" where
  "bitmap_unlock bm = (case mutex bm of
     None \<Rightarrow> Some bm | Some held \<Rightarrow> (if held then Some (bm\<lparr>mutex := Some False\<rparr>) else None))"

definition assert_opt :: "bool \<Rightarrow> unit option" where
  "assert_opt b = (if b then Some () else None)"

text \<open>\<open>buf\<close> is the buffer of the caller, \<open>mem\<close> says whether the allocation would succeed.  A
  buffer has to have room for the mutex as well; its bytes are those before the mutex.\<close>

definition bitmap_init ::
  "bool \<Rightarrow> MY_BITMAP \<Rightarrow> uchar list option \<Rightarrow> nat \<Rightarrow> bool \<Rightarrow> (MY_BITMAP \<times> bool) option" where
  "bitmap_init mem bm buf size_bits thread_safe =
     do {
       assert_opt (size_bits AND 7 = 0);
       let n = size_bits div 8;
       let p = (case buf of Some b \<Rightarrow> Some b | None \<Rightarrow> if mem then Some (replicate n 0) else None);
       if p = None then Some (bm\<lparr>bitmap := None\<rparr>, True)
       else Some (bm\<lparr>bitmap := p, bitmap_size := n,
                      mutex := (if thread_safe then Some False else None)\<rparr>, False)
     }"

text \<open>Destroying a held mutex has no meaning.\<close>

definition bitmap_free :: "MY_BITMAP \<Rightarrow> MY_BITMAP option" where
  "bitmap_free bm = (case bitmap bm of
     None \<Rightarrow> Some bm
   | Some _ \<Rightarrow> if mutex bm = Some True then None else Some (bm\<lparr>bitmap := None\<rparr>))"

section \<open>Single bits\<close>

definition bitmap_fast_set_bit :: "MY_BITMAP \<Rightarrow> nat \<Rightarrow> MY_BITMAP option" where
  "bitmap_fast_set_bit bm b =
     do {
       bs \<leftarrow> bitmap bm;
       x \<leftarrow> rd bs (b div 8);
       bs \<leftarrow> wr bs (b div 8) (x OR push_bit (b AND 7) 1);
       Some (bm\<lparr>bitmap := Some bs\<rparr>)
     }"

definition bitmap_fast_clear_bit :: "MY_BITMAP \<Rightarrow> nat \<Rightarrow> MY_BITMAP option" where
  "bitmap_fast_clear_bit bm b =
     do {
       bs \<leftarrow> bitmap bm;
       x \<leftarrow> rd bs (b div 8);
       bs \<leftarrow> wr bs (b div 8) (x AND NOT (push_bit (b AND 7) 1));
       Some (bm\<lparr>bitmap := Some bs\<rparr>)
     }"

definition bitmap_fast_is_set :: "MY_BITMAP \<Rightarrow> nat \<Rightarrow> bool option" where
  "bitmap_fast_is_set bm b =
     do {
       bs \<leftarrow> bitmap bm;
       x \<leftarrow> rd bs (b div 8);
       Some (x AND push_bit (b AND 7) 1 \<noteq> 0)
     }"

definition bitmap_set_bit :: "MY_BITMAP \<Rightarrow> nat \<Rightarrow> MY_BITMAP option" where
  "bitmap_set_bit bm bitmap_bit =
     do {
       assert_opt (bitmap bm \<noteq> None \<and> bitmap_bit < u32_mul (bitmap_size bm) 8);
       bm \<leftarrow> bitmap_lock bm;
       bm \<leftarrow> bitmap_fast_set_bit bm bitmap_bit;
       bitmap_unlock bm
     }"

definition bitmap_fast_test_and_set :: "MY_BITMAP \<Rightarrow> nat \<Rightarrow> (MY_BITMAP \<times> bool) option" where
  "bitmap_fast_test_and_set bm bitmap_bit =
     do {
       bs \<leftarrow> bitmap bm;
       byte \<leftarrow> rd bs (bitmap_bit div 8);
       let b = push_bit (bitmap_bit AND 7) 1;
       let res = byte AND b;
       bs \<leftarrow> wr bs (bitmap_bit div 8) (byte OR b);
       Some (bm\<lparr>bitmap := Some bs\<rparr>, res \<noteq> 0)
     }"

definition bitmap_test_and_set :: "MY_BITMAP \<Rightarrow> nat \<Rightarrow> (MY_BITMAP \<times> bool) option" where
  "bitmap_test_and_set bm bitmap_bit =
     do {
       assert_opt (bitmap bm \<noteq> None \<and> bitmap_bit < u32_mul (bitmap_size bm) 8);
       bm \<leftarrow> bitmap_lock bm;
       (bm, res) \<leftarrow> bitmap_fast_test_and_set bm bitmap_bit;
       bm \<leftarrow> bitmap_unlock bm;
       Some (bm, res)
     }"

text \<open>The search for the free bit of a byte.\<close>

partial_function (option) free_bit_loop :: "uchar \<Rightarrow> nat \<Rightarrow> nat option" where
  "free_bit_loop x b = (if x AND push_bit b 1 = 0 then Some b else free_bit_loop x (b + 1))"

text \<open>The search for a byte that is not full, in \<open>bitmap_set_next\<close> and \<open>bitmap_get_first\<close>: \<open>n\<close> is the
  bound of the loop.  The result is the byte and the bit, if any.\<close>

function free_byte_loop :: "uchar list \<Rightarrow> nat \<Rightarrow> nat \<Rightarrow> (nat \<times> nat) option option" where
  "free_byte_loop bs n i =
     (if i < n then do {
        x \<leftarrow> rd bs i;
        if x \<noteq> 255 then do { b \<leftarrow> free_bit_loop x 0; Some (Some (i, b)) }
        else free_byte_loop bs n (i + 1)
      }
      else Some None)"
  by pat_completeness auto
termination by (relation "measure (\<lambda>(bs, n, i). n - i)") auto

declare free_byte_loop.simps [simp del]

definition bitmap_set_next :: "MY_BITMAP \<Rightarrow> (MY_BITMAP \<times> nat) option" where
  "bitmap_set_next bm =
     do {
       bs \<leftarrow> bitmap bm;
       let n = u32_mul (bitmap_size bm) 8;
       bm \<leftarrow> bitmap_lock bm;
       f \<leftarrow> free_byte_loop bs n 0;
       (bs, bit_found) \<leftarrow> (case f of
           None \<Rightarrow> Some (bs, MY_BIT_NONE)
         | Some (i, b) \<Rightarrow> do {
             x \<leftarrow> rd bs i;
             bs \<leftarrow> wr bs i (x OR push_bit b 1);
             Some (bs, u32_add (u32_mul i 8) b)
           });
       bm \<leftarrow> bitmap_unlock (bm\<lparr>bitmap := Some bs\<rparr>);
       Some (bm, bit_found)
     }"

definition bitmap_clear_bit :: "MY_BITMAP \<Rightarrow> nat \<Rightarrow> MY_BITMAP option" where
  "bitmap_clear_bit bm bitmap_bit =
     do {
       assert_opt (bitmap bm \<noteq> None \<and> bitmap_bit < u32_mul (bitmap_size bm) 8);
       bm \<leftarrow> bitmap_lock bm;
       bm \<leftarrow> bitmap_fast_clear_bit bm bitmap_bit;
       bitmap_unlock bm
     }"

section \<open>Prefixes\<close>

definition memset :: "'a list \<Rightarrow> nat \<Rightarrow> nat \<Rightarrow> 'a \<Rightarrow> 'a list option" where
  "memset bs i n v = (if i + n \<le> length bs then Some (take i bs @ replicate n v @ drop (i + n) bs) else None)"

text \<open>Writing a prefix into the \<open>n\<close> bytes of a map.\<close>

definition set_prefix_bytes :: "uchar list \<Rightarrow> nat \<Rightarrow> nat \<Rightarrow> uchar list option" where
  "set_prefix_bytes bs n prefix_size =
     do {
       let prefix_bytes = prefix_size div 8;
       bs \<leftarrow> (if prefix_bytes \<noteq> 0 then memset bs 0 prefix_bytes 255 else Some bs);
       let prefix_bits = prefix_size AND 7;
       bs \<leftarrow> (if prefix_bits \<noteq> 0 then wr bs prefix_bytes (push_bit prefix_bits 1 - 1) else Some bs);
       let prefix_bytes = (if prefix_bits \<noteq> 0 then prefix_bytes + 1 else prefix_bytes);
       if prefix_bytes < n then memset bs prefix_bytes (n - prefix_bytes) 0 else Some bs
     }"

definition bitmap_set_prefix :: "MY_BITMAP \<Rightarrow> nat \<Rightarrow> MY_BITMAP option" where
  "bitmap_set_prefix bm prefix_size =
     do {
       bs \<leftarrow> bitmap bm;
       assert_opt (prefix_size \<le> u32_mul (bitmap_size bm) 8 \<or> prefix_size = MY_BIT_NONE);
       bm \<leftarrow> bitmap_lock bm;
       bs \<leftarrow> set_prefix_bytes bs (bitmap_size bm) (min prefix_size (u32_mul (bitmap_size bm) 8));
       bitmap_unlock (bm\<lparr>bitmap := Some bs\<rparr>)
     }"

definition bitmap_clear_all :: "MY_BITMAP \<Rightarrow> MY_BITMAP option" where
  "bitmap_clear_all bm = bitmap_set_prefix bm 0"

definition bitmap_set_all :: "MY_BITMAP \<Rightarrow> MY_BITMAP option" where
  "bitmap_set_all bm = bitmap_set_prefix bm MY_BIT_NONE"

text \<open>\<open>n\<close> bytes from \<open>i\<close> on that all have to be \<open>v\<close>.\<close>

fun all_bytes_loop :: "uchar \<Rightarrow> uchar list \<Rightarrow> nat \<Rightarrow> nat \<Rightarrow> bool option" where
  "all_bytes_loop v bs i 0 = Some True"
| "all_bytes_loop v bs i (Suc n) =
     do { x \<leftarrow> rd bs i; if x \<noteq> v then Some False else all_bytes_loop v bs (i + 1) n }"

definition is_prefix_bytes :: "uchar list \<Rightarrow> nat \<Rightarrow> nat \<Rightarrow> bool option" where
  "is_prefix_bytes bs n prefix_size =
     do {
       let prefix_bits = prefix_size AND 7;
       let m = prefix_size div 8;
       ok \<leftarrow> all_bytes_loop 255 bs 0 m;
       if \<not> ok then Some False
       else do {
         ok \<leftarrow> (if prefix_bits \<noteq> 0
                then do { x \<leftarrow> rd bs m; Some (x = push_bit prefix_bits 1 - 1) } else Some True);
         if \<not> ok then Some False
         else let m = (if prefix_bits \<noteq> 0 then m + 1 else m) in all_bytes_loop 0 bs m (n - m)
       }
     }"

definition bitmap_is_prefix :: "MY_BITMAP \<Rightarrow> nat \<Rightarrow> bool option" where
  "bitmap_is_prefix bm prefix_size =
     do {
       bs \<leftarrow> bitmap bm;
       assert_opt (prefix_size \<le> u32_mul (bitmap_size bm) 8);
       bm \<leftarrow> bitmap_lock bm;
       res \<leftarrow> is_prefix_bytes bs (bitmap_size bm) prefix_size;
       bitmap_unlock bm;
       Some res
     }"

definition bitmap_is_clear_all :: "MY_BITMAP \<Rightarrow> bool option" where
  "bitmap_is_clear_all bm = bitmap_is_prefix bm 0"

definition bitmap_is_set_all :: "MY_BITMAP \<Rightarrow> bool option" where
  "bitmap_is_set_all bm = bitmap_is_prefix bm (u32_mul (bitmap_size bm) 8)"

definition bitmap_is_set :: "MY_BITMAP \<Rightarrow> nat \<Rightarrow> bool option" where
  "bitmap_is_set bm bitmap_bit =
     do {
       assert_opt (bitmap bm \<noteq> None \<and> bitmap_bit < u32_mul (bitmap_size bm) 8);
       bitmap_fast_is_set bm bitmap_bit
     }"

section \<open>Operations on two maps\<close>

text \<open>The opening and closing of every operation on two maps.\<close>

definition lock_both :: "MY_BITMAP \<Rightarrow> MY_BITMAP \<Rightarrow> (MY_BITMAP \<times> MY_BITMAP) option" where
  "lock_both bm bm2 = do { bm \<leftarrow> bitmap_lock bm; bm2 \<leftarrow> bitmap_lock bm2; Some (bm, bm2) }"

definition unlock_both :: "MY_BITMAP \<Rightarrow> MY_BITMAP \<Rightarrow> (MY_BITMAP \<times> MY_BITMAP) option" where
  "unlock_both bm bm2 = do { bm2 \<leftarrow> bitmap_unlock bm2; bm \<leftarrow> bitmap_unlock bm; Some (bm, bm2) }"

fun subset_loop :: "uchar list \<Rightarrow> uchar list \<Rightarrow> nat \<Rightarrow> nat \<Rightarrow> bool option" where
  "subset_loop m1 m2 i 0 = Some True"
| "subset_loop m1 m2 i (Suc n) =
     do { a \<leftarrow> rd m1 i; b \<leftarrow> rd m2 i;
          if a AND NOT b \<noteq> 0 then Some False else subset_loop m1 m2 (i + 1) n }"

definition bitmap_is_subset :: "MY_BITMAP \<Rightarrow> MY_BITMAP \<Rightarrow> bool option" where
  "bitmap_is_subset bm bm2 =
     do {
       m1 \<leftarrow> bitmap bm;
       m2 \<leftarrow> bitmap bm2;
       assert_opt (bitmap_size bm = bitmap_size bm2);
       (bm, bm2) \<leftarrow> lock_both bm bm2;
       res \<leftarrow> subset_loop m1 m2 0 (bitmap_size bm);
       unlock_both bm bm2;
       Some res
     }"

text \<open>\<open>memcmp(...) == 0\<close>: both blocks must have the bytes compared.\<close>

definition bitmap_cmp :: "MY_BITMAP \<Rightarrow> MY_BITMAP \<Rightarrow> bool option" where
  "bitmap_cmp bm bm2 =
     do {
       m1 \<leftarrow> bitmap bm;
       m2 \<leftarrow> bitmap bm2;
       assert_opt (bitmap_size bm = bitmap_size bm2);
       (bm, bm2) \<leftarrow> lock_both bm bm2;
       assert_opt (bitmap_size bm \<le> length m1 \<and> bitmap_size bm \<le> length m2);
       let res = (take (bitmap_size bm) m1 = take (bitmap_size bm) m2);
       unlock_both bm bm2;
       Some res
     }"

fun combine_loop ::
  "(uchar \<Rightarrow> uchar \<Rightarrow> uchar) \<Rightarrow> uchar list \<Rightarrow> uchar list \<Rightarrow> nat \<Rightarrow> nat \<Rightarrow> uchar list option" where
  "combine_loop f to from i 0 = Some to"
| "combine_loop f to from i (Suc n) =
     do { a \<leftarrow> rd to i; b \<leftarrow> rd from i; to \<leftarrow> wr to i (f a b); combine_loop f to from (i + 1) n }"

fun fill_loop :: "uchar \<Rightarrow> uchar list \<Rightarrow> nat \<Rightarrow> nat \<Rightarrow> uchar list option" where
  "fill_loop v to i 0 = Some to"
| "fill_loop v to i (Suc n) = do { to \<leftarrow> wr to i v; fill_loop v to (i + 1) n }"

text \<open>The first map afterwards.\<close>

definition bitmap_intersect :: "MY_BITMAP \<Rightarrow> MY_BITMAP \<Rightarrow> MY_BITMAP option" where
  "bitmap_intersect bm bm2 =
     do {
       to \<leftarrow> bitmap bm;
       from \<leftarrow> bitmap bm2;
       let len = bitmap_size bm;
       let len2 = bitmap_size bm2;
       (bm, bm2) \<leftarrow> lock_both bm bm2;
       to \<leftarrow> combine_loop (AND) to from 0 (min len len2);
       to \<leftarrow> (if len2 < len then fill_loop 0 to (min len len2) (len - len2) else Some to);
       (bm, bm2) \<leftarrow> unlock_both (bm\<lparr>bitmap := Some to\<rparr>) bm2;
       Some bm
     }"

definition bitmap_set_above :: "MY_BITMAP \<Rightarrow> nat \<Rightarrow> bool \<Rightarrow> MY_BITMAP option" where
  "bitmap_set_above bm from_byte use_bit =
     do {
       to \<leftarrow> bitmap bm;
       to \<leftarrow> fill_loop (if use_bit then 255 else 0) to from_byte (bitmap_size bm - from_byte);
       Some (bm\<lparr>bitmap := Some to\<rparr>)
     }"

definition bitmap_subtract :: "MY_BITMAP \<Rightarrow> MY_BITMAP \<Rightarrow> MY_BITMAP option" where
  "bitmap_subtract bm bm2 =
     do {
       to \<leftarrow> bitmap bm;
       from \<leftarrow> bitmap bm2;
       assert_opt (bitmap_size bm = bitmap_size bm2);
       (bm, bm2) \<leftarrow> lock_both bm bm2;
       to \<leftarrow> combine_loop (\<lambda>a b. a AND NOT b) to from 0 (bitmap_size bm);
       (bm, bm2) \<leftarrow> unlock_both (bm\<lparr>bitmap := Some to\<rparr>) bm2;
       Some bm
     }"

definition bitmap_union :: "MY_BITMAP \<Rightarrow> MY_BITMAP \<Rightarrow> MY_BITMAP option" where
  "bitmap_union bm bm2 =
     do {
       to \<leftarrow> bitmap bm;
       from \<leftarrow> bitmap bm2;
       assert_opt (bitmap_size bm = bitmap_size bm2);
       (bm, bm2) \<leftarrow> lock_both bm bm2;
       to \<leftarrow> combine_loop (OR) to from 0 (bitmap_size bm);
       (bm, bm2) \<leftarrow> unlock_both (bm\<lparr>bitmap := Some to\<rparr>) bm2;
       Some bm
     }"

section \<open>Counting\<close>

fun bits_set_loop :: "uchar list \<Rightarrow> nat \<Rightarrow> nat \<Rightarrow> nat \<Rightarrow> nat option" where
  "bits_set_loop m i 0 res = Some res"
| "bits_set_loop m i (Suc n) res =
     do { x \<leftarrow> rd m i; c \<leftarrow> my_count_bits_ushort (ucast x); bits_set_loop m (i + 1) n (u32_add res c) }"

definition bitmap_bits_set :: "MY_BITMAP \<Rightarrow> nat option" where
  "bitmap_bits_set bm =
     do {
       m \<leftarrow> bitmap bm;
       bm \<leftarrow> bitmap_lock bm;
       res \<leftarrow> bits_set_loop m 0 (bitmap_size bm) 0;
       bitmap_unlock bm;
       Some res
     }"

definition bitmap_get_first :: "MY_BITMAP \<Rightarrow> nat option" where
  "bitmap_get_first bm =
     do {
       bs \<leftarrow> bitmap bm;
       let n = u32_mul (bitmap_size bm) 8;
       bm \<leftarrow> bitmap_lock bm;
       f \<leftarrow> free_byte_loop bs n 0;
       bitmap_unlock bm;
       Some (case f of None \<Rightarrow> MY_BIT_NONE | Some (i, b) \<Rightarrow> u32_add (u32_mul i 8) b)
     }"

end
