(* ===== verification/Bitmap_Set.thy ===== *)
theory Bitmap_Set
  imports Bitmap
begin

text \<open>
  Bit maps as finite sets of numbers: every operation of \<open>Bitmap\<close> implements the set operation it
  is named after, as long as the map is well formed (\<open>bitmap_inv\<close>: the block has exactly
  \<open>bitmap_size\<close> bytes, the number of bits fits an \<open>uint\<close> and nobody holds the mutex).
\<close>

unbundle bit_operations_syntax

section \<open>Bits of a list of bytes\<close>

definition bits_of :: "uchar list \<Rightarrow> nat set" where
  "bits_of bs = {i. i < 8 * length bs \<and> bit (bs ! (i div 8)) (i mod 8)}"

lemma mem_bits: "i \<in> bits_of bs \<longleftrightarrow> i < 8 * length bs \<and> bit (bs ! (i div 8)) (i mod 8)"
  by (simp add: bits_of_def)

lemma and_7 [simp]: "n AND 7 = n mod 8" for n :: nat
  using take_bit_eq_mask [of 3 n] by (simp add: take_bit_eq_mod mask_eq_exp_minus_1)

lemma byte_lt [simp]: "i div 8 < n \<longleftrightarrow> i < 8 * n" for i :: nat
  by (simp add: div_less_iff_less_mult mult.commute)

lemma bit_byte_set [simp]: "j < 8 \<Longrightarrow> bit (x OR 2 ^ k :: uchar) j \<longleftrightarrow> bit x j \<or> j = k"
  by (auto simp: bit_simps)

lemma bit_byte_clear [simp]: "j < 8 \<Longrightarrow> bit (x AND NOT (2 ^ k) :: uchar) j \<longleftrightarrow> bit x j \<and> j \<noteq> k"
  by (auto simp: bit_simps)

lemma byte_test [simp]: "x AND 2 ^ k = 0 \<longleftrightarrow> \<not> bit x k" for x :: uchar
  by (simp add: and_exp_eq_0_iff_not_bit)

lemma bits_inj:
  assumes "bits_of as = bits_of bs" "length as = length bs"
  shows "as = bs"
proof (rule nth_equalityI [OF assms(2)])
  fix k assume k: "k < length as"
  show "as ! k = bs ! k"
  proof (rule bit_word_eqI)
    fix j assume "j < LENGTH(8)"
    then have j: "j < 8" by simp
    have "8 * k + j \<in> bits_of as \<longleftrightarrow> 8 * k + j \<in> bits_of bs" using assms(1) by simp
    then show "bit (as ! k) j \<longleftrightarrow> bit (bs ! k) j" using k j assms(2) by (simp add: mem_bits)
  qed
qed

lemma div_mod_eq_iff: "i div 8 = b div 8 \<and> i mod 8 = b mod 8 \<longleftrightarrow> i = b" for i b :: nat
  by (metis div_mult_mod_eq)

lemma bits_set: "b < 8 * length bs \<Longrightarrow>
  bits_of (bs[b div 8 := bs ! (b div 8) OR push_bit (b mod 8) 1]) = insert b (bits_of bs)"
  by (auto simp: mem_bits nth_list_update split: if_splits) (metis div_mod_eq_iff)+

lemma bits_clear: "b < 8 * length bs \<Longrightarrow>
  bits_of (bs[b div 8 := bs ! (b div 8) AND NOT (push_bit (b mod 8) 1)]) = bits_of bs - {b}"
  by (auto simp: mem_bits nth_list_update split: if_splits) (metis div_mod_eq_iff)+

section \<open>Well-formed maps\<close>

definition bitmap_inv :: "MY_BITMAP \<Rightarrow> bool" where
  "bitmap_inv bm \<longleftrightarrow> (\<exists>bs. bitmap bm = Some bs \<and> length bs = bitmap_size bm) \<and>
     bitmap_size bm < 536870912 \<and> mutex bm \<noteq> Some True"

definition bits :: "MY_BITMAP \<Rightarrow> nat set" where
  "bits bm = bits_of (the (bitmap bm))"

definition locked :: "MY_BITMAP \<Rightarrow> MY_BITMAP" where
  "locked bm = bm\<lparr>mutex := map_option (\<lambda>_. True) (mutex bm)\<rparr>"

lemma bitmap_invE:
  assumes "bitmap_inv bm"
  obtains bs where "bitmap bm = Some bs" "length bs = bitmap_size bm" "bits bm = bits_of bs"
    "u32_mul (bitmap_size bm) 8 = 8 * length bs" "mutex bm \<noteq> Some True" "8 * length bs < MY_BIT_NONE"
  using assms that by (auto simp: bitmap_inv_def bits_def)

lemma lock_ok [simp]: "mutex bm \<noteq> Some True \<Longrightarrow> bitmap_lock bm = Some (locked bm)"
  by (cases "mutex bm") (auto simp: bitmap_lock_def locked_def)

lemma locked_simps [simp]: "bitmap (locked bm) = bitmap bm" "bitmap_size (locked bm) = bitmap_size bm"
  by (simp_all add: locked_def)

lemma unlock_ok [simp]:
  assumes "mutex bm \<noteq> Some True"
  shows "bitmap_unlock ((locked bm)\<lparr>bitmap := b\<rparr>) = Some (bm\<lparr>bitmap := b\<rparr>)" "bitmap_unlock (locked bm) = Some bm"
  using assms by (cases bm; cases "mutex bm"; auto simp: bitmap_unlock_def locked_def)+

lemma new_bytes:
  assumes "bitmap_inv bm" "length bs = bitmap_size bm"
  shows "bitmap_inv (bm\<lparr>bitmap := Some bs\<rparr>)" "bits (bm\<lparr>bitmap := Some bs\<rparr>) = bits_of bs"
  using assms by (auto simp: bitmap_inv_def bits_def)

lemma assert_opt_simps [simp]: "assert_opt True = Some ()" "assert_opt False = None"
  by (simp_all add: assert_opt_def)

section \<open>Single bits\<close>

lemma set_bit_ok:
  assumes "bitmap_inv bm" "b < 8 * bitmap_size bm"
  shows "\<exists>bm'. bitmap_set_bit bm b = Some bm' \<and> bitmap_inv bm' \<and> bitmap_size bm' = bitmap_size bm \<and>
    bits bm' = insert b (bits bm)"
  using bitmap_invE [OF assms(1)]
proof cases
  case (1 bs)
  let ?bs = "bs[b div 8 := bs ! (b div 8) OR push_bit (b mod 8) 1]"
  have "bitmap_set_bit bm b = Some (bm\<lparr>bitmap := Some ?bs\<rparr>)"
    using 1 assms(2) by (simp add: bitmap_set_bit_def bitmap_fast_set_bit_def)
  then show ?thesis using new_bytes [OF assms(1), of ?bs] bits_set [of b bs] assms(2) 1 by simp
qed

lemma clear_bit_ok:
  assumes "bitmap_inv bm" "b < 8 * bitmap_size bm"
  shows "\<exists>bm'. bitmap_clear_bit bm b = Some bm' \<and> bitmap_inv bm' \<and> bitmap_size bm' = bitmap_size bm \<and>
    bits bm' = bits bm - {b}"
  using bitmap_invE [OF assms(1)]
proof cases
  case (1 bs)
  let ?bs = "bs[b div 8 := bs ! (b div 8) AND NOT (push_bit (b mod 8) 1)]"
  have "bitmap_clear_bit bm b = Some (bm\<lparr>bitmap := Some ?bs\<rparr>)"
    using 1 assms(2) by (simp add: bitmap_clear_bit_def bitmap_fast_clear_bit_def)
  then show ?thesis using new_bytes [OF assms(1), of ?bs] bits_clear [of b bs] assms(2) 1 by simp
qed

lemma is_set_ok:
  assumes "bitmap_inv bm" "b < 8 * bitmap_size bm"
  shows "bitmap_is_set bm b = Some (b \<in> bits bm)"
  using bitmap_invE [OF assms(1)]
proof cases
  case (1 bs)
  then show ?thesis using assms(2) by (simp add: bitmap_is_set_def bitmap_fast_is_set_def mem_bits Let_def)
qed

lemma test_and_set_ok:
  assumes "bitmap_inv bm" "b < 8 * bitmap_size bm"
  shows "\<exists>bm'. bitmap_test_and_set bm b = Some (bm', b \<in> bits bm) \<and> bitmap_set_bit bm b = Some bm'"
  using bitmap_invE [OF assms(1)]
proof cases
  case (1 bs)
  then show ?thesis using assms(2)
    by (simp add: bitmap_test_and_set_def bitmap_fast_test_and_set_def bitmap_set_bit_def bitmap_fast_set_bit_def
        mem_bits Let_def)
qed

section \<open>The free bits\<close>

lemma free_bit_loop_from:
  "\<not> bit x k \<Longrightarrow> \<forall>j. n \<le> j \<and> j < k \<longrightarrow> bit x j \<Longrightarrow> n \<le> k \<Longrightarrow> free_bit_loop x n = Some k"
proof (induction "k - n" arbitrary: n)
  case 0
  then show ?case by (subst free_bit_loop.simps) simp
next
  case (Suc m)
  then show ?case by (subst free_bit_loop.simps) auto
qed

lemma free_bit:
  assumes "x \<noteq> (255 :: uchar)"
  shows "\<exists>b<8. free_bit_loop x 0 = Some b \<and> \<not> bit x b \<and> (\<forall>j<b. bit x j)"
proof -
  have "\<exists>b<8. \<not> bit x b"
  proof (rule ccontr)
    assume "\<not> ?thesis"
    then have "x = - 1" by (intro bit_word_eqI) simp
    then show False using assms by simp
  qed
  then obtain b where "\<not> bit x b" "b < 8" by blast
  then have "\<not> bit x (LEAST b. \<not> bit x b)" "(LEAST b. \<not> bit x b) < 8"
    by (metis LeastI, meson Least_le le_less_trans)
  moreover have "\<forall>j<(LEAST b. \<not> bit x b). bit x j" by (meson not_less_Least)
  ultimately show ?thesis using free_bit_loop_from [of x "LEAST b. \<not> bit x b" 0] by blast
qed

lemma free_byte_loop_found:
  "k < length bs \<Longrightarrow> k < n \<Longrightarrow> bs ! k \<noteq> 255 \<Longrightarrow> i \<le> k \<Longrightarrow> \<forall>j. i \<le> j \<and> j < k \<longrightarrow> bs ! j = 255 \<Longrightarrow>
   free_bit_loop (bs ! k) 0 = Some b \<Longrightarrow> free_byte_loop bs n i = Some (Some (k, b))"
proof (induction "k - i" arbitrary: i)
  case 0
  then show ?case by (subst free_byte_loop.simps) simp
next
  case (Suc m)
  then show ?case by (subst free_byte_loop.simps) auto
qed

lemma free_byte_loop_full:
  "\<forall>j<length bs. bs ! j = 255 \<Longrightarrow> length bs < n \<Longrightarrow> i \<le> length bs \<Longrightarrow> free_byte_loop bs n i = None"
proof (induction "length bs - i" arbitrary: i)
  case 0
  then show ?case by (subst free_byte_loop.simps) (simp add: rd_def)
next
  case (Suc m)
  then show ?case by (subst free_byte_loop.simps) auto
qed

lemma full_byte: "(255 :: uchar) = - 1" by simp

lemma bit_full: "j < 8 \<Longrightarrow> bit (255 :: uchar) j"
  unfolding full_byte by simp

lemma bit_full_mod [simp]: "bit (255 :: int) (i mod 8)"
  using bit_full [of "i mod 8"] by simp

text \<open>A map that is not full: the smallest number missing from it is found.\<close>

lemma free_byte_ok:
  assumes "bits_of bs \<noteq> {..<8 * length bs}" "length bs \<le> n"
  shows "\<exists>k b. free_byte_loop bs n 0 = Some (Some (k, b)) \<and> k < length bs \<and> b < 8 \<and>
    8 * k + b \<notin> bits_of bs \<and> (\<forall>i<8 * k + b. i \<in> bits_of bs)"
proof -
  have "\<exists>k<length bs. bs ! k \<noteq> 255"
  proof (rule ccontr)
    assume "\<not> ?thesis"
    then have "bits_of bs = {..<8 * length bs}" by (auto simp: mem_bits)
    then show False using assms(1) by simp
  qed
  then obtain k0 where "k0 < length bs" "bs ! k0 \<noteq> 255" by blast
  define k where "k = (LEAST k. bs ! k \<noteq> 255)"
  have k: "bs ! k \<noteq> 255" "k < length bs" "\<And>j. j < k \<Longrightarrow> bs ! j = 255"
    unfolding k_def using \<open>k0 < length bs\<close> \<open>bs ! k0 \<noteq> 255\<close>
    by (metis (mono_tags) LeastI, meson Least_le le_less_trans, metis (mono_tags) not_less_Least)
  obtain b where b: "b < 8" "free_bit_loop (bs ! k) 0 = Some b" "\<not> bit (bs ! k) b" "\<forall>j<b. bit (bs ! k) j"
    using free_bit [OF k(1)] by blast
  have "free_byte_loop bs n 0 = Some (Some (k, b))" using free_byte_loop_found [OF k(2) _ k(1) _ _ b(2)] k assms(2) by auto
  moreover have "8 * k + b \<notin> bits_of bs" using b by (simp add: mem_bits)
  moreover have "i \<in> bits_of bs" if "i < 8 * k + b" for i
  proof (cases "i div 8 = k")
    case True
    then have "i mod 8 < b" using that by (metis div_mult_mod_eq mult.commute nat_add_left_cancel_less)
    then show ?thesis using True b k(2) by (metis byte_lt mem_bits)
  next
    case False
    then have "i div 8 < k" using that b(1) by linarith
    then show ?thesis using k(2) k(3) [of "i div 8"] by (simp add: mem_bits)
  qed
  ultimately show ?thesis using k(2) b(1) by blast
qed

lemma set_next_ok:
  assumes "bitmap_inv bm" "bits bm \<noteq> {..<8 * bitmap_size bm}"
  shows "\<exists>bm' i. bitmap_set_next bm = Some (bm', i) \<and> bitmap_inv bm' \<and> bits bm' = insert i (bits bm) \<and>
    i < 8 * bitmap_size bm \<and> i \<notin> bits bm \<and> (\<forall>j<i. j \<in> bits bm) \<and> bitmap_get_first bm = Some i"
  using bitmap_invE [OF assms(1)]
proof cases
  case (1 bs)
  obtain k b where kb: "free_byte_loop bs (8 * length bs) 0 = Some (Some (k, b))" "k < length bs" "b < 8"
    "8 * k + b \<notin> bits_of bs" "\<forall>i<8 * k + b. i \<in> bits_of bs" using free_byte_ok [of bs "8 * length bs"] assms(2) 1 by auto
  let ?bs = "bs[k := bs ! k OR 2 ^ b]"
  have i: "u32_add (u32_mul k 8) b = 8 * k + b" "8 * k + b < 8 * length bs" using kb 1 by auto
  have "bitmap_set_next bm = Some (bm\<lparr>bitmap := Some ?bs\<rparr>, 8 * k + b)" "bitmap_get_first bm = Some (8 * k + b)"
    using 1 kb i by (auto simp: bitmap_set_next_def bitmap_get_first_def Let_def mult.commute [of "bitmap_size bm" 8])
  moreover have "bits_of ?bs = insert (8 * k + b) (bits_of bs)" using bits_set [of "8 * k + b" bs] i kb(3) by simp
  ultimately show ?thesis using new_bytes [OF assms(1), of ?bs] 1 kb i by auto
qed

lemma set_next_full:
  assumes "bitmap_inv bm" "bits bm = {..<8 * bitmap_size bm}" "0 < bitmap_size bm"
  shows "bitmap_set_next bm = None" "bitmap_get_first bm = None"
proof -
  obtain bs where bs: "bitmap bm = Some bs" "length bs = bitmap_size bm" "bits bm = bits_of bs"
    "u32_mul (bitmap_size bm) 8 = 8 * length bs" "mutex bm \<noteq> Some True" by (rule bitmap_invE [OF assms(1)])
  have "\<forall>j<length bs. bs ! j = 255"
  proof (intro allI impI)
    fix j assume j: "j < length bs"
    have "bits_of bs = {..<8 * length bs}" using assms(2) bs(2,3) by simp
    moreover have "bits_of (replicate (length bs) 255) = {..<8 * length bs}" by (auto simp: mem_bits)
    ultimately have "bs = replicate (length bs) 255" by (intro bits_inj) simp_all
    then show "bs ! j = 255" using j by (metis nth_replicate)
  qed
  then have "free_byte_loop bs (8 * length bs) 0 = None" by (rule free_byte_loop_full) (use assms(3) bs in auto)
  then show "bitmap_set_next bm = None" "bitmap_get_first bm = None"
    using bs by (auto simp: bitmap_set_next_def bitmap_get_first_def Let_def mult.commute [of "bitmap_size bm" 8])
qed

section \<open>Prefixes\<close>

text \<open>The bytes of the map of size \<open>n\<close> that holds the first \<open>p\<close> numbers.\<close>

definition prefix_list :: "nat \<Rightarrow> nat \<Rightarrow> uchar list" where
  "prefix_list p n = replicate (p div 8) 255 @
     (if p mod 8 = 0 then replicate (n - p div 8) 0
      else (2 ^ (p mod 8) - 1) # replicate (n - p div 8 - 1) 0)"

lemma prefix_list_length: "p \<le> 8 * n \<Longrightarrow> length (prefix_list p n) = n"
proof -
  assume "p \<le> 8 * n"
  then have "p div 8 \<le> n" "p mod 8 \<noteq> 0 \<Longrightarrow> p div 8 < n" by (auto simp: less_mult_imp_div_less) presburger
  then show ?thesis by (auto simp: prefix_list_def)
qed

lemma bit_prefix_byte: "k < 8 \<Longrightarrow> j < 8 \<Longrightarrow> bit (2 ^ k - 1 :: uchar) j \<longleftrightarrow> j < k"
  using bit_mask_iff [where 'a = "8 word"] by (auto simp: mask_eq_exp_minus_1)

lemma prefix_list_bits:
  assumes "p \<le> 8 * n"
  shows "bits_of (prefix_list p n) = {..<p}"
proof -
  have "i \<in> bits_of (prefix_list p n) \<longleftrightarrow> i < p" for i
  proof (cases "i < 8 * n")
    case True
    have "bit (prefix_list p n ! (i div 8)) (i mod 8) \<longleftrightarrow> i < p"
    proof (cases "i div 8" "p div 8" rule: linorder_cases)
      case less
      then have "i < p" by (metis div_le_mono leD leI)
      then show ?thesis using less by (simp add: prefix_list_def nth_append)
    next
      case equal
      then have "i < p \<longleftrightarrow> i mod 8 < p mod 8" by (metis div_mult_mod_eq nat_add_left_cancel_less)
      then show ?thesis using equal True by (auto simp: prefix_list_def nth_append bit_prefix_byte)
    next
      case greater
      then have "\<not> i < p" by (metis div_le_mono leD less_imp_le)
      moreover have "replicate (n - Suc (p div 8)) (0 :: uchar) ! (i div 8 - Suc (p div 8)) = 0"
        "replicate (n - p div 8) (0 :: uchar) ! (i div 8 - p div 8) = 0"
        using greater byte_lt [THEN iffD2, OF True] by (simp_all del: byte_lt)
      ultimately show ?thesis using greater by (auto simp: prefix_list_def nth_append nth_Cons')
    qed
    then show ?thesis using True prefix_list_length [OF assms] by (simp add: mem_bits)
  qed (use assms prefix_list_length [OF assms] in \<open>auto simp: mem_bits\<close>)
  then show ?thesis by auto
qed

lemma prefix_bytes_bounds:
  fixes p n :: nat
  assumes "p \<le> 8 * n"
  shows "p div 8 \<le> n" "p mod 8 \<noteq> 0 \<Longrightarrow> p div 8 < n"
proof -
  show "p div 8 \<le> n" using div_le_mono [OF assms, of 8] by simp
  assume "p mod 8 \<noteq> 0"
  then have "p \<noteq> 8 * n" by auto
  then show "p div 8 < n" using assms by simp
qed

lemma set_prefix_bytes_ok:
  assumes "length bs = n" "p \<le> 8 * n"
  shows "set_prefix_bytes bs n p = Some (prefix_list p n)"
proof -
  note b = prefix_bytes_bounds [OF assms(2)]
  have m: "(if p div 8 \<noteq> 0 then memset bs 0 (p div 8) 255 else Some bs) = Some (replicate (p div 8) 255 @ drop (p div 8) bs)"
    using assms b(1) by (simp add: memset_def)
  show ?thesis
  proof (cases "p mod 8 = 0")
    case True
    then show ?thesis using b assms(1) m
      by (auto simp: set_prefix_bytes_def memset_def prefix_list_def Let_def simp del: byte_lt)
  next
    case False
    have "drop (p div 8) bs = bs ! (p div 8) # drop (Suc (p div 8)) bs"
      using b(2) [OF False] assms(1) by (simp add: Cons_nth_drop_Suc del: byte_lt)
    then show ?thesis unfolding set_prefix_bytes_def Let_def m using b(2) [OF False] assms(1) False
      by (auto simp: memset_def prefix_list_def nth_append list_update_append simp del: byte_lt)
  qed
qed

lemma set_prefix_ok:
  assumes "bitmap_inv bm" "p \<le> 8 * bitmap_size bm \<or> p = MY_BIT_NONE"
  shows "\<exists>bm'. bitmap_set_prefix bm p = Some bm' \<and> bitmap_inv bm' \<and> bitmap_size bm' = bitmap_size bm \<and>
    bits bm' = {..<min p (8 * bitmap_size bm)}"
  using bitmap_invE [OF assms(1)]
proof cases
  case (1 bs)
  let ?q = "min p (8 * bitmap_size bm)"
  have "bitmap_set_prefix bm p = Some (bm\<lparr>bitmap := Some (prefix_list ?q (bitmap_size bm))\<rparr>)"
    using 1 assms(2) set_prefix_bytes_ok [of bs "bitmap_size bm" ?q]
    by (simp add: bitmap_set_prefix_def mult.commute [of _ 8])
  then show ?thesis
    using new_bytes [OF assms(1), of "prefix_list ?q (bitmap_size bm)"] prefix_list_length [of ?q "bitmap_size bm"]
      prefix_list_bits [of ?q "bitmap_size bm"] by simp
qed

lemma all_bytes_ok:
  "i + n \<le> length bs \<Longrightarrow> all_bytes_loop v bs i n = Some (take n (drop i bs) = replicate n v)"
proof (induction n arbitrary: i)
  case (Suc n)
  have "take (Suc n) (drop i bs) = bs ! i # take n (drop (Suc i) bs)"
    using Suc.prems by (simp add: take_Suc_conv_app_nth Cons_nth_drop_Suc [symmetric])
  then show ?case using Suc by auto
qed simp

lemma prefix_list_eq:
  assumes "length bs = n" "p \<le> 8 * n"
  shows "bs = prefix_list p n \<longleftrightarrow> take (p div 8) bs = replicate (p div 8) 255 \<and>
    (if p mod 8 = 0 then drop (p div 8) bs = replicate (n - p div 8) 0
     else bs ! (p div 8) = 2 ^ (p mod 8) - 1 \<and> drop (Suc (p div 8)) bs = replicate (n - Suc (p div 8)) 0)"
proof -
  note b = prefix_bytes_bounds [OF assms(2)]
  have "bs = replicate k v @ t \<longleftrightarrow> take k bs = replicate k v \<and> drop k bs = t" for k t and v :: uchar
    by (metis append_eq_conv_conj length_replicate)
  then have "bs = prefix_list p n \<longleftrightarrow> take (p div 8) bs = replicate (p div 8) 255 \<and>
     drop (p div 8) bs = (if p mod 8 = 0 then replicate (n - p div 8) 0
      else (2 ^ (p mod 8) - 1) # replicate (n - p div 8 - 1) 0)"
    unfolding prefix_list_def .
  moreover have "p mod 8 \<noteq> 0 \<Longrightarrow> drop (p div 8) bs = bs ! (p div 8) # drop (Suc (p div 8)) bs"
    using b(2) assms(1) by (simp add: Cons_nth_drop_Suc del: byte_lt)
  ultimately show ?thesis by auto
qed

lemma is_prefix_bytes_ok:
  assumes "length bs = n" "p \<le> 8 * n"
  shows "is_prefix_bytes bs n p = Some (bs = prefix_list p n)"
proof (cases "p mod 8 = 0")
  case True
  then show ?thesis unfolding prefix_list_eq [OF assms] using assms(1) prefix_bytes_bounds(1) [OF assms(2)]
    by (simp add: is_prefix_bytes_def Let_def all_bytes_ok)
next
  case False
  then show ?thesis unfolding prefix_list_eq [OF assms] using assms(1) prefix_bytes_bounds(2) [OF assms(2) False]
    by (simp add: is_prefix_bytes_def Let_def all_bytes_ok Suc_le_eq del: byte_lt)
qed

lemma is_prefix_ok:
  assumes "bitmap_inv bm" "p \<le> 8 * bitmap_size bm"
  shows "bitmap_is_prefix bm p = Some (bits bm = {..<p})"
  using bitmap_invE [OF assms(1)]
proof cases
  case (1 bs)
  have "bitmap_is_prefix bm p = Some (bs = prefix_list p (bitmap_size bm))"
    using 1 assms(2) is_prefix_bytes_ok [of bs "bitmap_size bm" p]
    by (simp add: bitmap_is_prefix_def mult.commute [of _ 8])
  moreover have "bs = prefix_list p (bitmap_size bm) \<longleftrightarrow> bits_of bs = {..<p}"
    using bits_inj [of bs "prefix_list p (bitmap_size bm)"] prefix_list_bits [OF assms(2)] prefix_list_length [OF assms(2)] 1 by auto
  ultimately show ?thesis using 1 by simp
qed

section \<open>Two maps\<close>

lemma combine_ok:
  "i + n \<le> length to \<Longrightarrow> i + n \<le> length fr \<Longrightarrow> \<exists>to'. combine_loop f to fr i n = Some to' \<and> length to' = length to \<and>
     (\<forall>k<length to. to' ! k = (if i \<le> k \<and> k < i + n then f (to ! k) (fr ! k) else to ! k))"
proof (induction n arbitrary: i to)
  case (Suc n)
  let ?to = "to[i := f (to ! i) (fr ! i)]"
  obtain to' where "combine_loop f ?to fr (Suc i) n = Some to'" "length to' = length to"
    "\<forall>k<length to. to' ! k = (if Suc i \<le> k \<and> k < Suc i + n then f (?to ! k) (fr ! k) else ?to ! k)"
    using Suc.IH [of "Suc i" ?to] Suc.prems by auto
  then show ?case using Suc.prems by (auto simp: nth_list_update Suc_le_eq le_less)
qed auto

lemma fill_ok:
  "i + n \<le> length to \<Longrightarrow> \<exists>to'. fill_loop v to i n = Some to' \<and> length to' = length to \<and>
     (\<forall>k<length to. to' ! k = (if i \<le> k \<and> k < i + n then v else to ! k))"
proof (induction n arbitrary: i to)
  case (Suc n)
  let ?to = "to[i := v]"
  obtain to' where "fill_loop v ?to (Suc i) n = Some to'" "length to' = length to"
    "\<forall>k<length to. to' ! k = (if Suc i \<le> k \<and> k < Suc i + n then v else ?to ! k)"
    using Suc.IH [of "Suc i" ?to] Suc.prems by auto
  then show ?case using Suc.prems by (auto simp: nth_list_update Suc_le_eq le_less)
qed auto

lemma subset_loop_ok:
  "i + n \<le> length a \<Longrightarrow> i + n \<le> length b \<Longrightarrow>
   subset_loop a b i n = Some (\<forall>k. i \<le> k \<and> k < i + n \<longrightarrow> a ! k AND NOT (b ! k) = 0)"
proof (induction n arbitrary: i)
  case (Suc n)
  have "(\<forall>k. i \<le> k \<and> k < i + Suc n \<longrightarrow> a ! k AND NOT (b ! k) = 0) \<longleftrightarrow>
    a ! i AND NOT (b ! i) = 0 \<and> (\<forall>k. Suc i \<le> k \<and> k < Suc i + n \<longrightarrow> a ! k AND NOT (b ! k) = 0)"
    by (metis Suc_le_eq add_Suc add_Suc_right le_neq_implies_less less_add_Suc1 less_imp_le order_refl)
  then show ?case using Suc by auto
qed auto

lemma byte_subset: "a AND NOT b = 0 \<longleftrightarrow> (\<forall>j<8. bit a j \<longrightarrow> bit b j)" for a b :: uchar
proof
  assume "a AND NOT b = 0"
  then have "\<not> bit (a AND NOT b) j" for j by simp
  then show "\<forall>j<8. bit a j \<longrightarrow> bit b j" by (auto simp: bit_simps)
qed (auto intro!: bit_word_eqI simp: bit_simps)

lemma bits_subset:
  assumes "length a = length b"
  shows "bits_of a \<subseteq> bits_of b \<longleftrightarrow> (\<forall>k<length a. a ! k AND NOT (b ! k) = 0)"
proof
  assume s: "bits_of a \<subseteq> bits_of b"
  show "\<forall>k<length a. a ! k AND NOT (b ! k) = 0"
    unfolding byte_subset
  proof (intro allI impI)
    fix k j assume "k < length a" "j < (8 :: nat)" "bit (a ! k) j"
    then have "8 * k + j \<in> bits_of a" by (simp add: mem_bits)
    then have "8 * k + j \<in> bits_of b" using s by blast
    then show "bit (b ! k) j" using \<open>j < 8\<close> by (simp add: mem_bits)
  qed
next
  assume "\<forall>k<length a. a ! k AND NOT (b ! k) = 0"
  then show "bits_of a \<subseteq> bits_of b" unfolding byte_subset using assms by (auto simp: mem_bits)
qed

text \<open>Two well-formed maps and what every operation on them sees.\<close>

lemma both_locks [simp]:
  assumes "mutex bm \<noteq> Some True" "mutex bm2 \<noteq> Some True"
  shows "lock_both bm bm2 = Some (locked bm, locked bm2)"
    "unlock_both ((locked bm)\<lparr>bitmap := b\<rparr>) (locked bm2) = Some (bm\<lparr>bitmap := b\<rparr>, bm2)"
    "unlock_both (locked bm) (locked bm2) = Some (bm, bm2)"
  using assms by (simp_all add: lock_both_def unlock_both_def)

lemma is_subset_ok:
  assumes "bitmap_inv bm" "bitmap_inv bm2" "bitmap_size bm = bitmap_size bm2"
  shows "bitmap_is_subset bm bm2 = Some (bits bm \<subseteq> bits bm2)" "bitmap_cmp bm bm2 = Some (bits bm = bits bm2)"
proof -
  obtain a where a: "bitmap bm = Some a" "length a = bitmap_size bm" "bits bm = bits_of a" "mutex bm \<noteq> Some True"
    by (rule bitmap_invE [OF assms(1)])
  obtain b where b: "bitmap bm2 = Some b" "length b = bitmap_size bm2" "bits bm2 = bits_of b" "mutex bm2 \<noteq> Some True"
    by (rule bitmap_invE [OF assms(2)])
  have "bits_of a \<subseteq> bits_of b \<longleftrightarrow> (\<forall>k<length a. a ! k AND NOT (b ! k) = 0)" using bits_subset [of a b] a b assms(3) by simp
  then show "bitmap_is_subset bm bm2 = Some (bits bm \<subseteq> bits bm2)"
    using a b assms(3) by (simp add: bitmap_is_subset_def subset_loop_ok)
  have "a = b \<longleftrightarrow> bits_of a = bits_of b" using bits_inj [of a b] a(2) b(2) assms(3) by auto
  then show "bitmap_cmp bm bm2 = Some (bits bm = bits bm2)"
    using a b assms(3) by (simp add: bitmap_cmp_def Let_def)
qed

lemma bits_bytewise:
  assumes "length c = length a" "\<forall>k<length a. \<forall>j<8. bit (c ! k) j \<longleftrightarrow> P (8 * k + j)"
  shows "bits_of c = {i. i < 8 * length a \<and> P i}"
proof -
  have "i \<in> bits_of c \<longleftrightarrow> i < 8 * length a \<and> P i" for i
    using assms(2) [rule_format, of "i div 8" "i mod 8"] assms(1) by (auto simp: mem_bits)
  then show ?thesis by auto
qed

lemma bit_at: "k < length a \<Longrightarrow> j < 8 \<Longrightarrow> bit (a ! k) j \<longleftrightarrow> 8 * k + j \<in> bits_of a"
  by (simp add: mem_bits)

lemma bits_lt: "i \<in> bits_of a \<Longrightarrow> i < 8 * length a"
  by (simp add: mem_bits)

lemma union_subtract_ok:
  assumes "bitmap_inv bm" "bitmap_inv bm2" "bitmap_size bm = bitmap_size bm2"
  shows "\<exists>bm'. bitmap_union bm bm2 = Some bm' \<and> bitmap_inv bm' \<and> bits bm' = bits bm \<union> bits bm2"
    "\<exists>bm'. bitmap_subtract bm bm2 = Some bm' \<and> bitmap_inv bm' \<and> bits bm' = bits bm - bits bm2"
proof -
  obtain a where a: "bitmap bm = Some a" "length a = bitmap_size bm" "bits bm = bits_of a" "mutex bm \<noteq> Some True"
    by (rule bitmap_invE [OF assms(1)])
  obtain b where b: "bitmap bm2 = Some b" "length b = bitmap_size bm2" "bits bm2 = bits_of b" "mutex bm2 \<noteq> Some True"
    by (rule bitmap_invE [OF assms(2)])
  have l: "length b = length a" using a b assms(3) by simp
  obtain c where c: "combine_loop (OR) a b 0 (length a) = Some c" "length c = length a" "\<forall>k<length a. c ! k = a ! k OR b ! k"
    using combine_ok [of 0 "length a" a b "(OR)"] l by auto
  have "bits_of c = {i. i < 8 * length a \<and> (i \<in> bits_of a \<or> i \<in> bits_of b)}"
    by (rule bits_bytewise) (use c(2,3) l bit_at in \<open>auto simp: bit_simps\<close>)
  then have "bits_of c = bits_of a \<union> bits_of b" using bits_lt [of _ a] bits_lt [of _ b] l by auto
  then show "\<exists>bm'. bitmap_union bm bm2 = Some bm' \<and> bitmap_inv bm' \<and> bits bm' = bits bm \<union> bits bm2"
    using a b c new_bytes [OF assms(1), of c] assms(3) by (simp add: bitmap_union_def)
  obtain d where d: "combine_loop (\<lambda>a b. a AND NOT b) a b 0 (length a) = Some d" "length d = length a"
    "\<forall>k<length a. d ! k = a ! k AND NOT (b ! k)"
    using combine_ok [of 0 "length a" a b "\<lambda>a b. a AND NOT b"] l by auto
  have "bits_of d = {i. i < 8 * length a \<and> (i \<in> bits_of a \<and> i \<notin> bits_of b)}"
    by (rule bits_bytewise) (use d(2,3) l bit_at in \<open>auto simp: bit_simps\<close>)
  then have "bits_of d = bits_of a - bits_of b" using bits_lt [of _ a] by auto
  then show "\<exists>bm'. bitmap_subtract bm bm2 = Some bm' \<and> bitmap_inv bm' \<and> bits bm' = bits bm - bits bm2"
    using a b d new_bytes [OF assms(1), of d] assms(3) by (simp add: bitmap_subtract_def)
qed

text \<open>The maps of an intersection may differ in size: what the second map lacks counts as unset.\<close>

lemma intersect_ok:
  assumes "bitmap_inv bm" "bitmap_inv bm2"
  shows "\<exists>bm'. bitmap_intersect bm bm2 = Some bm' \<and> bitmap_inv bm' \<and> bits bm' = bits bm \<inter> bits bm2"
proof -
  obtain a where a: "bitmap bm = Some a" "length a = bitmap_size bm" "bits bm = bits_of a" "mutex bm \<noteq> Some True"
    by (rule bitmap_invE [OF assms(1)])
  obtain b where b: "bitmap bm2 = Some b" "length b = bitmap_size bm2" "bits bm2 = bits_of b" "mutex bm2 \<noteq> Some True"
    by (rule bitmap_invE [OF assms(2)])
  let ?m = "min (length a) (length b)"
  obtain c where c: "combine_loop (AND) a b 0 ?m = Some c" "length c = length a"
    "\<forall>k<length a. c ! k = (if k < ?m then a ! k AND b ! k else a ! k)"
    using combine_ok [of 0 ?m a b "(AND)"] by auto
  obtain d where d: "(if length b < length a then fill_loop 0 c ?m (length a - length b) else Some c) = Some d"
    "length d = length a" "\<forall>k<length a. d ! k = (if k < ?m then a ! k AND b ! k else 0)"
  proof (cases "length b < length a")
    case True
    then show ?thesis using fill_ok [of ?m "length a - length b" c 0] c that by auto
  next
    case False
    then show ?thesis using c that by auto
  qed
  have "bits_of d = {i. i < 8 * length a \<and> (i \<in> bits_of a \<and> i \<in> bits_of b)}"
  proof (rule bits_bytewise [OF d(2)], intro allI impI)
    fix k j assume k: "k < length a" and j: "j < (8 :: nat)"
    show "bit (d ! k) j \<longleftrightarrow> 8 * k + j \<in> bits_of a \<and> 8 * k + j \<in> bits_of b"
    proof (cases "k < length b")
      case True
      then show ?thesis using d(3) k bit_at [OF k j] bit_at [OF True j] by (simp add: bit_simps)
    next
      case False
      then have "8 * k + j \<notin> bits_of b" using bits_lt [of "8 * k + j" b] by linarith
      then show ?thesis using d(3) k False by simp
    qed
  qed
  then have "bits_of d = bits_of a \<inter> bits_of b" using bits_lt [of _ a] by auto
  moreover have "bitmap_intersect bm bm2 = Some (bm\<lparr>bitmap := Some d\<rparr>)"
    using a b c(1) d(1) by (auto simp: bitmap_intersect_def Let_def split: if_splits)
  ultimately show ?thesis using a b new_bytes [OF assms(1), of d] d(2) by simp
qed

lemma set_above_ok:
  assumes "bitmap_inv bm" "n \<le> bitmap_size bm"
  shows "\<exists>bm'. bitmap_set_above bm n v = Some bm' \<and> bitmap_inv bm' \<and>
    bits bm' = bits bm \<inter> {..<8 * n} \<union> (if v then {8 * n..<8 * bitmap_size bm} else {})"
  using bitmap_invE [OF assms(1)]
proof cases
  case (1 a)
  let ?v = "if v then 255 else 0 :: uchar"
  obtain c where c: "fill_loop ?v a n (length a - n) = Some c" "length c = length a"
    "\<forall>k<length a. c ! k = (if n \<le> k then ?v else a ! k)"
    using fill_ok [of n "length a - n" a ?v] assms(2) 1 by auto
  have "bits_of c = {i. i < 8 * length a \<and> (if i < 8 * n then i \<in> bits_of a else v)}"
  proof (rule bits_bytewise [OF c(2)], intro allI impI)
    fix k j assume k: "k < length a" and j: "j < (8 :: nat)"
    have "8 * k + j < 8 * n \<longleftrightarrow> k < n" using j by linarith
    then show "bit (c ! k) j \<longleftrightarrow> (if 8 * k + j < 8 * n then 8 * k + j \<in> bits_of a else v)"
      using c(3) k bit_at [OF k j] bit_full [OF j] by (auto simp del: bit_numeral_word_iff)
  qed
  then have "bits_of c = bits_of a \<inter> {..<8 * n} \<union> (if v then {8 * n..<8 * length a} else {})"
    using bits_lt [of _ a] by (auto split: if_splits)
  then show ?thesis using 1 c(1,2) new_bytes [OF assms(1), of c] by (simp add: bitmap_set_above_def)
qed

section \<open>Counting\<close>

text \<open>The table of all numbers below \<open>2 ^ n\<close>, by doubling.\<close>

fun bit_counts :: "nat \<Rightarrow> nat list" where
  "bit_counts 0 = [0]"
| "bit_counts (Suc n) = bit_counts n @ map Suc (bit_counts n)"

lemma bit_counts_length [simp]: "length (bit_counts n) = 2 ^ n"
  by (induction n) auto

lemma bit_counts_nth: "v < 2 ^ n \<Longrightarrow> bit_counts n ! v = length (filter (bit v) [0..<n])"
proof (induction n arbitrary: v)
  case (Suc n)
  show ?case
  proof (cases "v < 2 ^ n")
    case True
    then have "\<not> bit v n" by (simp add: bit_iff_odd)
    then show ?thesis using Suc.IH [OF True] True by (simp add: nth_append)
  next
    case False
    then obtain w where w: "v = 2 ^ n + w" using le_Suc_ex by (auto simp: not_less)
    then have wn: "w < 2 ^ n" using Suc.prems by simp
    have "bit v n" unfolding w bit_iff_odd using wn div_add_self1 [of "2 ^ n" w] by simp
    moreover have "bit v j = bit w j" if j: "j < n" for j
    proof -
      have "v div 2 ^ j = 2 ^ (n - j) + w div 2 ^ j"
        using j unfolding w by (simp add: div_plus_div_distrib_dvd_left le_imp_power_dvd power_diff)
      then show ?thesis using j by (simp add: bit_iff_odd)
    qed
    then have "filter (bit v) [0..<n] = filter (bit w) [0..<n]" by (intro filter_cong) auto
    ultimately show ?thesis using Suc.IH [OF wn] wn w by (simp add: nth_append)
  qed
qed simp

lemma nbits_table: "v < 256 \<Longrightarrow> nbits ! v = length (filter (bit v) [0..<8])"
proof -
  have "nbits = bit_counts 8" by (simp add: nbits_def numeral_eq_Suc)
  then show "v < 256 \<Longrightarrow> nbits ! v = length (filter (bit v) [0..<8])" using bit_counts_nth [of v 8] by simp
qed

lemma nbits_length: "length nbits = 256"
  by (simp add: nbits_def)

lemma filter_card: "card {j. j < n \<and> P j} = length (filter P [0..<n])"
  by (subst distinct_card [symmetric]) (auto intro: arg_cong [of _ _ card])

lemma byte_count: "rd nbits (unat x) = Some (card {j. j < 8 \<and> bit x j})" for x :: uchar
proof -
  have "unat x < 256" using unsigned_less [of x, where 'a = nat] by simp
  moreover have "bit (unat x) = bit x" by (simp add: fun_eq_iff bit_unsigned_iff)
  ultimately show ?thesis using nbits_table [of "unat x"] by (simp add: nbits_length filter_card)
qed

lemma bits_set_loop_ok:
  "i + n \<le> length m \<Longrightarrow> res + 8 * n < UINT_RANGE \<Longrightarrow>
   bits_set_loop m i n res = Some (res + card {k. 8 * i \<le> k \<and> k < 8 * (i + n) \<and> k \<in> bits_of m})"
proof (induction n arbitrary: i res)
  case (Suc n)
  let ?c = "card {j. j < 8 \<and> bit (m ! i) j}"
  have "?c \<le> card {j :: nat. j < 8}" by (rule card_mono) auto
  then have c: "?c \<le> 8" by simp
  have count: "my_count_bits_ushort (ucast (m ! i)) = Some ?c"
    using byte_count [of "m ! i"] unsigned_less [of "m ! i", where 'a = nat]
    by (simp add: my_count_bits_ushort_def unsigned_ucast_eq take_bit_nat_eq_self)
  let ?A = "{k. 8 * i \<le> k \<and> k < 8 * Suc i \<and> k \<in> bits_of m}" let ?B = "{k. 8 * Suc i \<le> k \<and> k < 8 * (Suc i + n) \<and> k \<in> bits_of m}"
  have "?A = (\<lambda>j. 8 * i + j) ` {j. j < 8 \<and> bit (m ! i) j}"
  proof (intro set_eqI iffI)
    fix k assume k: "k \<in> ?A"
    then obtain j where "k = 8 * i + j" using le_Suc_ex by auto
    then show "k \<in> (\<lambda>j. 8 * i + j) ` {j. j < 8 \<and> bit (m ! i) j}" using k by (auto simp: mem_bits)
  qed (use Suc.prems(1) in \<open>auto simp: mem_bits\<close>)
  then have "card ?A = ?c" by (simp add: card_image)
  moreover have "{k. 8 * i \<le> k \<and> k < 8 * (i + Suc n) \<and> k \<in> bits_of m} = ?A \<union> ?B" by auto
  moreover have "card (?A \<union> ?B) = card ?A + card ?B" by (rule card_Un_disjoint) auto
  ultimately show ?case using Suc.IH [of "Suc i" "res + ?c"] Suc.prems c count by simp
qed simp

lemma bits_set_ok:
  assumes "bitmap_inv bm"
  shows "bitmap_bits_set bm = Some (card (bits bm))"
  using bitmap_invE [OF assms]
proof cases
  case (1 bs)
  have "{k. k < 8 * length bs \<and> k \<in> bits_of bs} = bits_of bs" using bits_lt by auto
  then have "bits_set_loop bs 0 (length bs) 0 = Some (card (bits_of bs))"
    using bits_set_loop_ok [of 0 "length bs" bs 0] 1 by simp
  then show ?thesis using 1 by (simp add: bitmap_bits_set_def)
qed

lemma count_split: "length (filter (bit v) [k..<k + 8]) = card {j. j < 8 \<and> bit (ucast (drop_bit k v) :: uchar) j}"
  for v :: "64 word"
proof -
  have "[k..<k + 8] = map (\<lambda>j. j + k) [0..<8]" using map_add_upt [of k 8] by (simp add: add.commute)
  then have "length (filter (bit v) [k..<k + 8]) = length (filter (\<lambda>j. bit v (k + j)) [0..<8])"
    by (simp add: filter_map o_def add.commute)
  moreover have "{j. j < 8 \<and> bit (ucast (drop_bit k v) :: uchar) j} = {j. j < 8 \<and> bit v (k + j)}"
    by (auto simp: bit_simps)
  ultimately show ?thesis by (simp add: filter_card)
qed

lemma count_bits_ok: "my_count_bits v = Some (card {j. bit v j})"
proof -
  have at: "rd nbits (unat (ucast (drop_bit k v) :: uchar)) = Some (length (filter (bit v) [k..<k + 8]))" for k
    unfolding byte_count count_split ..
  have "{j. bit v j} = {j. j < 64 \<and> bit v j}" using bit_imp_le_length [of v] by force
  then have card: "card {j. bit v j} = length (filter (bit v) [0..<64])" by (simp add: filter_card)
  have "[0..<64] = [0..<0 + 8] @ [8..<8 + 8] @ [16..<16 + 8] @ [24..<24 + 8] @ [32..<32 + 8] @ [40..<40 + 8] @
      [48..<48 + 8] @ [56..<56 + 8 :: nat]" by code_simp
  then have sum: "length (filter (bit v) [0..<64]) = (\<Sum>k\<leftarrow>[0, 8, 16, 24, 32, 40, 48, 56]. length (filter (bit v) [k..<k + 8]))"
    by simp
  have "length (filter (bit v) [0..<64]) \<le> 64" using length_filter_le [of "bit v" "[0..<64]"] by simp
  moreover have "drop_bit 8 (drop_bit 32 v) = drop_bit 40 v" "drop_bit 16 (drop_bit 32 v) = drop_bit 48 v"
    "drop_bit 24 (drop_bit 32 v) = drop_bit 56 v" by (simp_all add: drop_bit_drop_bit)
  ultimately show ?thesis
    using at [of 0] at [of 8] at [of 16] at [of 24] at [of 32] at [of 40] at [of 48] at [of 56] sum card
    by (simp add: my_count_bits_def Let_def del: upt_rec_numeral)
qed

lemma log2_loop: "0 < v \<Longrightarrow> 2 ^ (my_bit_log2_loop v n - n) \<le> v \<and> v < 2 ^ Suc (my_bit_log2_loop v n - n) \<and> n \<le> my_bit_log2_loop v n"
proof (induction v n rule: my_bit_log2_loop.induct)
  case (1 v n)
  show ?case
  proof (cases "v > 1")
    case True
    let ?l = "my_bit_log2_loop (v div 2) (Suc n)"
    have ih: "2 ^ (?l - Suc n) \<le> v div 2" "v div 2 < 2 ^ Suc (?l - Suc n)" "Suc n \<le> ?l"
      using 1 True by (auto simp: drop_bit_Suc)
    have "?l - n = Suc (?l - Suc n)" using ih(3) by simp
    moreover have "my_bit_log2_loop v n = ?l" using True by (subst my_bit_log2_loop.simps) (simp add: drop_bit_Suc)
    moreover have "2 * 2 ^ (?l - Suc n) \<le> v" using ih(1) by linarith
    moreover have "v < 2 * (2 * 2 ^ (?l - Suc n))" using ih(2) unfolding power_Suc by linarith
    ultimately show ?thesis using ih(3) by simp
  next
    case False
    then show ?thesis using 1(2) by (subst (1 2 3) my_bit_log2_loop.simps) simp
  qed
qed

section \<open>Interface: sets of small numbers\<close>

text \<open>What the owner of a map (the server keeps sets of tables and key parts in them) relies on.\<close>

datatype bit_op = Set_bit nat | Clear_bit nat

fun op_bit :: "bit_op \<Rightarrow> nat" where
  "op_bit (Set_bit b) = b"
| "op_bit (Clear_bit b) = b"

fun apply_op :: "bit_op \<Rightarrow> nat set \<Rightarrow> nat set" where
  "apply_op (Set_bit b) S = insert b S"
| "apply_op (Clear_bit b) S = S - {b}"

primrec run_op :: "('s \<Rightarrow> nat \<Rightarrow> 's option) \<Rightarrow> ('s \<Rightarrow> nat \<Rightarrow> 's option) \<Rightarrow> 's \<Rightarrow> bit_op \<Rightarrow> 's option" where
  "run_op ins del s (Set_bit b) = ins s b"
| "run_op ins del s (Clear_bit b) = del s b"

locale number_set =
  fixes ins :: "'s \<Rightarrow> nat \<Rightarrow> 's option"
    and del :: "'s \<Rightarrow> nat \<Rightarrow> 's option"
    and memb :: "'s \<Rightarrow> nat \<Rightarrow> bool option"
    and elems :: "'s \<Rightarrow> nat set"
    and cap :: "'s \<Rightarrow> nat"
    and invar :: "'s \<Rightarrow> bool"
  assumes ins_law: "invar s \<Longrightarrow> b < cap s \<Longrightarrow>
      \<exists>s'. ins s b = Some s' \<and> invar s' \<and> cap s' = cap s \<and> elems s' = insert b (elems s)"
    and del_law: "invar s \<Longrightarrow> b < cap s \<Longrightarrow>
      \<exists>s'. del s b = Some s' \<and> invar s' \<and> cap s' = cap s \<and> elems s' = elems s - {b}"
    and memb_law: "invar s \<Longrightarrow> b < cap s \<Longrightarrow> memb s b = Some (b \<in> elems s)"
begin

lemma script_law:
  assumes "invar s" "\<forall>x\<in>set xs. op_bit x < cap s"
  shows "\<exists>s'. fold_opt (run_op ins del) s xs = Some s' \<and> invar s' \<and> elems s' = fold apply_op xs (elems s) \<and>
    (\<forall>b<cap s. memb s' b = Some (b \<in> fold apply_op xs (elems s)))"
  using assms
proof (induction xs arbitrary: s)
  case Nil
  then show ?case using memb_law by auto
next
  case (Cons x xs)
  obtain s1 where s1: "run_op ins del s x = Some s1" "invar s1" "cap s1 = cap s" "elems s1 = apply_op x (elems s)"
    using ins_law [of s "op_bit x"] del_law [of s "op_bit x"] Cons.prems by (cases x) auto
  then show ?case using Cons.IH [of s1] Cons.prems by auto
qed

end

interpretation my_bitmap: number_set bitmap_set_bit bitmap_clear_bit bitmap_is_set bits
  "\<lambda>bm. 8 * bitmap_size bm" bitmap_inv
  using set_bit_ok clear_bit_ok is_set_ok by unfold_locales auto

section \<open>Properties\<close>

definition zero_map :: "nat \<Rightarrow> MY_BITMAP" where
  "zero_map n = \<lparr>bitmap = Some (replicate n 0), bitmap_size = n, mutex = Some False\<rparr>"

lemma zero_map_inv: "n < 536870912 \<Longrightarrow> bitmap_inv (zero_map n)" "bits (zero_map n) = {}" "bitmap_size (zero_map n) = n"
  by (auto simp: zero_map_def bitmap_inv_def bits_def mem_bits)

text \<open>C22 \<open>bitmap_init\<close> yields a well-formed empty map when the memory is there and reports the
  failure otherwise; on the new map every sequence of \<open>bitmap_set_bit\<close> and \<open>bitmap_clear_bit\<close> on
  bits of the map succeeds and leaves the set that the same operations on sets give, and
  \<open>bitmap_is_set\<close> answers accordingly for every bit.\<close>

theorem bitmap_script:
  assumes "8 dvd size_bits" "size_bits < UINT_RANGE" and "\<forall>x\<in>set ops. op_bit x < size_bits"
  shows "bitmap_init False bm None size_bits ts = Some (bm\<lparr>bitmap := None\<rparr>, True) \<and>
    (\<exists>bm1 bm2. bitmap_init True bm None size_bits ts = Some (bm1, False) \<and>
       fold_opt (run_op bitmap_set_bit bitmap_clear_bit) bm1 ops = Some bm2 \<and> bitmap_inv bm2 \<and> bits bm2 = fold apply_op ops {} \<and>
       (\<forall>b < size_bits. bitmap_is_set bm2 b = Some (b \<in> fold apply_op ops {})))"
proof -
  let ?m = "bm\<lparr>bitmap := Some (replicate (size_bits div 8) 0), bitmap_size := size_bits div 8,
      mutex := (if ts then Some False else None)\<rparr>"
  have m: "bitmap_inv ?m" "bits ?m = {}" "8 * bitmap_size ?m = size_bits"
    using assms(1,2) by (auto simp: bitmap_inv_def bits_def mem_bits)
  moreover have "bitmap_init True bm None size_bits ts = Some (?m, False)"
    "bitmap_init False bm None size_bits ts = Some (bm\<lparr>bitmap := None\<rparr>, True)"
    using assms(1) by (auto simp: bitmap_init_def Let_def)
  ultimately show ?thesis using my_bitmap.script_law [OF m(1), of ops] assms(3) by auto
qed

lemma bitmap_script_witness:
  "\<exists>bm1 bm2. bitmap_init True (zero_map 0) None 16 True = Some (bm1, False) \<and>
     fold_opt (run_op bitmap_set_bit bitmap_clear_bit) bm1 [Set_bit 3, Set_bit 9, Clear_bit 3] = Some bm2 \<and> bits bm2 = {9}"
proof -
  have "fold apply_op [Set_bit 3, Set_bit 9, Clear_bit 3] {} = {9}" by auto
  then show ?thesis using bitmap_script [of 16 "[Set_bit 3, Set_bit 9, Clear_bit 3]" "zero_map 0" True] by auto
qed

text \<open>C23 The operations on two maps compute union, difference and intersection of the sets (for the
  intersection also of maps of different sizes), and the tests decide inclusion and equality.\<close>

theorem bitmap_set_algebra:
  assumes "bitmap_inv bm" "bitmap_inv bm2"
  shows "(\<exists>bm'. bitmap_intersect bm bm2 = Some bm' \<and> bitmap_inv bm' \<and> bits bm' = bits bm \<inter> bits bm2) \<and>
    (bitmap_size bm = bitmap_size bm2 \<longrightarrow>
      (\<exists>bm'. bitmap_union bm bm2 = Some bm' \<and> bitmap_inv bm' \<and> bits bm' = bits bm \<union> bits bm2) \<and>
      (\<exists>bm'. bitmap_subtract bm bm2 = Some bm' \<and> bitmap_inv bm' \<and> bits bm' = bits bm - bits bm2) \<and>
      bitmap_is_subset bm bm2 = Some (bits bm \<subseteq> bits bm2) \<and> bitmap_cmp bm bm2 = Some (bits bm = bits bm2))"
  using intersect_ok [OF assms] union_subtract_ok [OF assms] is_subset_ok [OF assms] by blast

lemma bitmap_set_algebra_witness:
  "bitmap_is_subset (zero_map 2) (zero_map 2) = Some True \<and> bitmap_cmp (zero_map 2) (zero_map 2) = Some True \<and>
   (\<exists>bm'. bitmap_union (zero_map 2) (zero_map 2) = Some bm' \<and> bits bm' = {})"
  using bitmap_set_algebra [of "zero_map 2" "zero_map 2"] zero_map_inv [of 2] by auto

text \<open>C33 \<open>bitmap_set_prefix\<close> leaves exactly the first \<open>p\<close> bits set (all of them for \<open>p = ~0\<close>), and
  \<open>bitmap_is_prefix\<close> recognises the length of the prefix: it answers true for \<open>q\<close> exactly if
  \<open>q\<close> is that length.\<close>

theorem bitmap_prefix_roundtrip:
  assumes "bitmap_inv bm" "p \<le> 8 * bitmap_size bm \<or> p = MY_BIT_NONE" "q \<le> 8 * bitmap_size bm"
  shows "\<exists>bm'. bitmap_set_prefix bm p = Some bm' \<and> bitmap_inv bm' \<and> bits bm' = {..<min p (8 * bitmap_size bm)} \<and>
    bitmap_is_prefix bm' q = Some (q = min p (8 * bitmap_size bm))"
proof -
  obtain bm' where bm': "bitmap_set_prefix bm p = Some bm'" "bitmap_inv bm'" "bitmap_size bm' = bitmap_size bm"
    "bits bm' = {..<min p (8 * bitmap_size bm)}" using set_prefix_ok [OF assms(1,2)] by blast
  then have "bitmap_is_prefix bm' q = Some (bits bm' = {..<q})" using is_prefix_ok [of bm' q] assms(3) by simp
  moreover have "bits bm' = {..<q} \<longleftrightarrow> q = min p (8 * bitmap_size bm)" unfolding bm'(4) lessThan_eq_iff by auto
  ultimately show ?thesis using bm' by auto
qed

lemma bitmap_prefix_roundtrip_witness:
  "\<exists>bm'. bitmap_set_prefix (zero_map 2) 11 = Some bm' \<and> bits bm' = {..<11} \<and> bitmap_is_prefix bm' 11 = Some True"
  using bitmap_prefix_roundtrip [of "zero_map 2" 11 11] zero_map_inv [of 2] by auto

text \<open>C34 On a map that is not full, \<open>bitmap_set_next\<close> sets and returns the smallest bit that is
  not set, the one \<open>bitmap_get_first\<close> reports.\<close>

theorem bitmap_set_next_correct:
  assumes "bitmap_inv bm" "bits bm \<noteq> {..<8 * bitmap_size bm}"
  shows "\<exists>bm' i. bitmap_set_next bm = Some (bm', i) \<and> bitmap_inv bm' \<and> bits bm' = insert i (bits bm) \<and>
    i < 8 * bitmap_size bm \<and> i \<notin> bits bm \<and> (\<forall>j<i. j \<in> bits bm) \<and> bitmap_get_first bm = Some i"
  by (rule set_next_ok [OF assms])

lemma bitmap_set_next_correct_witness: "\<exists>bm'. bitmap_set_next (zero_map 1) = Some (bm', 0) \<and> bits bm' = {0}"
proof -
  have "{} \<noteq> {..<8 :: nat}" by (metis empty_iff lessThan_iff zero_less_numeral)
  then show ?thesis using bitmap_set_next_correct [of "zero_map 1"] zero_map_inv [of 1] by auto
qed

text \<open>On a full map both loops run past the last byte: their bound is the number of bits, not
  of bytes, so that the documented answer \<open>MY_BIT_NONE\<close> is never given and memory behind the
  map is read (and, in \<open>bitmap_set_next\<close>, changed).\<close>

theorem bitmap_set_next_full:
  assumes "bitmap_inv bm" "bits bm = {..<8 * bitmap_size bm}" "0 < bitmap_size bm"
  shows "bitmap_set_next bm = None \<and> bitmap_get_first bm = None"
  using set_next_full [OF assms] by blast

lemma bitmap_set_next_full_witness:
  "\<exists>bm. bitmap_set_all (zero_map 1) = Some bm \<and> bitmap_set_next bm = None \<and> bitmap_get_first bm = None"
proof -
  obtain bm where bm: "bitmap_set_prefix (zero_map 1) MY_BIT_NONE = Some bm" "bitmap_inv bm" "bitmap_size bm = 1"
    "bits bm = {..<8}" using set_prefix_ok [of "zero_map 1" MY_BIT_NONE] zero_map_inv [of 1] by auto
  then show ?thesis using bitmap_set_next_full [of bm] by (simp add: bitmap_set_all_def)
qed

text \<open>\<open>bitmap_bits_set\<close> is the number of bits set, and \<open>my_count_bits\<close> the number of ones of a
  64-bit number: the table has the right entries and neither sum wraps around.\<close>

theorem bitmap_counts:
  assumes "bitmap_inv bm"
  shows "bitmap_bits_set bm = Some (card (bits bm)) \<and> my_count_bits v = Some (card {j. bit v j})"
  using bits_set_ok [OF assms] count_bits_ok by blast

lemma bitmap_counts_witness: "bitmap_bits_set (zero_map 3) = Some 0 \<and> my_count_bits 0 = Some 0"
  using bitmap_counts [of "zero_map 3" 0] zero_map_inv [of 3] by simp

text \<open>\<open>my_bit_log2\<close> terminates with the rounded-down logarithm, although its comment promises
  the smallest exponent whose power is not below the value.\<close>

theorem my_bit_log2_floor:
  assumes "0 < v"
  shows "2 ^ my_bit_log2 v \<le> v \<and> v < 2 ^ Suc (my_bit_log2 v)"
  using log2_loop [OF assms, of 0] by (simp add: my_bit_log2_def)

lemma my_bit_log2_floor_witness: "my_bit_log2 5 = 2 \<and> 2 ^ my_bit_log2 5 < (5 :: nat)"
proof -
  have "my_bit_log2 5 = 2" by (simp add: my_bit_log2_def my_bit_log2_loop.simps drop_bit_eq_div)
  then show ?thesis using my_bit_log2_floor [of 5] by simp
qed

end
