(* ===== verification/Pack.thy ===== *)
theory Pack
  imports Prelude "HOL-Library.Word"
begin

text \<open>
  Length-encoded integers of the client/server protocol (\<open>sql-common/pack.c\<close>), over the
  byte-wise store and load macros of \<open>include/my_global.h\<close>.  A packet is a list of bytes, the
  packet pointer an index into it.
\<close>

section \<open>Little-endian loads and stores\<close>

definition byte_at :: "8 word list \<Rightarrow> nat \<Rightarrow> nat option" where
  "byte_at p i = map_option unat (rd p i)"

definition uint2korr :: "8 word list \<Rightarrow> nat \<Rightarrow> nat option" where
  "uint2korr p i = do { a \<leftarrow> byte_at p i; b \<leftarrow> byte_at p (i + 1); Some (a + b * 256) }"

definition uint3korr :: "8 word list \<Rightarrow> nat \<Rightarrow> nat option" where
  "uint3korr p i = do { a \<leftarrow> byte_at p i; b \<leftarrow> byte_at p (i + 1); c \<leftarrow> byte_at p (i + 2);
     Some (a + b * 256 + c * 65536) }"

definition uint4korr :: "8 word list \<Rightarrow> nat \<Rightarrow> nat option" where
  "uint4korr p i = do { a \<leftarrow> byte_at p i; b \<leftarrow> byte_at p (i + 1); c \<leftarrow> byte_at p (i + 2);
     d \<leftarrow> byte_at p (i + 3); Some (a + b * 256 + c * 65536 + d * 16777216) }"

definition uint8korr :: "8 word list \<Rightarrow> nat \<Rightarrow> nat option" where
  "uint8korr p i = do { lo \<leftarrow> uint4korr p i; hi \<leftarrow> uint4korr p (i + 4); Some (lo + hi * UINT_RANGE) }"

definition store_byte :: "8 word list \<Rightarrow> nat \<Rightarrow> nat \<Rightarrow> 8 word list option" where
  "store_byte p i v = wr p i (of_nat v)"

definition int2store :: "8 word list \<Rightarrow> nat \<Rightarrow> nat \<Rightarrow> 8 word list option" where
  "int2store p i v = do { p \<leftarrow> store_byte p i v; store_byte p (i + 1) (v div 256) }"

definition int3store :: "8 word list \<Rightarrow> nat \<Rightarrow> nat \<Rightarrow> 8 word list option" where
  "int3store p i v = do { p \<leftarrow> store_byte p i v; p \<leftarrow> store_byte p (i + 1) (v div 256);
     store_byte p (i + 2) (v div 65536) }"

definition int4store :: "8 word list \<Rightarrow> nat \<Rightarrow> nat \<Rightarrow> 8 word list option" where
  "int4store p i v = do { p \<leftarrow> store_byte p i v; p \<leftarrow> store_byte p (i + 1) (v div 256);
     p \<leftarrow> store_byte p (i + 2) (v div 65536); store_byte p (i + 3) (v div 16777216) }"

definition int8store :: "8 word list \<Rightarrow> nat \<Rightarrow> nat \<Rightarrow> 8 word list option" where
  "int8store p i v =
     (let def_temp = v mod UINT_RANGE; def_temp2 = v div UINT_RANGE mod UINT_RANGE
      in do { p \<leftarrow> int4store p i def_temp; int4store p (i + 4) def_temp2 })"

section \<open>Length-encoded integers\<close>

abbreviation NULL_LENGTH :: nat where "NULL_LENGTH \<equiv> 18446744073709551615"

definition net_field_length :: "8 word list \<Rightarrow> nat \<Rightarrow> (nat \<times> nat) option" where
  "net_field_length packet pos =
     do {
       b \<leftarrow> byte_at packet pos;
       if b < 251 then Some (b, pos + 1)
       else if b = 251 then Some (NULL_LENGTH, pos + 1)
       else if b = 252 then do { v \<leftarrow> uint2korr packet (pos + 1); Some (v, pos + 3) }
       else if b = 253 then do { v \<leftarrow> uint3korr packet (pos + 1); Some (v, pos + 4) }
       else do { v \<leftarrow> uint4korr packet (pos + 1); Some (v, pos + 9) }
     }"

definition net_field_length_ll :: "8 word list \<Rightarrow> nat \<Rightarrow> (nat \<times> nat) option" where
  "net_field_length_ll packet pos =
     do {
       b \<leftarrow> byte_at packet pos;
       if b < 251 then Some (b, pos + 1)
       else if b = 251 then Some (NULL_LENGTH, pos + 1)
       else if b = 252 then do { v \<leftarrow> uint2korr packet (pos + 1); Some (v, pos + 3) }
       else if b = 253 then do { v \<leftarrow> uint3korr packet (pos + 1); Some (v, pos + 4) }
       else do { v \<leftarrow> uint8korr packet (pos + 1); Some (v, pos + 9) }
     }"

definition net_store_length :: "8 word list \<Rightarrow> nat \<Rightarrow> nat \<Rightarrow> (8 word list \<times> nat) option" where
  "net_store_length packet pos len =
     (if len < 251 then do { p \<leftarrow> store_byte packet pos len; Some (p, pos + 1) }
      else if len < 65536 then do { p \<leftarrow> store_byte packet pos 252; p \<leftarrow> int2store p (pos + 1) len; Some (p, pos + 3) }
      else if len < 16777216 then do { p \<leftarrow> store_byte packet pos 253; p \<leftarrow> int3store p (pos + 1) len; Some (p, pos + 4) }
      else do { p \<leftarrow> store_byte packet pos 254; p \<leftarrow> int8store p (pos + 1) len; Some (p, pos + 9) })"

section \<open>Bytes of numbers\<close>

lemma unat_byte [simp]: "unat (of_nat n :: 8 word) = n mod 256"
  by (simp add: unat_of_nat)

lemma byte_at_upd [simp]:
  "i < length p \<Longrightarrow> byte_at (p[j := b]) i = (if i = j then Some (unat b) else byte_at p i)"
  by (simp add: byte_at_def)

lemma split_4: "v mod UINT_RANGE = v mod 256 + v div 256 mod 256 * 256 + v div 65536 mod 256 * 65536 + v div 16777216 mod 256 * 16777216"
  for v :: nat
proof -
  have "v mod (256 * (256 * (256 * 256))) = 256 * (v div 256 mod (256 * (256 * 256))) + v mod 256" by (rule mod_mult2_eq)
  moreover have "v div 256 mod (256 * (256 * 256)) = 256 * (v div 256 div 256 mod (256 * 256)) + v div 256 mod 256" by (rule mod_mult2_eq)
  moreover have "v div 256 div 256 mod (256 * 256) = 256 * (v div 256 div 256 div 256 mod 256) + v div 256 div 256 mod 256" by (rule mod_mult2_eq)
  ultimately show ?thesis by (simp add: div_mult2_eq [symmetric])
qed

lemma int4_ok:
  assumes "i + 4 \<le> length p"
  shows "\<exists>p'. int4store p i v = Some p' \<and> length p' = length p \<and> uint4korr p' i = Some (v mod UINT_RANGE) \<and>
    (\<forall>j. j < i \<or> i + 4 \<le> j \<longrightarrow> byte_at p' j = byte_at p j)"
  using assms by (auto simp: int4store_def store_byte_def uint4korr_def split_4 byte_at_def rd_def)

lemma int8_ok:
  assumes "i + 8 \<le> length p" "v < 18446744073709551616"
  shows "\<exists>p'. int8store p i v = Some p' \<and> length p' = length p \<and> uint8korr p' i = Some v \<and>
    uint4korr p' i = Some (v mod UINT_RANGE) \<and> (\<forall>j<i. byte_at p' j = byte_at p j)"
proof -
  obtain p1 where p1: "int4store p i (v mod UINT_RANGE) = Some p1" "length p1 = length p"
    "uint4korr p1 i = Some (v mod UINT_RANGE)" "\<forall>j. j < i \<or> i + 4 \<le> j \<longrightarrow> byte_at p1 j = byte_at p j"
    using int4_ok [of i p "v mod UINT_RANGE"] assms by auto
  obtain p2 where p2: "int4store p1 (i + 4) (v div UINT_RANGE mod UINT_RANGE) = Some p2" "length p2 = length p1"
    "uint4korr p2 (i + 4) = Some (v div UINT_RANGE mod UINT_RANGE)" "\<forall>j. j < i + 4 \<or> i + 8 \<le> j \<longrightarrow> byte_at p2 j = byte_at p1 j"
    using int4_ok [of "i + 4" p1 "v div UINT_RANGE mod UINT_RANGE"] assms p1 by (auto simp: add.assoc)
  have lo: "uint4korr p2 i = Some (v mod UINT_RANGE)" using p1(3) p2(4) by (simp add: uint4korr_def)
  have "v div UINT_RANGE mod UINT_RANGE = v div UINT_RANGE" using assms(2) by (simp add: less_mult_imp_div_less)
  moreover have "v mod UINT_RANGE + v div UINT_RANGE * UINT_RANGE = v" by (rule mod_div_mult_eq)
  ultimately have "uint8korr p2 i = Some v" using lo p2(3) by (simp add: uint8korr_def)
  then show ?thesis using p1 p2 lo by (auto simp: int8store_def Let_def)
qed

section \<open>Properties\<close>

text \<open>C29 What \<open>net_store_length\<close> writes, \<open>net_field_length_ll\<close> reads back, leaving the packet
  pointer behind the same bytes, for every 64-bit number; \<open>net_field_length\<close> reads it back only
  modulo 2 to the power 32, although its result has 64 bits.\<close>

theorem net_length_roundtrip:
  assumes "v < 18446744073709551616" "pos + 9 \<le> length packet"
  shows "\<exists>p q. net_store_length packet pos v = Some (p, q) \<and> length p = length packet \<and> pos < q \<and> q \<le> pos + 9 \<and>
    net_field_length_ll p pos = Some (v, q) \<and> net_field_length p pos = Some (v mod UINT_RANGE, q)"
proof -
  consider "v < 251" | "251 \<le> v" "v < 65536" | "65536 \<le> v" "v < 16777216" | "16777216 \<le> v" by linarith
  then show ?thesis
  proof cases
    case 1
    then show ?thesis using assms(2)
      by (simp add: net_store_length_def store_byte_def net_field_length_def net_field_length_ll_def)
  next
    case 2
    then have "v mod 256 + v div 256 mod 256 * 256 = v" by simp
    then show ?thesis using 2 assms(2)
      by (simp add: net_store_length_def store_byte_def net_field_length_def net_field_length_ll_def int2store_def uint2korr_def)
  next
    case 3
    then have "v mod 256 + v div 256 mod 256 * 256 + v div 65536 mod 256 * 65536 = v" using split_4 [of v] by simp
    then show ?thesis using 3 assms(2)
      by (simp add: net_store_length_def store_byte_def net_field_length_def net_field_length_ll_def int3store_def uint3korr_def)
  next
    case 4
    let ?p = "packet[pos := of_nat 254]"
    obtain p where p: "int8store ?p (pos + 1) v = Some p" "length p = length packet" "uint8korr p (pos + 1) = Some v"
      "uint4korr p (pos + 1) = Some (v mod UINT_RANGE)" "\<forall>j<pos + 1. byte_at p j = byte_at ?p j"
      using int8_ok [of "pos + 1" ?p v] assms by auto
    have "byte_at p pos = Some 254" using p(5) assms(2) by simp
    then show ?thesis using 4 assms(2) p
      by (simp add: net_store_length_def store_byte_def net_field_length_def net_field_length_ll_def)
  qed
qed

lemma net_length_roundtrip_witness:
  "\<exists>p q. net_store_length (replicate 9 0) 0 4294967301 = Some (p, q) \<and>
     net_field_length_ll p 0 = Some (4294967301, q) \<and> net_field_length p 0 = Some (5, q)"
  using net_length_roundtrip [of 4294967301 0 "replicate 9 0"] by auto

end
