(* ===== verification/My_Time.thy ===== *)
theory My_Time
  imports Prelude
begin

text \<open>
  Dates and times of \<open>sql-common/my_time.c\<close>: validation, day numbers, conversion between the
  structure \<open>MYSQL_TIME\<close>, strings and numbers.

  A string with its end pointer is the list of the characters between them, so that a pointer that
  moves towards the end is a shrinking list.  The fields of the structure are \<open>unsigned int\<close>
  values, held as numbers with their wrap-around written out.  \<open>long\<close> has 64 bits.
\<close>

unbundle bit_operations_syntax

section \<open>Character classes of latin1\<close>

definition ctype_latin1 :: "nat list" where
  "ctype_latin1 = [
    0,  32,  32,  32,  32,  32,  32,  32,  32,  32,  40,  40, 40, 40, 40, 32, 32, 32, 32,  32,  32,  32,  32,  32,
    32, 32,  32,  32,  32,  32,  32,  32,  32,  72,  16,  16, 16, 16, 16, 16, 16, 16, 16,  16,  16,  16,  16,  16,
    16, 132, 132, 132, 132, 132, 132, 132, 132, 132, 132, 16, 16, 16, 16, 16, 16, 16, 129, 129, 129, 129, 129, 129,
    1,  1,   1,   1,   1,   1,   1,   1,   1,   1,   1,   1,  1,  1,  1,  1,  1,  1,  1,   1,   16,  16,  16,  16,
    16, 16,  130, 130, 130, 130, 130, 130, 2,   2,   2,   2,  2,  2,  2,  2,  2,  2,  2,   2,   2,   2,   2,   2,
    2,  2,   2,   2,   16,  16,  16,  16,  32,  0,   0,   0,  0,  0,  0,  0,  0,  0,  0,   0,   0,   0,   0,   0,
    0,  0,   0,   0,   0,   0,   0,   0,   0,   0,   0,   0,  0,  0,  0,  0,  0,  72, 16,  16,  16,  16,  16,  16,
    16, 16,  16,  16,  16,  16,  16,  16,  16,  16,  16,  16, 16, 16, 16, 16, 16, 16, 16,  16,  16,  16,  16,  16,
    16, 1,   1,   1,   1,   1,   1,   1,   1,   1,   1,   1,  1,  1,  1,  1,  1,  1,  1,   1,   1,   1,   1,   1,
    16, 1,   1,   1,   1,   1,   1,   1,   2,   2,   2,   2,  2,  2,  2,  2,  2,  2,  2,   2,   2,   2,   2,   2,
    2,  2,   2,   2,   2,   2,   2,   2,   16,  2,   2,   2,  2,  2,  2,  2,  2]"

definition my_isdigit :: "char \<Rightarrow> bool" where
  "my_isdigit c \<longleftrightarrow> ctype_latin1 ! (of_char c + 1) AND 4 \<noteq> 0"

definition my_isspace :: "char \<Rightarrow> bool" where
  "my_isspace c \<longleftrightarrow> ctype_latin1 ! (of_char c + 1) AND 8 \<noteq> 0"

definition my_ispunct :: "char \<Rightarrow> bool" where
  "my_ispunct c \<longleftrightarrow> ctype_latin1 ! (of_char c + 1) AND 16 \<noteq> 0"

text \<open>The value \<open>c - '0'\<close> of a digit.\<close>

definition digit_val :: "char \<Rightarrow> nat" where
  "digit_val c = of_char c - 48"

section \<open>The structure and the constants\<close>

datatype timestamp_type =
  MYSQL_TIMESTAMP_NONE | MYSQL_TIMESTAMP_ERROR | MYSQL_TIMESTAMP_DATE | MYSQL_TIMESTAMP_DATETIME | MYSQL_TIMESTAMP_TIME

record MYSQL_TIME =
  year :: nat
  month :: nat
  day :: nat
  hour :: nat
  minute :: nat
  second :: nat
  second_part :: nat
  neg :: bool
  time_type :: timestamp_type

text \<open>\<open>bzero\<close> leaves the value 0 in \<open>time_type\<close>, which is \<open>MYSQL_TIMESTAMP_DATE\<close>.\<close>

definition zero_TIME :: MYSQL_TIME where
  "zero_TIME = \<lparr>year = 0, month = 0, day = 0, hour = 0, minute = 0, second = 0, second_part = 0,
     neg = False, time_type = MYSQL_TIMESTAMP_DATE\<rparr>"

definition log_10_int :: "nat list" where
  "log_10_int = [1, 10, 100, 1000, 10000, 100000, 1000000, 10000000, 100000000, 1000000000, 10000000000,
     100000000000, 1000000000000, 10000000000000, 100000000000000, 1000000000000000, 10000000000000000,
     100000000000000000, 1000000000000000000, 10000000000000000000]"

definition internal_format_positions :: "nat list" where
  "internal_format_positions = [0, 1, 2, 3, 4, 5, 6, 255]"

definition days_in_month :: "nat list" where
  "days_in_month = [31, 28, 31, 30, 31, 30, 31, 31, 30, 31, 30, 31, 0]"

definition days_at_timestart :: int where "days_at_timestart = 719528"

abbreviation (input) YY_PART_YEAR :: nat where "YY_PART_YEAR \<equiv> 70"
abbreviation (input) TIME_FUZZY_DATE :: nat where "TIME_FUZZY_DATE \<equiv> 1"
abbreviation (input) TIME_DATETIME_ONLY :: nat where "TIME_DATETIME_ONLY \<equiv> 2"
abbreviation (input) TIME_NO_ZERO_IN_DATE :: nat where "TIME_NO_ZERO_IN_DATE \<equiv> 8388608"
abbreviation (input) TIME_NO_ZERO_DATE :: nat where "TIME_NO_ZERO_DATE \<equiv> 16777216"
abbreviation (input) TIME_INVALID_DATES :: nat where "TIME_INVALID_DATES \<equiv> 33554432"

section \<open>Validation\<close>

definition calc_days_in_year :: "nat \<Rightarrow> nat" where
  "calc_days_in_year y =
     (if y AND 3 = 0 \<and> (y mod 100 \<noteq> 0 \<or> (y mod 400 = 0 \<and> y \<noteq> 0)) then 366 else 365)"

text \<open>The result is the error flag and the new value of \<open>was_cut\<close>; a month that is no index of
  \<open>days_in_month\<close> has no meaning.\<close>

definition check_date :: "MYSQL_TIME \<Rightarrow> bool \<Rightarrow> nat \<Rightarrow> nat \<Rightarrow> (bool \<times> nat) option" where
  "check_date ltime not_zero_date flags was_cut =
     (if not_zero_date then
        if (flags AND TIME_NO_ZERO_IN_DATE \<noteq> 0 \<or> flags AND TIME_FUZZY_DATE = 0) \<and> (month ltime = 0 \<or> day ltime = 0)
        then Some (True, 2)
        else if flags AND TIME_INVALID_DATES = 0 \<and> month ltime \<noteq> 0 then do {
          dim \<leftarrow> rd days_in_month (month ltime - 1);
          if day ltime > dim \<and> (month ltime \<noteq> 2 \<or> calc_days_in_year (year ltime) \<noteq> 366 \<or> day ltime \<noteq> 29)
          then Some (True, 2) else Some (False, was_cut)
        }
        else Some (False, was_cut)
      else if flags AND TIME_NO_ZERO_DATE \<noteq> 0 then Some (True, was_cut)
      else Some (False, was_cut))"

section \<open>Day numbers\<close>

text \<open>\<open>month - 1\<close> and \<open>31 * (month - 1)\<close> are computed as \<open>unsigned int\<close>, the rest as \<open>long\<close>.\<close>

definition calc_daynr :: "nat \<Rightarrow> nat \<Rightarrow> nat \<Rightarrow> int" where
  "calc_daynr y m d =
     (if y = 0 \<and> m = 0 \<and> d = 0 then 0
      else
        let y = (if y < 200 then (if u32_add y 1900 < 1900 + YY_PART_YEAR then y + 2000 else y + 1900) else y);
            delsum = 365 * int y + int (u32_mul 31 (u32_sub m 1)) + int d;
            y' = (if m \<le> 2 then u32_sub y 1 else y);
            delsum = (if m \<le> 2 then delsum else delsum - int (u32_add (u32_mul m 4) 23) div 10);
            temp = int ((y' div 100 + 1) * 3) div 4
        in delsum + int y' div 4 - temp)"

section \<open>Conversion from strings: dates\<close>

text \<open>The digits of one part of the date; \<open>n\<close> counts down the field length in the internal format.
  The value is an \<open>unsigned long\<close>.\<close>

fun part_digits :: "bool \<Rightarrow> string \<Rightarrow> nat \<Rightarrow> nat \<Rightarrow> string \<times> nat" where
  "part_digits internal [] n v = ([], v)"
| "part_digits internal (c # cs) n v =
     (if my_isdigit c \<and> (\<not> internal \<or> u32_sub n 1 \<noteq> 0)
      then part_digits internal cs (u32_sub n 1) ((v * 10 + digit_val c) mod 18446744073709551616)
      else (c # cs, v))"

text \<open>Delimiters after a part; \<open>None\<close> when there is a space that is not allowed.  The result is
  the rest, and whether a space and whether a delimiter was found.\<close>

fun skip_delims :: "bool \<Rightarrow> string \<Rightarrow> bool \<Rightarrow> bool \<Rightarrow> (string \<times> bool \<times> bool) option" where
  "skip_delims ok [] sp de = Some ([], sp, de)"
| "skip_delims ok (c # cs) sp de =
     (if my_ispunct c \<or> my_isspace c
      then if my_isspace c
           then if \<not> ok then None else skip_delims ok cs True True
           else skip_delims ok cs sp True
      else Some (c # cs, sp, de))"

record parse =
  part :: nat  \<comment> \<open>the loop counter \<open>i\<close>\<close>
  rest :: string  \<comment> \<open>\<open>str\<close>\<close>
  field_length :: nat
  date :: "nat list"
  date_len :: "nat list"
  not_zero_date :: nat
  found_delimitier :: bool
  found_space :: bool
  add_hours :: nat
  last_field_pos :: string

datatype parse_res = Not_date | Break parse | Continue parse

text \<open>One iteration of the scan loop, at a digit.  \<open>fp\<close> is \<open>format_position\<close>.\<close>

definition parse_part :: "nat list \<Rightarrow> bool \<Rightarrow> nat \<Rightarrow> parse \<Rightarrow> parse_res" where
  "parse_part fp internal allow_space p =
     (let i = part p;
          (str, v) = part_digits internal (tl (rest p)) (field_length p) (digit_val (hd (rest p)));
          len = length (rest p) - length str;
          p = p\<lparr>date_len := (date_len p)[i := len]\<rparr>
      in if v > 999999 then Not_date
      else
        let p = p\<lparr>date := (date p)[i := v], not_zero_date := not_zero_date p OR v,
                  field_length := (if fp ! (i + 1) = 0 then 4 else 2), rest := str, last_field_pos := str\<rparr>
        in if str = [] then Break (p\<lparr>part := i + 1\<rparr>)
        else if i = fp ! 2 \<and> hd str = CHR ''T'' then Continue (p\<lparr>rest := tl str\<rparr>)
        else if i = fp ! 5 then
          Continue (if hd str = CHR ''.'' then p\<lparr>rest := tl str, field_length := 6\<rparr> else p)
        else case skip_delims (allow_space AND 2 ^ i \<noteq> 0) str (found_space p) (found_delimitier p) of
          None \<Rightarrow> Not_date
        | Some (str, sp, de) \<Rightarrow>
            let p = p\<lparr>rest := str, found_space := sp, found_delimitier := de\<rparr>
            in if i = fp ! 6 then
                 let p = p\<lparr>part := i + 1\<rparr>
                 in if fp ! 7 \<noteq> 255 \<and> 2 \<le> length str \<and> (str ! 1 = CHR ''M'' \<or> str ! 1 = CHR ''m'') then
                      if str ! 0 = CHR ''p'' \<or> str ! 0 = CHR ''P'' then
                        let str = dropWhile my_isspace (drop 2 str)
                        in Continue (p\<lparr>add_hours := 12, rest := str, last_field_pos := str\<rparr>)
                      else if str ! 0 \<noteq> CHR ''a'' \<or> str ! 0 \<noteq> CHR ''A'' then Continue p
                      else let str = dropWhile my_isspace (drop 2 str)
                           in Continue (p\<lparr>rest := str, last_field_pos := str\<rparr>)
                    else Continue (p\<lparr>last_field_pos := str\<rparr>)
               else Continue (p\<lparr>last_field_pos := str\<rparr>))"

lemma parse_part_counter:
  "parse_part fp internal allow_space p = Continue q \<Longrightarrow> part p \<le> part q"
  by (auto simp: parse_part_def Let_def split: prod.splits if_splits option.splits)

function parse_parts :: "nat list \<Rightarrow> bool \<Rightarrow> nat \<Rightarrow> parse \<Rightarrow> parse option" where
  "parse_parts fp internal allow_space p =
     (if part p < 7 \<and> rest p \<noteq> [] \<and> my_isdigit (hd (rest p))
      then case parse_part fp internal allow_space p of
             Not_date \<Rightarrow> None
           | Break q \<Rightarrow> Some q
           | Continue q \<Rightarrow> parse_parts fp internal allow_space (q\<lparr>part := part q + 1\<rparr>)
      else Some p)"
  by pat_completeness auto
termination
proof (relation "measure (\<lambda>(fp, internal, allow_space, p). 7 - part p)", goal_cases)
  case (2 fp internal allow_space p q)
  then show ?case using parse_part_counter [of fp internal allow_space p q] by auto
qed simp

declare parse_parts.simps [simp del]

text \<open>The parts that were not found are zero.\<close>

definition fill_parts :: "nat \<Rightarrow> nat list \<Rightarrow> nat list" where
  "fill_parts i xs = take i xs @ replicate (8 - i) 0"

text \<open>The scaling of the fraction, an \<open>unsigned int\<close> product.\<close>

definition scale_fraction :: "nat \<Rightarrow> nat \<Rightarrow> nat" where
  "scale_fraction v len = (if len < 6 then u32_mul v (log_10_int ! (6 - len) mod UINT_RANGE) else v)"

text \<open>The parts that were found, and zero for the others, go into the structure.\<close>

definition assign_parts :: "nat list \<Rightarrow> bool \<Rightarrow> parse \<Rightarrow> MYSQL_TIME \<Rightarrow> MYSQL_TIME" where
  "assign_parts fp internal p l_time =
     (let date = fill_parts (part p) (date p); date_len = fill_parts (part p) (date_len p);
          pos = (\<lambda>k. if internal then k else fp ! k)
      in l_time\<lparr>year := date ! pos 0, month := date ! pos 1, day := date ! pos 2, hour := date ! pos 3,
           minute := date ! pos 4, second := date ! pos 5,
           second_part := scale_fraction (date ! pos 6) (date_len ! pos 6)\<rparr>)"

definition expand_year :: "nat \<Rightarrow> nat \<Rightarrow> MYSQL_TIME \<Rightarrow> MYSQL_TIME" where
  "expand_year year_length not_zero l_time =
     (if year_length = 2 \<and> not_zero \<noteq> 0
      then l_time\<lparr>year := year l_time + (if year l_time < YY_PART_YEAR then 2000 else 1900)\<rparr> else l_time)"

definition out_of_range :: "MYSQL_TIME \<Rightarrow> bool" where
  "out_of_range l_time \<longleftrightarrow> year l_time > 9999 \<or> month l_time > 12 \<or> day l_time > 31 \<or> hour l_time > 23 \<or>
     minute l_time > 59 \<or> second l_time > 59"

text \<open>The checks after the scan.\<close>

definition check_datetime ::
  "nat \<Rightarrow> nat \<Rightarrow> parse \<Rightarrow> MYSQL_TIME \<Rightarrow> (timestamp_type \<times> MYSQL_TIME \<times> nat) option" where
  "check_datetime number_of_fields flags p l_time =
     (let garbage = (\<not> list_all my_isspace (last_field_pos p))
      in if number_of_fields < 3 \<or> out_of_range l_time
      then Some (MYSQL_TIMESTAMP_ERROR, zero_TIME, if not_zero_date p \<noteq> 0 \<or> garbage then 1 else 0)
      else do {
        (err, was_cut) \<leftarrow> check_date l_time (not_zero_date p mod 256 \<noteq> 0) flags 0;
        if err then Some (MYSQL_TIMESTAMP_ERROR, zero_TIME, was_cut)
        else let t = (if number_of_fields \<le> 3 then MYSQL_TIMESTAMP_DATE else MYSQL_TIMESTAMP_DATETIME)
             in Some (t, l_time\<lparr>time_type := t\<rparr>, if garbage then 1 else was_cut)
      })"

definition finish_datetime ::
  "nat list \<Rightarrow> bool \<Rightarrow> nat \<Rightarrow> nat \<Rightarrow> nat \<Rightarrow> parse \<Rightarrow> MYSQL_TIME \<Rightarrow> (timestamp_type \<times> MYSQL_TIME \<times> nat) option" where
  "finish_datetime fp internal year_length start_loop flags p l_time =
     (let number_of_fields = part p - start_loop;
          year_length = (if internal then year_length else fill_parts (part p) (date_len p) ! (fp ! 0))
      in if \<not> internal \<and> year_length = 0 then Some (MYSQL_TIMESTAMP_NONE, l_time, 1)
      else
        let l_time = assign_parts fp internal p l_time
        in if \<not> internal \<and> fp ! 7 \<noteq> 255 \<and> hour l_time > 12 then Some (MYSQL_TIMESTAMP_ERROR, zero_TIME, 1)
        else
          let l_time = (if \<not> internal \<and> fp ! 7 \<noteq> 255 then l_time\<lparr>hour := hour l_time mod 12 + add_hours p\<rparr> else l_time)
          in check_datetime number_of_fields flags p
               (expand_year year_length (not_zero_date p) (l_time\<lparr>neg := False\<rparr>)))"

text \<open>\<open>u_date\<close> and \<open>u_len\<close> are the uninitialised arrays of the parts and their lengths.\<close>

definition str_to_datetime ::
  "nat list \<Rightarrow> nat list \<Rightarrow> string \<Rightarrow> MYSQL_TIME \<Rightarrow> nat \<Rightarrow> (timestamp_type \<times> MYSQL_TIME \<times> nat) option" where
  "str_to_datetime u_date u_len str l_time flags =
     (let str = dropWhile my_isspace str
      in if str = [] \<or> \<not> my_isdigit (hd str) then Some (MYSQL_TIMESTAMP_NONE, l_time, 1)
      else
        let fp = internal_format_positions;
            lead = takeWhile (\<lambda>c. my_isdigit c \<or> c = CHR ''T'') str;
            digits = length lead;
            u_len = u_len[fp ! 0 := 0];
            internal = (digits = length str);
            year_length = (if digits = 4 \<or> digits = 8 \<or> digits \<ge> 14 then 4 else 2);
            pos = drop digits str;
            pos = (if \<not> internal \<and> fp ! 0 \<ge> 3
                   then dropWhile (\<lambda>c. \<not> my_isdigit c) (dropWhile (\<lambda>c. \<not> my_isspace c) pos) else pos);
            date_only = (\<not> internal \<and> fp ! 0 \<ge> 3 \<and> pos = [])
        in if date_only \<and> flags AND TIME_DATETIME_ONLY \<noteq> 0 then Some (MYSQL_TIMESTAMP_NONE, l_time, 1)
        else
          let u_date = (if date_only then replicate 5 0 @ drop 5 u_date else u_date);
              start_loop = (if date_only then 5 else 0);
              fl = (if internal then year_length else if fp ! 0 = 0 then 4 else 2);
              allow_space = (2 ^ (max (max (fp ! 0) (fp ! 1)) (fp ! 2)) OR 2 ^ (fp ! 6)) AND (1 OR 2 OR 4 OR 8);
              p0 = \<lparr>part = start_loop, rest = str, field_length = fl, date = u_date, date_len = u_len,
                    not_zero_date = 0, found_delimitier = False, found_space = False, add_hours = 0,
                    last_field_pos = str\<rparr>
          in case parse_parts fp internal allow_space p0 of
               None \<Rightarrow> Some (MYSQL_TIMESTAMP_NONE, l_time, 1)
             | Some p \<Rightarrow>
                 if found_delimitier p \<and> \<not> found_space p \<and> flags AND TIME_DATETIME_ONLY \<noteq> 0
                 then Some (MYSQL_TIMESTAMP_NONE, l_time, 1)
                 else finish_datetime fp internal year_length start_loop flags p l_time)"

section \<open>Conversion from strings: times\<close>

text \<open>A number, as a \<open>long\<close>: an overflow has no meaning.\<close>

fun time_digits :: "string \<Rightarrow> nat \<Rightarrow> (string \<times> nat) option" where
  "time_digits [] v = Some ([], v)"
| "time_digits (c # cs) v =
     (if my_isdigit c
      then let v = v * 10 + digit_val c in if v < 9223372036854775808 then time_digits cs v else None
      else Some (c # cs, v))"

lemma time_digits_length: "time_digits s v = Some (s', v') \<Longrightarrow> length s' \<le> length s"
  by (induction s v rule: time_digits.induct) (auto simp: Let_def split: if_splits)

text \<open>Hours, minutes and seconds, separated by colons; \<open>state\<close> is the index of the next part.\<close>

function hms_loop :: "nat list \<Rightarrow> nat \<Rightarrow> string \<Rightarrow> (nat list \<times> nat \<times> string) option" where
  "hms_loop ds state str =
     (case time_digits str 0 of
        None \<Rightarrow> None
      | Some (str, v) \<Rightarrow>
          (case wr ds state v of
             None \<Rightarrow> None
           | Some ds \<Rightarrow>
               let state = state + 1
               in if state = 4 \<or> length str < 2 \<or> hd str \<noteq> CHR '':'' \<or> \<not> my_isdigit (str ! 1)
                  then Some (ds, state, str)
                  else hms_loop ds state (tl str)))"
  by pat_completeness auto
termination by (relation "measure (\<lambda>(ds, state, str). length str)") (auto dest: time_digits_length)

declare hms_loop.simps [simp del]

text \<open>The digits of the fraction after the first one: the result has the rest, the counter
  \<open>field_length\<close>, which wraps around below zero, and the value.\<close>

fun frac_digits :: "string \<Rightarrow> nat \<Rightarrow> nat \<Rightarrow> string \<times> nat \<times> nat" where
  "frac_digits [] n v = ([], n, v)"
| "frac_digits (c # cs) n v =
     (if my_isdigit c
      then if n \<noteq> 0 then frac_digits cs (u32_sub n 1) (v * 10 + digit_val c) else (c # cs, u32_sub n 1, v)
      else (c # cs, n, v))"

definition fraction :: "string \<Rightarrow> (string \<times> nat) option" where
  "fraction str =
     (if 2 \<le> length str \<and> hd str = CHR ''.'' \<and> my_isdigit (str ! 1)
      then let (str, n, v) = frac_digits (drop 2 str) 5 (digit_val (str ! 1))
           in if n \<noteq> 0 then do { f \<leftarrow> rd log_10_int n; Some (str, v * f) } else Some (str, v)
      else Some (str, 0))"

text \<open>From the parts to the structure: fraction, AM/PM, checks.\<close>

definition finish_time ::
  "nat list \<Rightarrow> string \<Rightarrow> MYSQL_TIME \<Rightarrow> (bool \<times> MYSQL_TIME \<times> nat) option" where
  "finish_time ds str l_time =
     do {
       (str, v) \<leftarrow> fraction str;
       let date = ds[4 := v];
       let (date, str) =
         (if internal_format_positions ! 7 \<noteq> 255 then
            let str = dropWhile my_isspace str
            in if 2 \<le> length str \<and> (str ! 1 = CHR ''M'' \<or> str ! 1 = CHR ''m'')
               then if str ! 0 = CHR ''p'' \<or> str ! 0 = CHR ''P''
                    then (date[1 := date ! 1 mod 12 + 12], drop 2 str)
                    else if str ! 0 = CHR ''a'' \<or> str ! 0 = CHR ''A'' then (date, drop 2 str)
                    else (date, str)
               else (date, str)
          else (date, str));
       if date ! 2 \<ge> 60 \<or> date ! 3 \<ge> 60 then Some (True, l_time, 1)
       else Some (False,
         l_time\<lparr>year := 0, month := 0, day := date ! 0 mod UINT_RANGE, hour := date ! 1 mod UINT_RANGE,
           minute := date ! 2, second := date ! 3, second_part := date ! 4, time_type := MYSQL_TIMESTAMP_TIME\<rparr>,
         if list_all my_isspace str then 0 else 1)
     }"

text \<open>\<open>u_time\<close> is the uninitialised array of the five parts.  The loop over hours, minutes and
  seconds is only entered with days or hours found, so that the third way to complete the parts
  (neither found) cannot happen.\<close>

definition str_to_time ::
  "nat list \<Rightarrow> nat list \<Rightarrow> nat list \<Rightarrow> string \<Rightarrow> MYSQL_TIME \<Rightarrow> (bool \<times> MYSQL_TIME \<times> nat) option" where
  "str_to_time u_date u_len u_time str l_time =
     do {
       let str = dropWhile my_isspace str;
       let negative = (str \<noteq> [] \<and> hd str = CHR ''-'');
       let l_time = l_time\<lparr>neg := negative\<rparr>;
       let str = (if negative then tl str else str);
       if str = [] then Some (True, l_time, 0)
       else do {
         (res, l_time1, cut) \<leftarrow>
           (if 12 \<le> length str then str_to_datetime u_date u_len str l_time (TIME_FUZZY_DATE OR TIME_DATETIME_ONLY)
            else Some (MYSQL_TIMESTAMP_NONE, l_time, 0));
         if res \<noteq> MYSQL_TIMESTAMP_NONE then Some (res = MYSQL_TIMESTAMP_ERROR, l_time1, cut)
         else do {
           (end_of_days, v) \<leftarrow> time_digits str 0;
           let str = dropWhile my_isspace end_of_days;
           if 1 < length str \<and> length str \<noteq> length end_of_days \<and> my_isdigit (hd str) then do {
             (date, state, str) \<leftarrow> hms_loop (u_time[0 := v]) 1 str;
             finish_time (take state date @ replicate (4 - state) 0 @ drop 4 date) str l_time
           }
           else if 1 < length str \<and> hd str = CHR '':'' \<and> my_isdigit (str ! 1) then do {
             (date, state, str) \<leftarrow> hms_loop (u_time[0 := 0, 1 := v]) 2 (tl str);
             finish_time (take state date @ replicate (4 - state) 0 @ drop 4 date) str l_time
           }
           else finish_time (u_time[0 := 0, 1 := v div 10000, 2 := v div 100 mod 100, 3 := v mod 100]) str l_time
         }
       }
     }"

section \<open>Conversion to strings\<close>

fun dec_digits :: "nat \<Rightarrow> string" where
  "dec_digits n = (if n < 10 then [char_of (48 + n)] else dec_digits (n div 10) @ [char_of (48 + n mod 10)])"

declare dec_digits.simps [simp del]

text \<open>The conversion \<open>%0wd\<close> of an \<open>unsigned int\<close> argument, which is read as an \<open>int\<close>.\<close>

definition fmt_d :: "nat \<Rightarrow> nat \<Rightarrow> string" where
  "fmt_d w n =
     (let v = n mod UINT_RANGE
      in if v < 2147483648 then (let s = dec_digits v in replicate (w - length s) CHR ''0'' @ s)
         else (let s = dec_digits (UINT_RANGE - v) in CHR ''-'' # replicate (w - 1 - length s) CHR ''0'' @ s))"

text \<open>The functions return the string written; the number of characters is its length.\<close>

definition my_time_to_str :: "MYSQL_TIME \<Rightarrow> string" where
  "my_time_to_str l_time =
     (if neg l_time then ''-'' else []) @ fmt_d 2 (u32_add 0 (hour l_time)) @ '':'' @ fmt_d 2 (minute l_time) @
     '':'' @ fmt_d 2 (second l_time)"

definition my_date_to_str :: "MYSQL_TIME \<Rightarrow> string" where
  "my_date_to_str l_time = fmt_d 4 (year l_time) @ ''-'' @ fmt_d 2 (month l_time) @ ''-'' @ fmt_d 2 (day l_time)"

definition my_datetime_to_str :: "MYSQL_TIME \<Rightarrow> string" where
  "my_datetime_to_str l_time =
     fmt_d 4 (year l_time) @ ''-'' @ fmt_d 2 (month l_time) @ ''-'' @ fmt_d 2 (day l_time) @ '' '' @
     fmt_d 2 (hour l_time) @ '':'' @ fmt_d 2 (minute l_time) @ '':'' @ fmt_d 2 (second l_time)"

definition my_TIME_to_str :: "MYSQL_TIME \<Rightarrow> string" where
  "my_TIME_to_str l_time = (case time_type l_time of
     MYSQL_TIMESTAMP_DATETIME \<Rightarrow> my_datetime_to_str l_time
   | MYSQL_TIMESTAMP_DATE \<Rightarrow> my_date_to_str l_time
   | MYSQL_TIMESTAMP_TIME \<Rightarrow> my_time_to_str l_time
   | MYSQL_TIMESTAMP_NONE \<Rightarrow> []
   | MYSQL_TIMESTAMP_ERROR \<Rightarrow> [])"

definition set_zero_time :: "timestamp_type \<Rightarrow> MYSQL_TIME" where
  "set_zero_time t = zero_TIME\<lparr>time_type := t\<rparr>"

section \<open>Conversion from and to numbers\<close>

text \<open>The forms YYMMDD, YYYYMMDD, YYMMDDHHMMSS and YYYYMMDDHHMMSS, brought to the last one;
  \<open>None\<close> is the jump to the error exit.\<close>

definition expand_number :: "int \<Rightarrow> int option" where
  "expand_number nr =
     (if nr = 0 \<or> nr \<ge> 10000101000000 then Some nr
      else if nr < 101 then None
      else if nr \<le> (70 - 1) * 10000 + 1231 then Some ((nr + 20000000) * 1000000)
      else if nr < 70 * 10000 + 101 then None
      else if nr \<le> 991231 then Some ((nr + 19000000) * 1000000)
      else if nr < 10000101 then None
      else if nr \<le> 99991231 then Some (nr * 1000000)
      else if nr < 101000000 then None
      else if nr \<le> (70 - 1) * 10000000000 + 1231235959 then Some (nr + 20000000000000)
      else if nr < 70 * 10000000000 + 101000000 then None
      else if nr \<le> 991231235959 then Some (nr + 19000000000000)
      else Some nr)"

definition number_to_datetime :: "int \<Rightarrow> MYSQL_TIME \<Rightarrow> nat \<Rightarrow> (int \<times> MYSQL_TIME \<times> nat) option" where
  "number_to_datetime nr time_res flags =
     (case expand_number nr of
        None \<Rightarrow> Some (- 1, time_res, 1)
      | Some nr \<Rightarrow>
          let part1 = nr div 1000000; part2 = nr - part1 * 1000000;
              t = time_res\<lparr>year := nat (part1 div 10000), month := nat (part1 mod 10000 div 100),
                    day := nat (part1 mod 10000 mod 100), hour := nat (part2 div 10000),
                    minute := nat (part2 mod 10000 div 100), second := nat (part2 mod 10000 mod 100)\<rparr>
          in if year t \<le> 9999 \<and> month t \<le> 12 \<and> day t \<le> 31 \<and> hour t \<le> 23 \<and> minute t \<le> 59 \<and> second t \<le> 59
          then do {
            (err, was_cut) \<leftarrow> check_date t (nr \<noteq> 0) flags 0;
            if \<not> err then Some (nr, t, was_cut)
            else if nr = 0 \<and> flags AND TIME_NO_ZERO_DATE \<noteq> 0 then Some (- 1, t, was_cut)
            else Some (- 1, t, 1)
          }
          else if nr = 0 \<and> flags AND TIME_NO_ZERO_DATE \<noteq> 0 then Some (- 1, t, 0)
          else Some (- 1, t, 1))"

abbreviation ULONG_RANGE :: nat where "ULONG_RANGE \<equiv> 18446744073709551616"

definition TIME_to_ulonglong_datetime :: "MYSQL_TIME \<Rightarrow> nat" where
  "TIME_to_ulonglong_datetime t =
     ((year t * 10000 + month t * 100 + day t) * 1000000 + (hour t * 10000 + minute t * 100 + second t)) mod ULONG_RANGE"

definition TIME_to_ulonglong_date :: "MYSQL_TIME \<Rightarrow> nat" where
  "TIME_to_ulonglong_date t = (year t * 10000 + month t * 100 + day t) mod ULONG_RANGE"

definition TIME_to_ulonglong_time :: "MYSQL_TIME \<Rightarrow> nat" where
  "TIME_to_ulonglong_time t = (hour t * 10000 + minute t * 100 + second t) mod ULONG_RANGE"

definition TIME_to_ulonglong :: "MYSQL_TIME \<Rightarrow> nat" where
  "TIME_to_ulonglong t = (case time_type t of
     MYSQL_TIMESTAMP_DATETIME \<Rightarrow> TIME_to_ulonglong_datetime t
   | MYSQL_TIMESTAMP_DATE \<Rightarrow> TIME_to_ulonglong_date t
   | MYSQL_TIMESTAMP_TIME \<Rightarrow> TIME_to_ulonglong_time t
   | MYSQL_TIMESTAMP_NONE \<Rightarrow> 0
   | MYSQL_TIMESTAMP_ERROR \<Rightarrow> 0)"

section \<open>Seconds since the epoch\<close>

text \<open>\<open>localtime_r\<close> of the system is a parameter; only these fields of its result are read.\<close>

record tm =
  tm_year :: int
  tm_mon :: int
  tm_mday :: int
  tm_hour :: int
  tm_min :: int
  tm_sec :: int

text \<open>The difference between the wanted time and a local time, where the day of the month tells
  whether the local time is one day off.\<close>

definition gmt_diff :: "MYSQL_TIME \<Rightarrow> tm \<Rightarrow> int" where
  "gmt_diff t l_time =
     (let days = int (day t) - tm_mday l_time;
          days = (if days < - 1 then 1 else if days > 1 then - 1 else days)
      in 3600 * (days * 24 + (int (hour t) - tm_hour l_time)) + 60 * (int (minute t) - tm_min l_time) +
         (int (second t) - tm_sec l_time))"

function gmt_loop :: "(int \<Rightarrow> tm) \<Rightarrow> MYSQL_TIME \<Rightarrow> nat \<Rightarrow> int \<Rightarrow> int \<Rightarrow> nat \<times> int \<times> int" where
  "gmt_loop localtime_r t n tmp tz =
     (let l_time = localtime_r tmp
      in if n < 2 \<and> (int (hour t) \<noteq> tm_hour l_time \<or> int (minute t) \<noteq> tm_min l_time \<or> int (second t) \<noteq> tm_sec l_time)
         then let diff = gmt_diff t l_time in gmt_loop localtime_r t (n + 1) (tmp + diff) (tz + diff + 3600)
         else (n, tmp, tz))"
  by pat_completeness auto
termination by (relation "measure (\<lambda>(localtime_r, t, n, tmp, tz). 2 - n)") auto

declare gmt_loop.simps [simp del]

text \<open>The result is the time, the time zone and whether the time falls into a gap (the C code
  leaves the flag alone otherwise).\<close>

definition my_system_gmt_sec :: "(int \<Rightarrow> tm) \<Rightarrow> int \<Rightarrow> MYSQL_TIME \<Rightarrow> int \<times> int \<times> bool" where
  "my_system_gmt_sec localtime_r my_time_zone t =
     (let tmp = (calc_daynr (year t) (month t) (day t) - days_at_timestart) * 86400 + int (hour t) * 3600 +
                int (u32_add (u32_mul (minute t) 60) (second t)) + my_time_zone - 3600;
          (n, tmp, tz) = gmt_loop localtime_r t 0 tmp my_time_zone;
          l_time = localtime_r tmp
      in if n = 2 \<and> int (hour t) \<noteq> tm_hour l_time
         then let diff = gmt_diff t l_time
              in (if diff = 3600 then tmp + int (u32_sub (u32_sub 3600 (u32_mul (minute t) 60)) (second t))
                  else if diff = - 3600 then tmp - int (u32_add (u32_mul (minute t) 60) (second t)) else tmp, tz, True)
         else (tmp, tz, False))"

text \<open>The new value of \<open>my_time_zone\<close>; \<open>seconds\<close> is what \<open>time\<close> returns.\<close>

definition init_time :: "(int \<Rightarrow> tm) \<Rightarrow> int \<Rightarrow> int" where
  "init_time localtime_r seconds =
     (let l_time = localtime_r seconds;
          my_time = zero_TIME\<lparr>year := nat (tm_year l_time + 1900), month := nat (tm_mon l_time + 1),
            day := nat (tm_mday l_time), hour := nat (tm_hour l_time), minute := nat (tm_min l_time),
            second := nat (tm_sec l_time)\<rparr>
      in fst (snd (my_system_gmt_sec localtime_r 3600 my_time)))"

end
