(* ===== verification/My_Time_Days.thy ===== *)
theory My_Time_Days
  imports My_Time
begin

text \<open>
  Valid dates, day numbers and seconds since the epoch: \<open>calc_daynr\<close> counts days, and
  \<open>my_system_gmt_sec\<close> inverts the \<open>localtime_r\<close> of a zone with a constant offset.
\<close>

unbundle bit_operations_syntax

section \<open>Valid dates\<close>

definition leap :: "nat \<Rightarrow> bool" where
  "leap y \<longleftrightarrow> calc_days_in_year y = 366"

lemma leap_iff: "0 < y \<Longrightarrow> leap y \<longleftrightarrow> 4 dvd y \<and> (\<not> 100 dvd y \<or> 400 dvd y)"
  using take_bit_eq_mask [of 2 y] by (auto simp: leap_def calc_days_in_year_def take_bit_eq_mod mask_eq_exp_minus_1 dvd_eq_mod_eq_0)

definition dim :: "nat \<Rightarrow> nat \<Rightarrow> nat" where
  "dim y m = (if m = 2 \<and> leap y then 29 else days_in_month ! (m - 1))"

definition valid_date :: "nat \<Rightarrow> nat \<Rightarrow> nat \<Rightarrow> bool" where
  "valid_date y m d \<longleftrightarrow> 1 \<le> m \<and> m \<le> 12 \<and> 1 \<le> d \<and> d \<le> dim y m"

lemma months: "1 \<le> m \<Longrightarrow> m \<le> 12 \<Longrightarrow> m \<in> {1, 2, 3, 4, 5, 6, 7, 8, 9, 10, 11, 12 :: nat}"
  by (simp, presburger)

lemma dim_bounds: "1 \<le> m \<Longrightarrow> m \<le> 12 \<Longrightarrow> 28 \<le> dim y m \<and> dim y m \<le> 31"
  using months [of m] by (auto simp: dim_def days_in_month_def)

section \<open>Day numbers\<close>

text \<open>The number of leap days up to the end of the year \<open>y\<close>, and the closed form of the code.\<close>

definition leap_days :: "nat \<Rightarrow> int" where
  "leap_days y = int (y div 4) - int ((y div 100 + 1) * 3 div 4)"

lemma leap_days_step:
  assumes "0 < y"
  shows "leap_days y = leap_days (y - 1) + (if leap y then 1 else 0)"
proof -
  obtain x where y: "y = Suc x" using assms not0_implies_Suc by blast
  have lp: "leap (Suc x) \<longleftrightarrow> 4 dvd Suc x \<and> (\<not> 100 dvd Suc x \<or> 400 dvd Suc x)" using leap_iff [OF assms] y by simp
  define q where "q = x div 100"
  have f: "(q + 1 + 1) * 3 div 4 = (q + 1) * 3 div 4 + (if 4 dvd q + 1 then 0 else 1)" by presburger
  have four: "Suc x div 4 = (if 4 dvd Suc x then Suc (x div 4) else x div 4)" by (simp add: div_Suc dvd_eq_mod_eq_0)
  show ?thesis
  proof (cases "100 dvd Suc x")
    case True
    then have q: "Suc x div 100 = q + 1" by (simp add: div_Suc dvd_eq_mod_eq_0 q_def)
    then have "Suc x = 100 * (q + 1)" using True by auto
    moreover have "100 * 4 dvd 100 * (q + 1) \<longleftrightarrow> 4 dvd q + 1" by (rule nat_mult_dvd_cancel1) simp
    ultimately have "400 dvd Suc x \<longleftrightarrow> 4 dvd q + 1" "4 dvd Suc x" by simp_all
    then show ?thesis unfolding leap_days_def y lp using True q four f by (simp add: q_def)
  next
    case False
    then have "Suc x div 100 = q" by (simp add: div_Suc dvd_eq_mod_eq_0 q_def)
    then show ?thesis unfolding leap_days_def y lp using False four by (simp add: q_def)
  qed
qed

lemma calc_daynr_eq:
  assumes "200 \<le> y" "y < 100000" "1 \<le> m" "m \<le> 12" "d < 100"
  shows "calc_daynr y m d = 365 * int y + 31 * (int m - 1) + int d -
     (if m \<le> 2 then 0 else (int m * 4 + 23) div 10) + leap_days (if m \<le> 2 then y - 1 else y)"
  using assms by (simp add: calc_daynr_def leap_days_def Let_def of_nat_diff zdiv_int)

lemma daynr_epoch: "calc_daynr 1970 1 1 = days_at_timestart"
  by (simp add: calc_daynr_eq leap_days_def days_at_timestart_def)

text \<open>The first of the next month follows the last of a month.\<close>

lemma daynr_next_month:
  assumes "200 \<le> y" "y < 99999" "1 \<le> m" "m \<le> 12"
  shows "(if m = 12 then calc_daynr (y + 1) 1 1 else calc_daynr y (m + 1) 1) = calc_daynr y m (dim y m) + 1"
proof -
  have d: "dim y m < 100" using dim_bounds [OF assms(3,4), of y] by simp
  have l: "leap_days y = leap_days (y - 1) + (if leap y then 1 else 0)" by (rule leap_days_step) (use assms in simp)
  show ?thesis using months [OF assms(3,4)] assms(1,2) d l
    by (auto simp: calc_daynr_eq dim_def days_in_month_def)
qed

definition next_day :: "nat \<times> nat \<times> nat \<Rightarrow> nat \<times> nat \<times> nat" where
  "next_day = (\<lambda>(y, m, d). if d < dim y m then (y, m, d + 1) else if m < 12 then (y, m + 1, 1) else (y + 1, 1, 1))"

definition daynr :: "nat \<times> nat \<times> nat \<Rightarrow> int" where
  "daynr = (\<lambda>(y, m, d). calc_daynr y m d)"

lemma daynr_next:
  assumes "200 \<le> y" "y < 99999" "valid_date y m d"
  shows "daynr (next_day (y, m, d)) = daynr (y, m, d) + 1"
proof (cases "d < dim y m")
  case True
  then have "d + 1 < 100" using dim_bounds [of m y] assms(3) by (auto simp: valid_date_def)
  then show ?thesis using True assms by (simp add: daynr_def next_day_def calc_daynr_eq valid_date_def)
next
  case False
  then have "d = dim y m" using assms(3) by (auto simp: valid_date_def)
  then show ?thesis using daynr_next_month [of y m] assms by (auto simp: daynr_def next_day_def valid_date_def split: if_splits)
qed

text \<open>Later dates have greater day numbers.\<close>

lemma daynr_month_mono:
  assumes "200 \<le> y" "y < 99999" "1 \<le> m" "m < m'" "m' \<le> 12" "d \<le> dim y m" "1 \<le> d'" "d' < 100"
  shows "calc_daynr y m d < calc_daynr y m' d'"
  using assms(4-8)
proof (induction m' arbitrary: d' rule: less_induct)
  case (less k)
  then obtain j where k: "k = Suc j" by (metis not0_implies_Suc not_less_zero)
  have step: "calc_daynr y k 1 = calc_daynr y j (dim y j) + 1"
    using daynr_next_month [of y j] assms(1-3) less.prems k by auto
  have "calc_daynr y k d' = calc_daynr y k 1 + int d' - 1"
    using assms less.prems k by (simp add: calc_daynr_eq)
  moreover have "calc_daynr y m d \<le> calc_daynr y j (dim y j)"
  proof (cases "j = m")
    case True
    then show ?thesis using assms less.prems dim_bounds [of m y] by (simp add: calc_daynr_eq)
  next
    case False
    then show ?thesis using less.IH [of j "dim y j"] less.prems k assms(3) dim_bounds [of j y] by auto
  qed
  ultimately show ?case using step less.prems by linarith
qed

lemma daynr_year_mono:
  assumes "200 \<le> y" "y < y'" "y' < 99999" "valid_date y m d" "valid_date y' m' d'"
  shows "calc_daynr y m d < calc_daynr y' m' d'"
  using assms(2,3,5)
proof (induction y' arbitrary: m' d' rule: less_induct)
  case (less k)
  then obtain j where k: "k = Suc j" by (metis not0_implies_Suc not_less_zero)
  have d: "d' < 100" "1 \<le> d'" "1 \<le> m'" "m' \<le> 12" using less.prems(3) dim_bounds [of m' k] by (auto simp: valid_date_def)
  have v12: "valid_date j 12 31" "dim j 12 = 31" by (auto simp: valid_date_def dim_def days_in_month_def)
  have "calc_daynr k 1 1 \<le> calc_daynr k m' d'"
  proof (cases "m' = 1")
    case True
    then show ?thesis using d assms(1) less.prems by (simp add: calc_daynr_eq)
  next
    case False
    then show ?thesis using daynr_month_mono [of k 1 m' 1 d'] d assms(1) less.prems dim_bounds [of 1 k] by auto
  qed
  moreover have "calc_daynr k 1 1 = calc_daynr j 12 31 + 1"
    using daynr_next_month [of j 12] assms(1) less.prems k v12 by simp
  moreover have "calc_daynr y m d \<le> calc_daynr j 12 31"
  proof (cases "j = y")
    case True
    show ?thesis
    proof (cases "m = 12")
      case True
      then show ?thesis using \<open>j = y\<close> assms(1,4) less.prems v12 by (auto simp: calc_daynr_eq valid_date_def)
    next
      case False
      then show ?thesis using daynr_month_mono [of y m 12 d 31] \<open>j = y\<close> assms(1,4) less.prems
        by (auto simp: valid_date_def)
    qed
  next
    case False
    then show ?thesis using less.IH [of j 12 31] less.prems k v12 by auto
  qed
  ultimately show ?case by linarith
qed

lemma daynr_mono:
  assumes "200 \<le> y" "y' < 99999" "valid_date y m d" "valid_date y' m' d'"
    and "y < y' \<or> y = y' \<and> (m < m' \<or> m = m' \<and> d < d')"
  shows "calc_daynr y m d < calc_daynr y' m' d'"
proof -
  have d: "d < 100" "d' < 100" using assms(3,4) dim_bounds [of m y] dim_bounds [of m' y'] by (auto simp: valid_date_def)
  consider "y < y'" | "y = y'" "m < m'" | "y = y'" "m = m'" "d < d'" using assms(5) by blast
  then show ?thesis
  proof cases
    case 1
    then show ?thesis using daynr_year_mono assms by blast
  next
    case 2
    then show ?thesis using daynr_month_mono [of y m m' d d'] assms d by (auto simp: valid_date_def)
  next
    case 3
    then show ?thesis using assms d by (simp add: calc_daynr_eq valid_date_def)
  qed
qed

lemma daynr_inj:
  assumes "200 \<le> y" "y < 99999" "200 \<le> y'" "y' < 99999" "valid_date y m d" "valid_date y' m' d'"
    and "calc_daynr y m d = calc_daynr y' m' d'"
  shows "y = y' \<and> m = m' \<and> d = d'"
proof (rule ccontr)
  assume "\<not> ?thesis"
  then consider "y < y' \<or> y = y' \<and> (m < m' \<or> m = m' \<and> d < d')" | "y' < y \<or> y' = y \<and> (m' < m \<or> m' = m \<and> d' < d)"
    by linarith
  then show False
  proof cases
    case 1
    then show False using daynr_mono [OF assms(1,4,5,6)] assms(7) by simp
  next
    case 2
    then show False using daynr_mono [OF assms(3,2,6,5)] assms(7) by simp
  qed
qed

section \<open>Seconds since the epoch\<close>

definition valid_time :: "MYSQL_TIME \<Rightarrow> bool" where
  "valid_time t \<longleftrightarrow> valid_date (year t) (month t) (day t) \<and> hour t < 24 \<and> minute t < 60 \<and> second t < 60"

text \<open>The seconds since the epoch that a clock without time zone shows as \<open>t\<close>.\<close>

definition local_seconds :: "MYSQL_TIME \<Rightarrow> int" where
  "local_seconds t = (calc_daynr (year t) (month t) (day t) - days_at_timestart) * 86400 +
     int (hour t) * 3600 + int (minute t) * 60 + int (second t)"

text \<open>What \<open>localtime_r\<close> promises for the zone with offset \<open>off\<close>: the result is the broken-down
  time of the shifted number of seconds, with the date of the calendar.\<close>

definition shows_local :: "(int \<Rightarrow> tm) \<Rightarrow> int \<Rightarrow> int \<Rightarrow> bool" where
  "shows_local localtime_r off s \<longleftrightarrow>
     (\<exists>t. valid_time t \<and> 200 \<le> year t \<and> year t < 99998 \<and> local_seconds t = s + off \<and>
       tm_mday (localtime_r s) = int (day t) \<and> tm_hour (localtime_r s) = int (hour t) \<and>
       tm_min (localtime_r s) = int (minute t) \<and> tm_sec (localtime_r s) = int (second t))"

definition day_seconds :: "MYSQL_TIME \<Rightarrow> int" where
  "day_seconds t = int (hour t) * 3600 + int (minute t) * 60 + int (second t)"

lemma local_seconds_split:
  "local_seconds t = (calc_daynr (year t) (month t) (day t) - days_at_timestart) * 86400 + day_seconds t"
  by (simp add: local_seconds_def day_seconds_def)

lemma day_seconds_bounds: "valid_time t \<Longrightarrow> 0 \<le> day_seconds t \<and> day_seconds t < 86400"
  by (auto simp: valid_time_def day_seconds_def)

lemma hms_inj:
  fixes a b c a' b' c' :: nat
  assumes "b < 60" "c < 60" "b' < 60" "c' < 60" "a * 3600 + b * 60 + c = a' * 3600 + b' * 60 + c'"
  shows "a = a' \<and> b = b' \<and> c = c'"
proof -
  have u: "q = q' \<and> r = r'" if "q * 60 + r = q' * 60 + r'" "r < 60" "r' < 60" for q r q' r' :: nat
  proof -
    have "r = r'" using that mod_mult_self3 [of q 60 r] mod_mult_self3 [of q' 60 r'] by (metis mod_less)
    then show ?thesis using that by simp
  qed
  have "(a * 60 + b) * 60 + c = (a' * 60 + b') * 60 + c'" using assms(5) by simp
  from u [OF this assms(2,4)] show ?thesis using u [of a b a' b'] assms(1,3) by blast
qed

lemma day_split:
  fixes A B x y :: int
  assumes "A * 86400 + x = B * 86400 + y" "0 \<le> x" "x < 86400" "0 \<le> y" "y < 86400"
  shows "x = y"
proof -
  have "x = (A * 86400 + x) mod 86400" "y = (B * 86400 + y) mod 86400"
    using assms(2-) mod_mult_self3 [of A 86400 x] mod_mult_self3 [of B 86400 y] by simp_all
  then show ?thesis unfolding assms(1) by simp
qed

lemma day_seconds_inj:
  assumes "valid_time t" "valid_time u" "day_seconds t = day_seconds u"
  shows "hour t = hour u \<and> minute t = minute u \<and> second t = second u"
proof -
  have "hour t * 3600 + minute t * 60 + second t = hour u * 3600 + minute u * 60 + second u"
    using assms(3) by (simp add: day_seconds_def)
  then show ?thesis using assms(1,2) by (intro hms_inj) (auto simp: valid_time_def)
qed

text \<open>Two days that are one apart: the days of the month are one apart, or a month ends.\<close>

lemma consecutive_days:
  assumes "200 \<le> y" "y < 99998" "200 \<le> y'" "y' < 99998" "valid_date y m d" "valid_date y' m' d'"
    and "calc_daynr y' m' d' = calc_daynr y m d + 1"
  shows "d' = d + 1 \<or> d' = 1 \<and> 28 \<le> d"
proof -
  obtain y1 m1 d1 where n: "next_day (y, m, d) = (y1, m1, d1)" by (cases "next_day (y, m, d)") auto
  have v: "valid_date y1 m1 d1" "200 \<le> y1" "y1 < 99999"
    using n assms(1,2,5) dim_bounds [of m1 y1] by (auto simp: next_day_def valid_date_def dim_def days_in_month_def split: if_splits)
  have "calc_daynr y1 m1 d1 = calc_daynr y m d + 1" using daynr_next [of y m d] assms(1,2,5) n by (simp add: daynr_def)
  then have "d1 = d'" using daynr_inj [of y1 y' m1 d1 m' d'] v assms by auto
  then show ?thesis using n dim_bounds [of m y] assms(5) by (auto simp: next_day_def valid_date_def split: if_splits)
qed

lemma gmt_diff_ok:
  assumes t: "valid_time t" "200 \<le> year t" "year t < 99998" and l: "shows_local localtime_r off s"
    and near: "\<bar>local_seconds t - (s + off)\<bar> < 86400"
  shows "gmt_diff t (localtime_r s) = local_seconds t - (s + off)"
proof -
  obtain u where u: "valid_time u" "200 \<le> year u" "year u < 99998" "local_seconds u = s + off"
    "tm_mday (localtime_r s) = int (day u)" "tm_hour (localtime_r s) = int (hour u)"
    "tm_min (localtime_r s) = int (minute u)" "tm_sec (localtime_r s) = int (second u)"
    using l unfolding shows_local_def by blast
  define D where "D = calc_daynr (year t) (month t) (day t) - calc_daynr (year u) (month u) (day u)"
  have L: "local_seconds t - (s + off) = D * 86400 + day_seconds t - day_seconds u"
    using u(4) by (simp add: local_seconds_def day_seconds_def D_def algebra_simps)
  then have "- 2 < D \<and> D < 2" using near day_seconds_bounds [OF t(1)] day_seconds_bounds [OF u(1)] by linarith
  then consider "D = 0" | "D = 1" | "D = - 1" by linarith
  then have "(let days = int (day t) - int (day u) in if days < - 1 then 1 else if days > 1 then - 1 else days) = D"
  proof cases
    case 1
    then have "day t = day u" using daynr_inj [of "year t" "year u" "month t" "day t" "month u" "day u"] t u
      by (auto simp: D_def valid_time_def)
    then show ?thesis using 1 by simp
  next
    case 2
    then show ?thesis using consecutive_days [of "year u" "year t" "month u" "day u" "month t" "day t"] t u
      by (auto simp: D_def valid_time_def)
  next
    case 3
    then show ?thesis using consecutive_days [of "year t" "year u" "month t" "day t" "month u" "day u"] t u
      by (auto simp: D_def valid_time_def)
  qed
  then show ?thesis unfolding L gmt_diff_def u(5-8) Let_def by (simp add: day_seconds_def algebra_simps)
qed

lemma gmt_sec_ok:
  assumes t: "valid_time t" "200 \<le> year t" "year t < 99998" and z: "\<bar>z - 3600 + off\<bar> < 86400"
    and l: "\<forall>s. \<bar>s + off - local_seconds t\<bar> < 86400 \<longrightarrow> shows_local localtime_r off s"
  shows "fst (my_system_gmt_sec localtime_r z t) = local_seconds t - off \<and> \<not> snd (snd (my_system_gmt_sec localtime_r z t))"
proof -
  define s0 where "s0 = local_seconds t + z - 3600"
  have "u32_add (u32_mul (minute t) 60) (second t) = minute t * 60 + second t" using t(1) by (simp add: valid_time_def)
  then have s0: "(calc_daynr (year t) (month t) (day t) - days_at_timestart) * 86400 + int (hour t) * 3600 +
      int (u32_add (u32_mul (minute t) 60) (second t)) + z - 3600 = s0" by (simp add: s0_def local_seconds_def)
  have l0: "shows_local localtime_r off s0" using l z by (simp add: s0_def)
  have l1: "shows_local localtime_r off (local_seconds t - off)" using l by simp
  have fin: "gmt_loop localtime_r t n (local_seconds t - off) tz = (n, local_seconds t - off, tz)" for n tz
  proof -
    obtain u where "valid_time u" "200 \<le> year u" "year u < 99998" "local_seconds u = local_seconds t"
      and u: "tm_hour (localtime_r (local_seconds t - off)) = int (hour u)"
      "tm_min (localtime_r (local_seconds t - off)) = int (minute u)" "tm_sec (localtime_r (local_seconds t - off)) = int (second u)"
      using l1 unfolding shows_local_def by auto
    then have "(calc_daynr (year t) (month t) (day t) - days_at_timestart) * 86400 + day_seconds t =
        (calc_daynr (year u) (month u) (day u) - days_at_timestart) * 86400 + day_seconds u"
      unfolding local_seconds_split [symmetric] by simp
    from day_split [OF this] have "day_seconds t = day_seconds u"
      using day_seconds_bounds [OF t(1)] day_seconds_bounds [OF \<open>valid_time u\<close>] by blast
    then show ?thesis using day_seconds_inj [OF t(1) \<open>valid_time u\<close>] u by (subst gmt_loop.simps) (simp add: Let_def)
  qed
  have "\<exists>n tz. n < 2 \<and> gmt_loop localtime_r t 0 s0 z = (n, local_seconds t - off, tz)"
  proof (cases "int (hour t) \<noteq> tm_hour (localtime_r s0) \<or> int (minute t) \<noteq> tm_min (localtime_r s0) \<or> int (second t) \<noteq> tm_sec (localtime_r s0)")
    case True
    have "gmt_diff t (localtime_r s0) = local_seconds t - (s0 + off)"
      by (rule gmt_diff_ok [OF t l0]) (use z in \<open>simp add: s0_def\<close>)
    then show ?thesis using True fin [of 1 "z + (local_seconds t - (s0 + off)) + 3600"]
      by (subst gmt_loop.simps) (simp add: Let_def)
  next
    case False
    then have "86400 dvd gmt_diff t (localtime_r s0)" by (simp add: gmt_diff_def Let_def)
    moreover have "gmt_diff t (localtime_r s0) = local_seconds t - (s0 + off)"
      by (rule gmt_diff_ok [OF t l0]) (use z in \<open>simp add: s0_def\<close>)
    moreover have "local_seconds t - (s0 + off) = 3600 - z - off" by (simp add: s0_def)
    ultimately have "86400 dvd 3600 - z - off" by simp
    then have "3600 - z - off = 0" using z dvd_imp_le_int [of "3600 - z - off" 86400] by linarith
    then have "s0 = local_seconds t - off" by (simp add: s0_def)
    then show ?thesis using fin [of 0 z] by simp
  qed
  then show ?thesis unfolding my_system_gmt_sec_def s0 Let_def by auto
qed

section \<open>Properties\<close>

text \<open>C26 \<open>calc_daynr\<close> counts days: the successor of a valid date (with its month lengths and leap
  years) has the next number, later dates have greater numbers, and the epoch has the number the
  code assumes.\<close>

theorem calc_daynr_counts:
  assumes "200 \<le> y" "y < 99999" "valid_date y m d"
  shows "daynr (next_day (y, m, d)) = calc_daynr y m d + 1 \<and>
    (\<forall>y' m' d'. y' < 99999 \<longrightarrow> valid_date y' m' d' \<longrightarrow> y < y' \<or> y = y' \<and> (m < m' \<or> m = m' \<and> d < d') \<longrightarrow>
       calc_daynr y m d < calc_daynr y' m' d') \<and>
    calc_daynr 1970 1 1 = days_at_timestart"
  using daynr_next [OF assms] daynr_mono [OF assms(1) _ assms(3)] daynr_epoch by (auto simp: daynr_def)

lemma calc_daynr_counts_witness: "daynr (2000, 3, 1) = calc_daynr 2000 2 29 + 1"
proof -
  have l: "leap 2000" by (simp add: leap_iff)
  have "valid_date 2000 2 29" "next_day (2000, 2, 29) = (2000, 3, 1)"
    using l by (simp_all add: valid_date_def dim_def next_day_def)
  then show ?thesis using calc_daynr_counts [of 2000 2 29] by simp
qed

text \<open>With month 0 (a date the fuzzy modes accept) the unsigned product \<open>31 * (month - 1)\<close> wraps
  around before it is widened to 64 bits: the day number of 2000-00-01 is more than four thousand
  million days after the one of 2000-01-01.\<close>

theorem calc_daynr_month_zero: "calc_daynr 2000 0 1 = calc_daynr 2000 1 1 + 4294967265"
  by (simp add: calc_daynr_def Let_def u32_sub_def u32_mul_def)

text \<open>C27 In a time zone with a constant offset \<open>off\<close>, for which the cached zone \<open>z\<close> is less than a day
  off, \<open>my_system_gmt_sec\<close> returns, after at most one correction, exactly the time that
  \<open>localtime_r\<close> shows as the one given, across ends of months and years, and reports no gap.\<close>

theorem my_system_gmt_sec_inverts:
  assumes "valid_time t" "200 \<le> year t" "year t < 99998" and "\<bar>z - 3600 + off\<bar> < 86400"
    and "\<forall>s. \<bar>s + off - local_seconds t\<bar> < 86400 \<longrightarrow> shows_local localtime_r off s"
  shows "fst (my_system_gmt_sec localtime_r z t) = local_seconds t - off \<and>
    \<not> snd (snd (my_system_gmt_sec localtime_r z t))"
  by (rule gmt_sec_ok [OF assms])

text \<open>A clock that is right in January 1970, one hour ahead.\<close>

definition january :: "int \<Rightarrow> tm" where
  "january s = (let r = s + 3600; q = r div 60; p = q div 60 in
     \<lparr>tm_year = 70, tm_mon = 0, tm_mday = p div 24 + 1, tm_hour = p mod 24, tm_min = q mod 60, tm_sec = r mod 60\<rparr>)"

lemma january_ok:
  assumes "0 \<le> s + 3600" "s + 3600 < 30 * 86400"
  shows "shows_local january 3600 s"
proof -
  define r q p D H M S where defs: "r = s + 3600" "q = r div 60" "p = q div 60" "D = p div 24" "H = p mod 24" "M = q mod 60" "S = r mod 60"
  have b: "0 \<le> H" "H < 24" "0 \<le> M" "M < 60" "0 \<le> S" "S < 60" by (simp_all add: defs(5-7))
  have "r = q * 60 + S" "q = p * 60 + M" "p = D * 24 + H" by (simp_all add: defs(2-7))
  then have r: "s + 3600 = D * 86400 + H * 3600 + M * 60 + S" unfolding defs(1) [symmetric] by simp
  then have D: "0 \<le> D" "D < 30" using assms b by linarith+
  have j: "january s = \<lparr>tm_year = 70, tm_mon = 0, tm_mday = D + 1, tm_hour = H, tm_min = M, tm_sec = S\<rparr>"
    by (simp add: january_def Let_def defs)
  let ?t = "zero_TIME\<lparr>year := 1970, month := 1, day := nat (D + 1), hour := nat H, minute := nat M, second := nat S\<rparr>"
  have "1 \<le> nat (D + 1) \<and> nat (D + 1) \<le> 31" using D by linarith
  then have "valid_time ?t" using b D by (simp add: valid_time_def valid_date_def dim_def days_in_month_def nat_less_iff)
  moreover have "calc_daynr 1970 1 (nat (D + 1)) = days_at_timestart + D"
    using D by (simp add: calc_daynr_eq leap_days_def days_at_timestart_def)
  then have "local_seconds ?t = s + 3600" using b r by (simp add: local_seconds_def)
  ultimately show ?thesis unfolding shows_local_def j using b D by (intro exI [of _ ?t]) simp
qed

lemma my_system_gmt_sec_inverts_witness:
  "fst (my_system_gmt_sec january 0 (zero_TIME\<lparr>year := 1970, month := 1, day := 15, hour := 12\<rparr>)) = 14 * 86400 + 11 * 3600"
proof -
  let ?t = "zero_TIME\<lparr>year := 1970, month := 1, day := 15, hour := 12\<rparr>"
  have t: "valid_time ?t" by (simp add: zero_TIME_def valid_time_def valid_date_def dim_def days_in_month_def)
  have l: "local_seconds ?t = 14 * 86400 + 12 * 3600"
    by (simp add: zero_TIME_def local_seconds_def calc_daynr_eq leap_days_def days_at_timestart_def)
  have "shows_local january 3600 s" if "\<bar>s + 3600 - local_seconds ?t\<bar> < 86400" for s
    by (rule january_ok) (use that l in simp_all)
  then show ?thesis using my_system_gmt_sec_inverts [OF t, of 0 3600 january] l by simp
qed

end
