(* ===== verification/My_Time_Conv.thy ===== *)
theory My_Time_Conv
  imports My_Time_Days
begin

text \<open>
  The conversions of \<open>my_time.c\<close>: numbers and strings lead back to the structure they were made
  from, accepted input yields values in range, and the input on which the code fails.
\<close>

unbundle bit_operations_syntax

section \<open>Validation\<close>

lemma check_date_total:
  "month t \<le> 12 \<Longrightarrow> \<exists>e c. check_date t nz fl w = Some (e, c) \<and> (c = w \<or> e \<and> c = 2)"
  by (auto simp: check_date_def days_in_month_def)

lemma days_in_month_rd: "1 \<le> m \<Longrightarrow> m \<le> 12 \<Longrightarrow> rd days_in_month (m - 1) = Some (days_in_month ! (m - 1))"
  by (rule rd_eq) (simp add: days_in_month_def)

lemma check_date_valid:
  assumes "valid_date (year t) (month t) (day t)"
  shows "check_date t True fl w = Some (False, w)"
proof -
  have "rd days_in_month (month t - 1) = Some (days_in_month ! (month t - 1))"
    using assms days_in_month_rd [of "month t"] by (simp add: valid_date_def)
  moreover have "\<not> (day t > days_in_month ! (month t - 1) \<and> (month t \<noteq> 2 \<or> \<not> leap (year t) \<or> day t \<noteq> 29))"
    using assms by (auto simp: valid_date_def dim_def days_in_month_def split: if_splits)
  ultimately show ?thesis using assms by (auto simp: check_date_def valid_date_def leap_def)
qed

lemma check_date_sound:
  assumes "check_date t True fl w = Some (False, c)" "fl AND 1 = 0" "fl AND 33554432 = 0" "month t \<le> 12"
  shows "valid_date (year t) (month t) (day t)"
proof -
  have m: "month t \<noteq> 0" "day t \<noteq> 0" using assms(1,2) by (auto simp: check_date_def split: if_splits)
  then have "rd days_in_month (month t - 1) = Some (days_in_month ! (month t - 1))"
    using assms(4) days_in_month_rd [of "month t"] by simp
  then have "\<not> (day t > days_in_month ! (month t - 1) \<and> (month t \<noteq> 2 \<or> \<not> leap (year t) \<or> day t \<noteq> 29))"
    using assms m by (auto simp: check_date_def leap_def split: if_splits)
  then show ?thesis using m assms(4) by (auto simp: valid_date_def dim_def days_in_month_def)
qed

section \<open>Numbers\<close>

text \<open>The fields of a broken-down number.\<close>

definition fields :: "MYSQL_TIME \<Rightarrow> int \<Rightarrow> MYSQL_TIME" where
  "fields r nr =
     (let part1 = nr div 1000000; part2 = nr - part1 * 1000000
      in r\<lparr>year := nat (part1 div 10000), month := nat (part1 mod 10000 div 100),
           day := nat (part1 mod 10000 mod 100), hour := nat (part2 div 10000),
           minute := nat (part2 mod 10000 div 100), second := nat (part2 mod 10000 mod 100)\<rparr>)"

definition in_range :: "MYSQL_TIME \<Rightarrow> bool" where
  "in_range t \<longleftrightarrow> year t \<le> 9999 \<and> month t \<le> 12 \<and> day t \<le> 31 \<and> hour t \<le> 23 \<and> minute t \<le> 59 \<and> second t \<le> 59"

lemma number_to_datetime_fields:
  "number_to_datetime nr r fl = (case expand_number nr of None \<Rightarrow> Some (- 1, r, 1) | Some n \<Rightarrow>
     if in_range (fields r n) then do {
       (err, c) \<leftarrow> check_date (fields r n) (n \<noteq> 0) fl 0;
       if \<not> err then Some (n, fields r n, c)
       else if n = 0 \<and> fl AND 16777216 \<noteq> 0 then Some (- 1, fields r n, c) else Some (- 1, fields r n, 1) }
     else if n = 0 \<and> fl AND 16777216 \<noteq> 0 then Some (- 1, fields r n, 0) else Some (- 1, fields r n, 1))"
  unfolding number_to_datetime_def fields_def in_range_def Let_def by (rule refl)

lemma pair_split: "(a * 100 + b) div 100 = a \<and> (a * 100 + b) mod 100 = b" if "0 \<le> b" "b < 100" for a b :: int
  using that by simp

lemma fields_number:
  assumes "in_range t"
  shows "fields r (int (TIME_to_ulonglong_datetime t)) =
    r\<lparr>year := year t, month := month t, day := day t, hour := hour t, minute := minute t, second := second t\<rparr>"
proof -
  define Y M D h m s where v: "Y = int (year t)" "M = int (month t)" "D = int (day t)" "h = int (hour t)" "m = int (minute t)" "s = int (second t)"
  have b: "0 \<le> M" "M \<le> 12" "0 \<le> D" "D \<le> 31" "0 \<le> h" "h \<le> 23" "0 \<le> m" "m \<le> 59" "0 \<le> s" "s \<le> 59" "0 \<le> Y" "Y \<le> 9999"
    using assms by (auto simp: v in_range_def)
  let ?d = "Y * 10000 + (M * 100 + D)" let ?c = "h * 10000 + (m * 100 + s)"
  have "(year t * 10000 + month t * 100 + day t) * 1000000 + (hour t * 10000 + minute t * 100 + second t) < ULONG_RANGE"
    using assms by (simp add: in_range_def)
  then have n: "int (TIME_to_ulonglong_datetime t) = ?d * 1000000 + ?c"
    by (simp add: TIME_to_ulonglong_datetime_def v)
  have c: "0 \<le> ?c" "?c < 1000000" using b by linarith+
  have f1: "(?d * 1000000 + ?c) div 1000000 = ?d" "?d * 1000000 + ?c - ?d * 1000000 = ?c" using c by simp_all
  have md: "0 \<le> M * 100 + D" "M * 100 + D < 10000" "0 \<le> m * 100 + s" "m * 100 + s < 10000" using b by linarith+
  then have f2: "?d div 10000 = Y" "?d mod 10000 = M * 100 + D" "?c div 10000 = h" "?c mod 10000 = m * 100 + s" by simp_all
  have f3: "(M * 100 + D) div 100 = M" "(M * 100 + D) mod 100 = D" "(m * 100 + s) div 100 = m" "(m * 100 + s) mod 100 = s"
    using pair_split [of D M] pair_split [of s m] b by simp_all
  show ?thesis unfolding fields_def n Let_def f1 f2 f3 by (simp add: v)
qed

lemma number_fields:
  assumes "0 \<le> nr" "in_range (fields r nr)"
  shows "int (TIME_to_ulonglong_datetime (fields r nr)) = nr"
proof -
  define p1 p2 where p: "p1 = nr div 1000000" "p2 = nr - p1 * 1000000"
  define q1 q2 where q: "q1 = p1 mod 10000" "q2 = p2 mod 10000"
  define Y M D h m s where v: "Y = p1 div 10000" "M = q1 div 100" "D = q1 mod 100" "h = p2 div 10000" "m = q2 div 100" "s = q2 mod 100"
  have f: "fields r nr = r\<lparr>year := nat Y, month := nat M, day := nat D, hour := nat h, minute := nat m, second := nat s\<rparr>"
    unfolding fields_def Let_def v q p by (rule refl)
  have p0: "0 \<le> p1" "0 \<le> p2" using assms(1) by (simp_all add: p pos_imp_zdiv_nonneg_iff minus_div_mult_eq_mod)
  have "0 \<le> q1" "0 \<le> q2" by (simp_all add: q)
  then have nn: "0 \<le> Y" "0 \<le> M" "0 \<le> D" "0 \<le> h" "0 \<le> m" "0 \<le> s"
    using p0 unfolding v by (simp_all add: pos_imp_zdiv_nonneg_iff)
  have e: "p1 = Y * 10000 + q1" "p2 = h * 10000 + q2" "q1 = M * 100 + D" "q2 = m * 100 + s" by (simp_all add: v q)
  have "(year t * 10000 + month t * 100 + day t) * 1000000 + (hour t * 10000 + minute t * 100 + second t) < ULONG_RANGE"
    if "in_range t" for t using that by (simp add: in_range_def)
  from this [OF assms(2)] have "int (TIME_to_ulonglong_datetime (fields r nr)) =
     (int (year (fields r nr)) * 10000 + int (month (fields r nr)) * 100 + int (day (fields r nr))) * 1000000 +
     (int (hour (fields r nr)) * 10000 + int (minute (fields r nr)) * 100 + int (second (fields r nr)))"
    by (simp add: TIME_to_ulonglong_datetime_def)
  also have "\<dots> = (Y * 10000 + M * 100 + D) * 1000000 + (h * 10000 + m * 100 + s)"
    unfolding f using nn by simp
  also have "\<dots> = p1 * 1000000 + p2" unfolding e by simp
  finally show ?thesis by (simp add: p)
qed

lemma expand_number_pos: "expand_number nr = Some n \<Longrightarrow> 0 \<le> n \<and> (n = 0 \<longrightarrow> nr = 0)"
  by (auto simp: expand_number_def split: if_splits)

lemma expand_number_full: "1000000000000 \<le> nr \<Longrightarrow> expand_number nr = Some nr"
  by (simp add: expand_number_def)

text \<open>C28 Converting a valid date and time from the year 100 on to a number and back with
  \<open>number_to_datetime\<close> gives the same number and the same fields, and no warning, with any
  flags.\<close>

theorem number_datetime_roundtrip:
  assumes "valid_time t" "100 \<le> year t" "year t \<le> 9999"
  shows "number_to_datetime (int (TIME_to_ulonglong_datetime t)) r fl =
    Some (int (TIME_to_ulonglong_datetime t),
      r\<lparr>year := year t, month := month t, day := day t, hour := hour t, minute := minute t, second := second t\<rparr>, 0)"
proof -
  have rng: "in_range t" using assms dim_bounds [of "month t" "year t"] by (auto simp: in_range_def valid_time_def valid_date_def)
  have "1000000000000 \<le> int (TIME_to_ulonglong_datetime t)"
    using assms rng by (simp add: TIME_to_ulonglong_datetime_def in_range_def)
  then have e: "expand_number (int (TIME_to_ulonglong_datetime t)) = Some (int (TIME_to_ulonglong_datetime t))"
    "int (TIME_to_ulonglong_datetime t) \<noteq> 0" by (simp_all add: expand_number_full)
  let ?f = "fields r (int (TIME_to_ulonglong_datetime t))"
  note f = fields_number [OF rng, of r]
  have "check_date ?f True fl 0 = Some (False, 0)" unfolding f by (rule check_date_valid) (use assms(1) in \<open>simp add: valid_time_def\<close>)
  moreover have "in_range ?f" unfolding f using rng by (simp add: in_range_def)
  ultimately show ?thesis unfolding number_to_datetime_fields e using e(2) f by simp
qed

lemma number_datetime_roundtrip_witness:
  "number_to_datetime 20040229235959 zero_TIME 0 =
     Some (20040229235959, zero_TIME\<lparr>year := 2004, month := 2, day := 29, hour := 23, minute := 59, second := 59\<rparr>, 0)"
proof -
  let ?t = "zero_TIME\<lparr>year := 2004, month := 2, day := 29, hour := 23, minute := 59, second := 59\<rparr>"
  have "leap 2004" by (simp add: leap_iff)
  then have "valid_time ?t" by (simp add: valid_time_def valid_date_def dim_def)
  then show ?thesis using number_datetime_roundtrip [of ?t zero_TIME 0] by (simp add: TIME_to_ulonglong_datetime_def)
qed



end
