(* ===== verification/My_Time_Str.thy ===== *)
theory My_Time_Str
  imports My_Time_Conv
begin

text \<open>
  Strings: what \<open>my_datetime_to_str\<close>, \<open>my_date_to_str\<close> and \<open>my_time_to_str\<close> print, \<open>str_to_datetime\<close> and
  \<open>str_to_time\<close> read back; accepted strings give values in range; and the strings on which the
  parsers fail.
\<close>

unbundle bit_operations_syntax

section \<open>Printed digits\<close>

abbreviation dig :: "nat \<Rightarrow> char" where "dig n \<equiv> char_of (48 + n)"

lemma digits_cases: "n < 10 \<Longrightarrow> n \<in> {0, 1, 2, 3, 4, 5, 6, 7, 8, 9 :: nat}"
  by (simp, presburger)

lemma dig_class [simp]:
  assumes "n < 10"
  shows "my_isdigit (dig n)" "\<not> my_isspace (dig n)" "\<not> my_ispunct (dig n)" "digit_val (dig n) = n"
  using digits_cases [OF assms]
  by (auto simp: my_isdigit_def my_isspace_def my_ispunct_def digit_val_def ctype_latin1_def)

lemma delim_class [simp]:
  "\<not> my_isdigit CHR ''-''" "my_ispunct CHR ''-''" "\<not> my_isspace CHR ''-''"
  "\<not> my_isdigit CHR '':''" "my_ispunct CHR '':''" "\<not> my_isspace CHR '':''"
  "\<not> my_isdigit CHR ''.''" "my_ispunct CHR ''.''" "\<not> my_isspace CHR ''.''"
  "\<not> my_isdigit CHR '' ''" "\<not> my_ispunct CHR '' ''" "my_isspace CHR '' ''"
  by (simp_all add: my_isdigit_def my_isspace_def my_ispunct_def ctype_latin1_def)

lemma dig_other [simp]:
  assumes "n < 10"
  shows "dig n \<noteq> CHR ''-''" "dig n \<noteq> CHR '':''" "dig n \<noteq> CHR ''.''" "dig n \<noteq> CHR ''T''"
  using dig_class [OF assms] delim_class(1,4,7) by (metis, metis, metis)
    (use digits_cases [OF assms] in \<open>auto simp: char_of_def\<close>)

lemma dec_digits_small:
  "n < 10 \<Longrightarrow> dec_digits n = [dig n]"
  "10 \<le> n \<Longrightarrow> n < 100 \<Longrightarrow> dec_digits n = [dig (n div 10), dig (n mod 10)]"
  "100 \<le> n \<Longrightarrow> n < 1000 \<Longrightarrow> dec_digits n = [dig (n div 100), dig (n div 10 mod 10), dig (n mod 10)]"
  "1000 \<le> n \<Longrightarrow> n < 10000 \<Longrightarrow> dec_digits n = [dig (n div 1000), dig (n div 100 mod 10), dig (n div 10 mod 10), dig (n mod 10)]"
proof -
  have step: "10 \<le> n \<Longrightarrow> dec_digits n = dec_digits (n div 10) @ [dig (n mod 10)]" for n
    by (subst dec_digits.simps) simp
  show one: "n < 10 \<Longrightarrow> dec_digits n = [dig n]" for n by (subst dec_digits.simps) simp
  show two: "10 \<le> n \<Longrightarrow> n < 100 \<Longrightarrow> dec_digits n = [dig (n div 10), dig (n mod 10)]" for n
    using step [of n] one [of "n div 10"] by simp
  show three: "100 \<le> n \<Longrightarrow> n < 1000 \<Longrightarrow> dec_digits n = [dig (n div 100), dig (n div 10 mod 10), dig (n mod 10)]" for n
    using step [of n] two [of "n div 10"] by (simp add: div_mult2_eq [symmetric])
  show "1000 \<le> n \<Longrightarrow> n < 10000 \<Longrightarrow> dec_digits n = [dig (n div 1000), dig (n div 100 mod 10), dig (n div 10 mod 10), dig (n mod 10)]"
    using step [of n] three [of "n div 10"] by (simp add: div_mult2_eq [symmetric])
qed

lemma dig_0: "dig 0 = CHR ''0''"
  using char_of_char [of "CHR ''0''"] by simp

lemma fmt_2:
  assumes "v < 100"
  shows "fmt_d 2 v = [dig (v div 10), dig (v mod 10)]"
proof (cases "v < 10")
  case True
  then show ?thesis using dig_0 by (simp add: fmt_d_def Let_def dec_digits_small)
next
  case False
  then show ?thesis using assms by (simp add: fmt_d_def Let_def dec_digits_small)
qed

lemma fmt_4:
  assumes "v < 10000"
  shows "fmt_d 4 v = [dig (v div 1000), dig (v div 100 mod 10), dig (v div 10 mod 10), dig (v mod 10)]"
proof -
  have r: "replicate (Suc 0) c = [c]" "replicate 2 c = [c, c]" "replicate 3 c = [c, c, c]" for c :: char
    by (simp_all add: numeral_eq_Suc)
  consider "v < 10" | "10 \<le> v" "v < 100" | "100 \<le> v" "v < 1000" | "1000 \<le> v" by linarith
  then show ?thesis by cases (use assms dig_0 r in \<open>simp_all add: fmt_d_def Let_def dec_digits_small\<close>)
qed

section \<open>Reading a printed date and time\<close>

lemma or_low_byte: "(a OR b) mod 256 = 0 \<longleftrightarrow> a mod 256 = 0 \<and> b mod 256 = 0" for a b :: nat
proof -
  have "take_bit 8 (a OR b) = take_bit 8 a OR take_bit 8 b" by simp
  then have "(a OR b) mod 256 = a mod 256 OR b mod 256" by (simp add: take_bit_eq_mod)
  then show ?thesis by (simp add: or_eq_0_iff)
qed

lemma four_digits: "v < 10000 \<Longrightarrow> ((v div 1000 * 10 + v div 100 mod 10) * 10 + v div 10 mod 10) * 10 + v mod 10 = v"
  for v :: nat
proof -
  have "v div 1000 = v div 100 div 10" "v div 100 = v div 10 div 10" by (simp_all add: div_mult2_eq [symmetric])
  then show ?thesis by (metis div_mult_mod_eq)
qed

lemma two_digits: "v < 100 \<Longrightarrow> v div 10 * 10 + v mod 10 = v" for v :: nat
  by simp

lemmas parse_eval = parse_parts.simps parse_part_def Let_def

lemma parse_printed:
  assumes "y1 < 10" "y2 < 10" "y3 < 10" "y4 < 10" "m1 < 10" "m2 < 10" "d1 < 10" "d2 < 10" "h1 < 10" "h2 < 10"
    "i1 < 10" "i2 < 10" "s1 < 10" "s2 < 10"
  defines "Y \<equiv> ((y1 * 10 + y2) * 10 + y3) * 10 + y4" and "M \<equiv> m1 * 10 + m2" and "D \<equiv> d1 * 10 + d2"
    and "H \<equiv> h1 * 10 + h2" and "I \<equiv> i1 * 10 + i2" and "S \<equiv> s1 * 10 + s2"
  shows "parse_parts internal_format_positions False 4
      \<lparr>part = 0, rest = [dig y1, dig y2, dig y3, dig y4, CHR ''-'', dig m1, dig m2, CHR ''-'', dig d1, dig d2, CHR '' '',
         dig h1, dig h2, CHR '':'', dig i1, dig i2, CHR '':'', dig s1, dig s2], field_length = 4, date = ud, date_len = ul,
       not_zero_date = 0, found_delimitier = False, found_space = False, add_hours = 0, last_field_pos = str0\<rparr> =
    Some \<lparr>part = 6, rest = [], field_length = 2, date = ud[0 := Y, 1 := M, 2 := D, 3 := H, 4 := I, 5 := S],
      date_len = ul[0 := 4, 1 := 2, 2 := 2, 3 := 2, 4 := 2, 5 := 2], not_zero_date = Y OR M OR D OR H OR I OR S,
      found_delimitier = True, found_space = True, add_hours = 0, last_field_pos = []\<rparr>"
  using assms(1-14)
  by (simp add: parse_parts.simps parse_part_def Let_def internal_format_positions_def or.assoc assms(15-20))
    (simp add: numeral_eq_Suc)

lemma parse_printed_date:
  assumes "y1 < 10" "y2 < 10" "y3 < 10" "y4 < 10" "m1 < 10" "m2 < 10" "d1 < 10" "d2 < 10"
  defines "Y \<equiv> ((y1 * 10 + y2) * 10 + y3) * 10 + y4" and "M \<equiv> m1 * 10 + m2" and "D \<equiv> d1 * 10 + d2"
  shows "parse_parts internal_format_positions False 4
      \<lparr>part = 0, rest = [dig y1, dig y2, dig y3, dig y4, CHR ''-'', dig m1, dig m2, CHR ''-'', dig d1, dig d2],
       field_length = 4, date = ud, date_len = ul,
       not_zero_date = 0, found_delimitier = False, found_space = False, add_hours = 0, last_field_pos = str0\<rparr> =
    Some \<lparr>part = 3, rest = [], field_length = 2, date = ud[0 := Y, 1 := M, 2 := D],
      date_len = ul[0 := 4, 1 := 2, 2 := 2], not_zero_date = Y OR M OR D,
      found_delimitier = True, found_space = False, add_hours = 0, last_field_pos = []\<rparr>"
  using assms(1-8)
  by (simp add: parse_parts.simps parse_part_def Let_def internal_format_positions_def or.assoc assms(9-11))
    (simp add: numeral_eq_Suc)

text \<open>The parts of the function before and after the scan.\<close>

lemma str_to_datetime_scan:
  assumes "my_isdigit c" "\<not> my_isspace c" "\<not> list_all (\<lambda>c. my_isdigit c \<or> c = CHR ''T'') cs"
    and p: "parse_parts internal_format_positions False 4
      \<lparr>part = 0, rest = c # cs, field_length = 4, date = ud, date_len = ul[0 := 0],
       not_zero_date = 0, found_delimitier = False, found_space = False, add_hours = 0, last_field_pos = c # cs\<rparr> = Some p"
    and ok: "found_delimitier p \<longrightarrow> found_space p \<or> fl AND 2 = 0"
  shows "\<exists>yl. str_to_datetime ud ul (c # cs) l fl = finish_datetime internal_format_positions False yl 0 fl p l"
proof -
  have fp: "internal_format_positions ! 0 = 0" "internal_format_positions ! 1 = 1" "internal_format_positions ! Suc 0 = 1"
    "internal_format_positions ! 2 = 2" "internal_format_positions ! 6 = 6" by (simp_all add: internal_format_positions_def)
  let ?T = "length (takeWhile (\<lambda>c. my_isdigit c \<or> c = CHR ''T'') (c # cs))"
  have "takeWhile (\<lambda>c. my_isdigit c \<or> c = CHR ''T'') (c # cs) \<noteq> c # cs"
    using assms(3) unfolding takeWhile_eq_all_conv by (auto simp: list_all_iff)
  then have nl: "(?T = Suc (length cs)) = False"
    by (metis length_Cons take_all_iff order_refl takeWhile_eq_take)
  have dw: "dropWhile my_isspace (c # cs) = c # cs" using assms(2) by simp
  have d: "(\<not> my_isdigit (hd (c # cs))) = False" using assms(1) by simp
  have "str_to_datetime ud ul (c # cs) l fl =
      finish_datetime internal_format_positions False (if ?T = 4 \<or> ?T = 8 \<or> ?T \<ge> 14 then 4 else 2) 0 fl p l"
    unfolding str_to_datetime_def Let_def dw d fp length_Cons nl using ok by (auto simp add: p simp del: takeWhile.simps)
  then show ?thesis by blast
qed

lemma finish_datetime_ok:
  assumes t: "valid_time t" "year t \<le> 9999" and n: "part p = n" "3 \<le> n"
    and d: "fill_parts n (date p) = [year t, month t, day t, hour t, minute t, second t, 0, 0]"
    and l: "fill_parts n (date_len p) ! 0 = 4" "fill_parts n (date_len p) ! 6 = 0"
    and nz: "not_zero_date p mod 256 \<noteq> 0" and e: "last_field_pos p = []"
  defines "ty \<equiv> (if n \<le> 3 then MYSQL_TIMESTAMP_DATE else MYSQL_TIMESTAMP_DATETIME)"
  shows "finish_datetime internal_format_positions False yl 0 fl p r =
    Some (ty, t\<lparr>second_part := 0, neg := False, time_type := ty\<rparr>, 0)"
proof -
  let ?r = "r\<lparr>year := year t, month := month t, day := day t, hour := hour t, minute := minute t, second := second t,
      second_part := 0, neg := False\<rparr>"
  have fp: "internal_format_positions = [0, 1, 2, 3, 4, 5, 6, 255]" by (simp add: internal_format_positions_def)
  have ck: "check_date ?r True fl 0 = Some (False, 0)" by (rule check_date_valid) (use t(1) in \<open>simp add: valid_time_def\<close>)
  have rng: "\<not> out_of_range ?r"
    using t dim_bounds [of "month t" "year t"] by (auto simp: valid_time_def valid_date_def out_of_range_def)
  have "scale_fraction 0 0 = 0" by (simp add: scale_fraction_def u32_mul_def)
  then have "(assign_parts internal_format_positions False p r)\<lparr>neg := False\<rparr> = ?r"
    using d l n(1) by (simp add: assign_parts_def Let_def fp)
  then have "finish_datetime internal_format_positions False yl 0 fl p r = check_datetime n fl p ?r"
    using l n by (simp add: finish_datetime_def Let_def fp expand_year_def)
  moreover have "?r\<lparr>time_type := ty\<rparr> = t\<lparr>second_part := 0, neg := False, time_type := ty\<rparr>" by simp
  ultimately show ?thesis using n(2) nz e ck rng by (simp add: check_datetime_def ty_def)
qed

lemma list_8: "length xs = 8 \<Longrightarrow> \<exists>a0 a1 a2 a3 a4 a5 a6 a7. xs = [a0, a1, a2, a3, a4, a5, a6, a7]"
  by (auto simp: numeral_eq_Suc length_Suc_conv)

lemma datetime_str_ok:
  assumes t: "valid_time t" "year t \<le> 9999" and u: "length ud = 8" "length ul = 8"
  shows "str_to_datetime ud ul (my_datetime_to_str t) l fl =
    Some (MYSQL_TIMESTAMP_DATETIME, t\<lparr>second_part := 0, neg := False, time_type := MYSQL_TIMESTAMP_DATETIME\<rparr>, 0)"
proof -
  have b: "month t < 100" "day t < 100" "hour t < 100" "minute t < 100" "second t < 100" "year t < 10000" "1 \<le> month t" "month t \<le> 12"
    using t dim_bounds [of "month t" "year t"] by (auto simp: valid_time_def valid_date_def)
  obtain a0 a1 a2 a3 a4 a5 a6 a7 b0 b1 b2 b3 b4 b5 b6 b7
    where u8: "ud = [a0, a1, a2, a3, a4, a5, a6, a7]" "ul = [b0, b1, b2, b3, b4, b5, b6, b7]"
    using list_8 [OF u(1)] list_8 [OF u(2)] by blast
  have fd: "fill_parts 6 (ud[0 := v0, 1 := v1, 2 := v2, 3 := v3, 4 := v4, 5 := v5]) = [v0, v1, v2, v3, v4, v5, 0, 0]"
    "fill_parts 6 (ul[0 := v0, 1 := v1, 2 := v2, 3 := v3, 4 := v4, 5 := v5]) = [v0, v1, v2, v3, v4, v5, 0, 0]" for v0 v1 v2 v3 v4 v5
    by (simp_all add: u8 fill_parts_def numeral_eq_Suc)
  have nz: "(year t OR month t OR day t OR hour t OR minute t OR second t) mod 256 \<noteq> 0" using b by (simp add: or_low_byte)
  have s: "my_datetime_to_str t = dig (year t div 1000) # [dig (year t div 100 mod 10), dig (year t div 10 mod 10), dig (year t mod 10), CHR ''-'',
      dig (month t div 10), dig (month t mod 10), CHR ''-'', dig (day t div 10), dig (day t mod 10), CHR '' '',
      dig (hour t div 10), dig (hour t mod 10), CHR '':'', dig (minute t div 10), dig (minute t mod 10), CHR '':'',
      dig (second t div 10), dig (second t mod 10)]"
    unfolding my_datetime_to_str_def fmt_4 [OF b(6)] fmt_2 [OF b(1)] fmt_2 [OF b(2)] fmt_2 [OF b(3)] fmt_2 [OF b(4)] fmt_2 [OF b(5)] by simp
  have dg: "year t div 1000 < 10" "month t div 10 < 10" "day t div 10 < 10" "hour t div 10 < 10" "minute t div 10 < 10" "second t div 10 < 10"
    "year t div 100 mod 10 < 10" "year t div 10 mod 10 < 10" "year t mod 10 < 10" "month t mod 10 < 10" "day t mod 10 < 10"
    "hour t mod 10 < 10" "minute t mod 10 < 10" "second t mod 10 < 10"
    using b by auto
  note p = parse_printed [OF dg(1,7,8,9,2,10,3,11,4,12,5,13,6,14), of ud "ul[0 := 0]",
      unfolded four_digits [OF b(6)] two_digits [OF b(1)] two_digits [OF b(2)] two_digits [OF b(3)] two_digits [OF b(4)] two_digits [OF b(5)]]
  obtain yl where "str_to_datetime ud ul (my_datetime_to_str t) l fl = finish_datetime internal_format_positions False yl 0 fl
     \<lparr>part = 6, rest = [], field_length = 2, date = ud[0 := year t, 1 := month t, 2 := day t, 3 := hour t, 4 := minute t, 5 := second t],
      date_len = ul[0 := 0, 0 := 4, 1 := 2, 2 := 2, 3 := 2, 4 := 2, 5 := 2],
      not_zero_date = year t OR month t OR day t OR hour t OR minute t OR second t,
      found_delimitier = True, found_space = True, add_hours = 0, last_field_pos = []\<rparr> l"
    using str_to_datetime_scan [OF _ _ _ p, of fl l] dg unfolding s by auto
  moreover have "finish_datetime internal_format_positions False yl 0 fl
     \<lparr>part = 6, rest = [], field_length = 2, date = ud[0 := year t, 1 := month t, 2 := day t, 3 := hour t, 4 := minute t, 5 := second t],
      date_len = ul[0 := 0, 0 := 4, 1 := 2, 2 := 2, 3 := 2, 4 := 2, 5 := 2],
      not_zero_date = year t OR month t OR day t OR hour t OR minute t OR second t,
      found_delimitier = True, found_space = True, add_hours = 0, last_field_pos = []\<rparr> l =
    Some (if (6 :: nat) \<le> 3 then MYSQL_TIMESTAMP_DATE else MYSQL_TIMESTAMP_DATETIME,
      t\<lparr>second_part := 0, neg := False, time_type := if (6 :: nat) \<le> 3 then MYSQL_TIMESTAMP_DATE else MYSQL_TIMESTAMP_DATETIME\<rparr>, 0)"
    by (rule finish_datetime_ok [OF t]) (simp_all add: fd nz del: One_nat_def)
  ultimately show ?thesis by simp
qed

text \<open>What the scan of a printed date leaves.\<close>

lemma date_str_scan:
  assumes b: "year t < 10000" "month t < 100" "day t < 100" and fl: "fl AND 2 = 0"
  obtains yl where "str_to_datetime ud ul (my_date_to_str t) l fl = finish_datetime internal_format_positions False yl 0 fl
     \<lparr>part = 3, rest = [], field_length = 2, date = ud[0 := year t, 1 := month t, 2 := day t],
      date_len = ul[0 := 0, 0 := 4, 1 := 2, 2 := 2], not_zero_date = year t OR month t OR day t,
      found_delimitier = True, found_space = False, add_hours = 0, last_field_pos = []\<rparr> l"
proof -
  have s: "my_date_to_str t = dig (year t div 1000) # [dig (year t div 100 mod 10), dig (year t div 10 mod 10), dig (year t mod 10), CHR ''-'',
      dig (month t div 10), dig (month t mod 10), CHR ''-'', dig (day t div 10), dig (day t mod 10)]"
    unfolding my_date_to_str_def fmt_4 [OF b(1)] fmt_2 [OF b(2)] fmt_2 [OF b(3)] by simp
  have dg: "year t div 1000 < 10" "month t div 10 < 10" "day t div 10 < 10" "year t div 100 mod 10 < 10" "year t div 10 mod 10 < 10"
    "year t mod 10 < 10" "month t mod 10 < 10" "day t mod 10 < 10" using b by auto
  note p = parse_printed_date [OF dg(1,4,5,6,2,7,3,8), of ud "ul[0 := 0]",
      unfolded four_digits [OF b(1)] two_digits [OF b(2)] two_digits [OF b(3)]]
  show ?thesis using that str_to_datetime_scan [OF _ _ _ p, of fl l] dg fl unfolding s by auto
qed

lemma fill_parts_3:
  assumes "length u = 8"
  shows "fill_parts 3 (u[0 := v0, 1 := v1, 2 := v2]) = [v0, v1, v2, 0, 0, 0, 0, 0]"
  using list_8 [OF assms] by (auto simp: fill_parts_def numeral_eq_Suc)

lemma date_str_ok:
  assumes t: "valid_time t" "year t \<le> 9999" "hour t = 0" "minute t = 0" "second t = 0" and u: "length ud = 8" "length ul = 8" and fl: "fl AND 2 = 0"
  shows "str_to_datetime ud ul (my_date_to_str t) l fl =
    Some (MYSQL_TIMESTAMP_DATE, t\<lparr>second_part := 0, neg := False, time_type := MYSQL_TIMESTAMP_DATE\<rparr>, 0)"
proof -
  have b: "month t < 100" "day t < 100" "year t < 10000" "1 \<le> month t" "month t \<le> 12"
    using t dim_bounds [of "month t" "year t"] by (auto simp: valid_time_def valid_date_def)
  note fd = fill_parts_3 [OF u(1)] fill_parts_3 [of "ul[0 := 0]", simplified, OF u(2)]
  have nz: "(year t OR month t OR day t) mod 256 \<noteq> 0" using b by (simp add: or_low_byte)
  obtain yl where "str_to_datetime ud ul (my_date_to_str t) l fl = finish_datetime internal_format_positions False yl 0 fl
     \<lparr>part = 3, rest = [], field_length = 2, date = ud[0 := year t, 1 := month t, 2 := day t],
      date_len = ul[0 := 0, 0 := 4, 1 := 2, 2 := 2], not_zero_date = year t OR month t OR day t,
      found_delimitier = True, found_space = False, add_hours = 0, last_field_pos = []\<rparr> l"
    using date_str_scan [OF b(3,1,2) fl] by blast
  moreover have "finish_datetime internal_format_positions False yl 0 fl
     \<lparr>part = 3, rest = [], field_length = 2, date = ud[0 := year t, 1 := month t, 2 := day t],
      date_len = ul[0 := 0, 0 := 4, 1 := 2, 2 := 2], not_zero_date = year t OR month t OR day t,
      found_delimitier = True, found_space = False, add_hours = 0, last_field_pos = []\<rparr> l =
    Some (if (3 :: nat) \<le> 3 then MYSQL_TIMESTAMP_DATE else MYSQL_TIMESTAMP_DATETIME,
      t\<lparr>second_part := 0, neg := False, time_type := if (3 :: nat) \<le> 3 then MYSQL_TIMESTAMP_DATE else MYSQL_TIMESTAMP_DATETIME\<rparr>, 0)"
    by (rule finish_datetime_ok [OF t(1,2)])
      (simp_all add: fill_parts_3 u nz t(3-5) del: One_nat_def)
  ultimately show ?thesis by simp
qed

text \<open>A year without month and day.\<close>

lemma year_only_read:
  assumes y: "0 < y" "y < 10000" and u: "length ud = 8" "length ul = 8"
  shows "str_to_datetime ud ul (my_date_to_str (zero_TIME\<lparr>year := y\<rparr>)) l 0 =
    (if y mod 256 = 0 then Some (MYSQL_TIMESTAMP_DATE, zero_TIME\<lparr>year := y, time_type := MYSQL_TIMESTAMP_DATE\<rparr>, 0)
     else Some (MYSQL_TIMESTAMP_ERROR, zero_TIME, 2))"
proof -
  let ?t = "zero_TIME\<lparr>year := y\<rparr>"
  have fp: "internal_format_positions = [0, 1, 2, 3, 4, 5, 6, 255]" by (simp add: internal_format_positions_def)
  have t: "year ?t = y" "month ?t = 0" "day ?t = 0" by (simp_all add: zero_TIME_def)
  have sc: "scale_fraction 0 0 = 0" by (simp add: scale_fraction_def u32_mul_def)
  obtain yl where e: "str_to_datetime ud ul (my_date_to_str ?t) l 0 = finish_datetime internal_format_positions False yl 0 0
     \<lparr>part = 3, rest = [], field_length = 2, date = ud[0 := year ?t, 1 := month ?t, 2 := day ?t],
      date_len = ul[0 := 0, 0 := 4, 1 := 2, 2 := 2], not_zero_date = year ?t OR month ?t OR day ?t,
      found_delimitier = True, found_space = False, add_hours = 0, last_field_pos = []\<rparr> l"
    by (rule date_str_scan [of ?t 0 ud ul l]) (use y t in auto)
  show ?thesis unfolding e t
    using y by (simp add: finish_datetime_def assign_parts_def Let_def fp fill_parts_3 u sc expand_year_def check_datetime_def
      out_of_range_def check_date_def zero_TIME_def del: One_nat_def)
qed

section \<open>Reading a printed time\<close>

lemma fmt_2_3: "100 \<le> v \<Longrightarrow> v < 1000 \<Longrightarrow> fmt_d 2 v = [dig (v div 100), dig (v div 10 mod 10), dig (v mod 10)]"
  by (simp add: fmt_d_def Let_def dec_digits_small)

lemma list_5: "length xs = 5 \<Longrightarrow> \<exists>a0 a1 a2 a3 a4. xs = [a0, a1, a2, a3, a4]"
  by (auto simp: numeral_eq_Suc length_Suc_conv)

text \<open>The part after the hours.\<close>

lemma hms_printed:
  assumes "i1 < 10" "i2 < 10" "s1 < 10" "s2 < 10" "i1 * 10 + i2 < 60" "s1 * 10 + s2 < 60" "h < UINT_RANGE"
  shows "do { (date, state, str) \<leftarrow> hms_loop [0, h, a2, a3, a4] 2 [dig i1, dig i2, CHR '':'', dig s1, dig s2];
        finish_time (take state date @ replicate (4 - state) 0 @ drop 4 date) str l } =
    Some (False, l\<lparr>year := 0, month := 0, day := 0, hour := h, minute := i1 * 10 + i2, second := s1 * 10 + s2,
      second_part := 0, time_type := MYSQL_TIMESTAMP_TIME\<rparr>, 0)"
  using assms by (simp add: hms_loop.simps finish_time_def fraction_def internal_format_positions_def Let_def)

lemma time_digits_2:
  "a < 10 \<Longrightarrow> b < 10 \<Longrightarrow> time_digits (dig a # dig b # CHR '':'' # cs) 0 = Some (CHR '':'' # cs, a * 10 + b)"
  by simp

lemma time_digits_3:
  "a < 10 \<Longrightarrow> b < 10 \<Longrightarrow> c < 10 \<Longrightarrow>
   time_digits (dig a # dig b # dig c # CHR '':'' # cs) 0 = Some (CHR '':'' # cs, (a * 10 + b) * 10 + c)"
  by simp

text \<open>A string of hours and \<open>:MM:SS\<close>, after the sign.\<close>

lemma str_to_time_hours:
  assumes d: "time_digits (h @ CHR '':'' # tl') 0 = Some (CHR '':'' # tl', v)" and h: "h \<noteq> []" "my_isdigit (hd h)" "hd h \<noteq> CHR ''-''"
    and sp: "\<not> my_isspace (hd h)" and len: "length h \<le> 3" "length tl' = 5" "my_isdigit (hd tl')"
  shows "str_to_time ud ul ut ((if ng then ''-'' else []) @ h @ CHR '':'' # tl') l =
    do { (date, state, str) \<leftarrow> hms_loop (ut[0 := 0, 1 := v]) 2 tl';
         finish_time (take state date @ replicate (4 - state) 0 @ drop 4 date) str (l\<lparr>neg := ng\<rparr>) }"
proof -
  let ?s = "h @ CHR '':'' # tl'"
  have s: "hd ?s = hd h" "?s \<noteq> []" using h(1) by auto
  have dw: "dropWhile my_isspace ((if ng then ''-'' else []) @ ?s) = (if ng then ''-'' else []) @ ?s"
    using sp h(1) by (cases h) auto
  have n: "(((if ng then ''-'' else []) @ ?s) \<noteq> [] \<and> hd ((if ng then ''-'' else []) @ ?s) = CHR ''-'') = ng"
    using h s by auto
  have t: "(if ng then tl ((if ng then ''-'' else []) @ ?s) else (if ng then ''-'' else []) @ ?s) = ?s" by simp
  have tl': "tl' \<noteq> []" "tl' ! 0 = hd tl'" using len(2) by (cases tl'; simp)+
  show ?thesis unfolding str_to_time_def Let_def dw n t using d s(2) len tl' by simp
qed

lemma time_str_ok:
  assumes t: "hour t < 1000" "minute t < 60" "second t < 60" and u: "length ut = 5"
  shows "str_to_time ud ul ut (my_time_to_str t) l =
    Some (False, l\<lparr>year := 0, month := 0, day := 0, hour := hour t, minute := minute t, second := second t,
      second_part := 0, neg := neg t, time_type := MYSQL_TIMESTAMP_TIME\<rparr>, 0)"
proof -
  obtain a0 a1 a2 a3 a4 where u5: "ut = [a0, a1, a2, a3, a4]" using list_5 [OF u] by blast
  have b: "minute t < 100" "second t < 100" using t by auto
  let ?tl = "[dig (minute t div 10), dig (minute t mod 10), CHR '':'', dig (second t div 10), dig (second t mod 10)]"
  have dg: "minute t div 10 < 10" "second t div 10 < 10" "minute t mod 10 < 10" "second t mod 10 < 10" using b by auto
  have h: "\<exists>h. fmt_d 2 (hour t) = h \<and> h \<noteq> [] \<and> my_isdigit (hd h) \<and> hd h \<noteq> CHR ''-'' \<and> \<not> my_isspace (hd h) \<and> length h \<le> 3 \<and>
      time_digits (h @ CHR '':'' # ?tl) 0 = Some (CHR '':'' # ?tl, hour t)"
  proof (cases "hour t < 100")
    case True
    then have "hour t div 10 < 10" by auto
    then show ?thesis using fmt_2 [OF True] time_digits_2 [of "hour t div 10" "hour t mod 10" ?tl] by simp
  next
    case False
    then have "hour t div 100 < 10" "(hour t div 100 * 10 + hour t div 10 mod 10) * 10 + hour t mod 10 = hour t"
      using t(1) by (auto simp: div_mult2_eq [of _ 10 10, simplified])
    then show ?thesis using fmt_2_3 [of "hour t"] time_digits_3 [of "hour t div 100" "hour t div 10 mod 10" "hour t mod 10" ?tl] False t(1)
      by simp
  qed
  then obtain h where h: "fmt_d 2 (hour t) = h" "h \<noteq> []" "my_isdigit (hd h)" "hd h \<noteq> CHR ''-''" "\<not> my_isspace (hd h)" "length h \<le> 3"
    "time_digits (h @ CHR '':'' # ?tl) 0 = Some (CHR '':'' # ?tl, hour t)" by blast
  have s: "my_time_to_str t = (if neg t then ''-'' else []) @ h @ CHR '':'' # ?tl"
    unfolding my_time_to_str_def fmt_2 [OF b(1)] fmt_2 [OF b(2)] using h(1) t(1) by simp
  have "ut[0 := 0, 1 := hour t] = [0, hour t, a2, a3, a4]" by (simp add: u5)
  then show ?thesis unfolding s
    using str_to_time_hours [OF h(7,2-6), of ud ul ut "neg t" l] dg
      hms_printed [OF dg(1,3,2,4), of "hour t" a2 a3 a4 "l\<lparr>neg := neg t\<rparr>"] two_digits [OF b(1)] two_digits [OF b(2)] t by simp
qed

section \<open>Every accepted string\<close>

lemma isdigit_table: "list_all (\<lambda>(n, x). x AND 4 \<noteq> 0 \<longrightarrow> 49 \<le> n \<and> n \<le> 58) (zip [0..<257] ctype_latin1)"
  by code_simp

lemma isdigit_val: "my_isdigit c \<Longrightarrow> digit_val c < 10"
proof -
  assume d: "my_isdigit c"
  let ?n = "of_char c + 1 :: nat"
  have l: "length ctype_latin1 = 257" by (simp add: ctype_latin1_def)
  have "of_char c \<in> {0..<256 :: nat}" unfolding range_nat_of_char [symmetric] by simp
  then have n: "?n < 257" by simp
  have "(?n, ctype_latin1 ! ?n) \<in> set (zip [0..<257] ctype_latin1)"
    unfolding set_zip using n l by (auto intro!: exI [of _ ?n])
  then have "?n \<le> 58" using isdigit_table d by (auto simp: list_all_iff my_isdigit_def)
  then show ?thesis by (simp add: digit_val_def)
qed

lemma part_digits_bound:
  "part_digits internal s n v = (s', v') \<Longrightarrow> v < 10 ^ k \<Longrightarrow> length s' \<le> length s \<and> v' < 10 ^ (k + (length s - length s'))"
proof (induction internal s n v arbitrary: k rule: part_digits.induct)
  case (2 internal c cs n v)
  show ?case
  proof (cases "my_isdigit c \<and> (\<not> internal \<or> u32_sub n 1 \<noteq> 0)")
    case True
    let ?v = "(v * 10 + digit_val c) mod ULONG_RANGE"
    have "?v \<le> v * 10 + digit_val c" by (rule mod_less_eq_dividend)
    also have "\<dots> < 10 ^ Suc k" using 2(3) isdigit_val [of c] True by simp
    finally have lt: "?v < 10 ^ Suc k" .
    have "part_digits internal cs (u32_sub n 1) ?v = (s', v')" using 2(2) True by simp
    from 2(1) [OF True this lt] have "length s' \<le> length cs \<and> v' < 10 ^ (Suc k + (length cs - length s'))" .
    moreover from this have "k + (length (c # cs) - length s') = Suc k + (length cs - length s')" by (simp add: Suc_diff_le)
    ultimately show ?thesis by (metis le_SucI length_Cons)
  next
    case False
    then have "s' = c # cs \<and> v' = v" using 2(2) by (simp split: if_splits)
    then show ?thesis using 2(3) by simp
  qed
qed simp

definition parse_inv :: "parse \<Rightarrow> bool" where
  "parse_inv p \<longleftrightarrow> length (date p) = 8 \<and> length (date_len p) = 8 \<and>
     (\<forall>k<part p. k < 7 \<longrightarrow> date p ! k \<le> 999999 \<and> date p ! k < 10 ^ (date_len p ! k))"

lemma parse_part_result:
  assumes "parse_part internal_format_positions internal al p = r" "r \<noteq> Not_date" "part p < 7"
  obtains v str q where "part_digits internal (tl (rest p)) (field_length p) (digit_val (hd (rest p))) = (str, v)" "v \<le> 999999"
    "date q = (date p)[part p := v]" "date_len q = (date_len p)[part p := length (rest p) - length str]"
    "r = Break q \<and> part q = part p + 1 \<or> r = Continue q \<and> (part q = part p \<or> part p = 6 \<and> part q = 7)"
proof -
  obtain str v where pd: "part_digits internal (tl (rest p)) (field_length p) (digit_val (hd (rest p))) = (str, v)" by fastforce
  have fp: "internal_format_positions ! 2 = 2" "internal_format_positions ! 5 = 5" "internal_format_positions ! 6 = 6" "internal_format_positions ! 7 = 255"
    by (simp_all add: internal_format_positions_def)
  show ?thesis
    by (rule that [OF pd, of "case r of Break q \<Rightarrow> q | Continue q \<Rightarrow> q | Not_date \<Rightarrow> p"])
      (use assms(1,2) in \<open>auto simp: parse_part_def pd fp Let_def split: if_splits option.splits prod.splits\<close>)
qed

lemma parse_part_inv:
  assumes "parse_inv p" "part p < 7" "rest p \<noteq> []" "my_isdigit (hd (rest p))"
  shows "parse_part internal_format_positions internal al p = Break q \<Longrightarrow> parse_inv q"
    "parse_part internal_format_positions internal al p = Continue q \<Longrightarrow> parse_inv (q\<lparr>part := part q + 1\<rparr>)"
proof -
  have key: "parse_inv (q\<lparr>part := n\<rparr>)" if "part_digits internal (tl (rest p)) (field_length p) (digit_val (hd (rest p))) = (str, v)" "v \<le> 999999"
    "date q = (date p)[part p := v]" "date_len q = (date_len p)[part p := length (rest p) - length str]" "n = part p + 1 \<or> part p = 6" for q str v n
  proof -
    have v: "v < 10 ^ (1 + (length (tl (rest p)) - length str))" "length str \<le> length (tl (rest p))"
      using part_digits_bound [OF that(1), of 1] isdigit_val [OF assms(4)] by auto
    have "1 + (length (tl (rest p)) - length str) = length (rest p) - length str"
      using assms(3) v(2) by (cases "rest p") auto
    then have "v < 10 ^ (length (rest p) - length str)" using v(1) by presburger
    then show ?thesis using that(2-) assms(1,2) by (auto simp: parse_inv_def nth_list_update less_Suc_eq)
  qed
  show "parse_inv q" if "parse_part internal_format_positions internal al p = Break q"
    using parse_part_result [OF that _ assms(2)] key [of _ _ q "part q"] by (metis parse.surjective parse.update_convs(1) parse_res.distinct(1) parse_res.distinct(5) parse_res.inject(1))
  show "parse_inv (q\<lparr>part := part q + 1\<rparr>)" if "parse_part internal_format_positions internal al p = Continue q"
    using parse_part_result [OF that _ assms(2)] key [of _ _ q "part q + 1"] by (metis parse_res.distinct(3) parse_res.distinct(5) parse_res.inject(2))
qed

lemma parse_parts_inv:
  assumes "parse_inv p" "parse_parts internal_format_positions internal al p = Some q"
  shows "parse_inv q"
proof -
  have "fp = internal_format_positions \<Longrightarrow> parse_inv p \<Longrightarrow> parse_parts fp internal al p = Some q \<Longrightarrow> parse_inv q" for fp
  proof (induction fp internal al p rule: parse_parts.induct)
    case (1 fp internal al p)
    show ?case
    proof (cases "part p < 7 \<and> rest p \<noteq> [] \<and> my_isdigit (hd (rest p))")
      case True
      show ?thesis
      proof (cases "parse_part fp internal al p")
        case Not_date
        then show ?thesis using 1(4) True by (subst (asm) parse_parts.simps) simp
      next
        case (Break q')
        then have "q' = q" using 1(4) True by (subst (asm) parse_parts.simps) simp
        then show ?thesis using parse_part_inv(1) Break 1(2,3) True by blast
      next
        case (Continue q')
        then have "parse_parts fp internal al (q'\<lparr>part := part q' + 1\<rparr>) = Some q" using 1(4) True by (subst (asm) parse_parts.simps) simp
        then show ?thesis using 1(1) [OF True Continue 1(2)] parse_part_inv(2) Continue 1(2,3) True by blast
      qed
    next
      case False
      then have "parse_parts fp internal al p = Some p" by (subst parse_parts.simps) (rule if_not_P)
      then show ?thesis using 1(3,4) by simp
    qed
  qed
  then show ?thesis using assms by blast
qed

lemma scale_fraction_bound:
  assumes "v \<le> 999999" "v < 10 ^ len"
  shows "scale_fraction v len < 1000000"
proof (cases "len < 6")
  case True
  then consider "len = 0" | "len = 1" | "len = 2" | "len = 3" | "len = 4" | "len = 5" by linarith
  then show ?thesis using assms by cases (simp_all add: scale_fraction_def log_10_int_def)
next
  case False
  then show ?thesis using assms by (simp add: scale_fraction_def)
qed

text \<open>What each answer of \<open>str_to_datetime\<close> means.\<close>

fun datetime_answer :: "MYSQL_TIME \<Rightarrow> timestamp_type \<times> MYSQL_TIME \<times> nat \<Rightarrow> bool" where
  "datetime_answer l (ty, t, c) \<longleftrightarrow> (case ty of
     MYSQL_TIMESTAMP_NONE \<Rightarrow> t = l \<and> c = 1
   | MYSQL_TIMESTAMP_ERROR \<Rightarrow> t = zero_TIME \<and> c \<le> 2
   | MYSQL_TIMESTAMP_TIME \<Rightarrow> False
   | _ \<Rightarrow> in_range t \<and> second_part t < 1000000 \<and> \<not> neg t \<and> time_type t = ty \<and> c \<le> 1)"

lemma fill_parts_nth: "length xs = 8 \<Longrightarrow> k < 8 \<Longrightarrow> fill_parts n xs ! k = (if k < n then xs ! k else 0)"
  by (auto simp: fill_parts_def nth_append min_def)

lemma check_datetime_answer:
  assumes "second_part t < 1000000" "\<not> neg t"
  shows "\<exists>r. check_datetime n fl p t = Some r \<and> datetime_answer l r"
proof (cases "n < 3 \<or> out_of_range t")
  case True
  then show ?thesis by (auto simp: check_datetime_def)
next
  case False
  then have "month t \<le> 12" by (simp add: out_of_range_def)
  then obtain e c where "check_date t (not_zero_date p mod 256 \<noteq> 0) fl 0 = Some (e, c)" "c = 0 \<or> e \<and> c = 2"
    using check_date_total [of t "not_zero_date p mod 256 \<noteq> 0" fl 0] by blast
  then show ?thesis using False assms by (auto simp: check_datetime_def Let_def in_range_def out_of_range_def)
qed

lemma finish_datetime_answer:
  assumes "parse_inv p"
  shows "\<exists>r. finish_datetime internal_format_positions internal yl 0 fl p l = Some r \<and> datetime_answer l r"
proof -
  let ?d = "fill_parts (part p) (date p)" let ?l = "fill_parts (part p) (date_len p)"
  have fp: "internal_format_positions ! 6 = 6" "internal_format_positions ! 7 = 255" by (simp_all add: internal_format_positions_def)
  have "?d ! 6 \<le> 999999 \<and> ?d ! 6 < 10 ^ (?l ! 6)"
    using assms fill_parts_nth [of "date p" 6 "part p"] fill_parts_nth [of "date_len p" 6 "part p"] by (auto simp: parse_inv_def)
  then have "second_part (expand_year y z (assign_parts internal_format_positions internal p l\<lparr>neg := False\<rparr>)) < 1000000"
    "\<not> neg (expand_year y z (assign_parts internal_format_positions internal p l\<lparr>neg := False\<rparr>))" for y z
    using scale_fraction_bound by (auto simp: expand_year_def assign_parts_def Let_def fp)
  from check_datetime_answer [OF this] show ?thesis by (auto simp: finish_datetime_def Let_def fp)
qed

lemma str_to_datetime_answer:
  assumes "length ud = 8" "length ul = 8"
  shows "\<exists>r. str_to_datetime ud ul str l fl = Some r \<and> datetime_answer l r"
proof (cases "dropWhile my_isspace str = [] \<or> \<not> my_isdigit (hd (dropWhile my_isspace str))")
  case True
  then show ?thesis by (auto simp: str_to_datetime_def)
next
  case False
  define s where "s = dropWhile my_isspace str"
  have fp: "internal_format_positions ! 0 = 0" by (simp add: internal_format_positions_def)
  let ?int = "length (takeWhile (\<lambda>c. my_isdigit c \<or> c = CHR ''T'') s) = length s"
  define yl where "yl = (if length (takeWhile (\<lambda>c. my_isdigit c \<or> c = CHR ''T'') s) = 4 \<or>
      length (takeWhile (\<lambda>c. my_isdigit c \<or> c = CHR ''T'') s) = 8 \<or> length (takeWhile (\<lambda>c. my_isdigit c \<or> c = CHR ''T'') s) \<ge> 14 then 4 else 2 :: nat)"
  define p0 where "p0 = \<lparr>part = 0, rest = s, field_length = (if ?int then yl else 4), date = ud, date_len = ul[0 := 0],
      not_zero_date = 0, found_delimitier = False, found_space = False, add_hours = 0, last_field_pos = s\<rparr>"
  define al where "al = (2 ^ (max (max (internal_format_positions ! 0) (internal_format_positions ! 1)) (internal_format_positions ! 2)) OR
      2 ^ (internal_format_positions ! 6)) AND (1 OR 2 OR 4 OR 8 :: nat)"
  have eq: "str_to_datetime ud ul str l fl = (case parse_parts internal_format_positions ?int al p0 of
      None \<Rightarrow> Some (MYSQL_TIMESTAMP_NONE, l, 1)
    | Some p \<Rightarrow> if found_delimitier p \<and> \<not> found_space p \<and> fl AND 2 \<noteq> 0 then Some (MYSQL_TIMESTAMP_NONE, l, 1)
        else finish_datetime internal_format_positions ?int yl 0 fl p l)"
    using False unfolding str_to_datetime_def s_def [symmetric] Let_def al_def fp p0_def yl_def by simp
  have inv: "parse_inv p0" using assms by (simp add: parse_inv_def p0_def)
  show ?thesis
  proof (cases "parse_parts internal_format_positions ?int al p0")
    case None
    then show ?thesis unfolding eq by simp
  next
    case (Some p)
    then show ?thesis unfolding eq using finish_datetime_answer [OF parse_parts_inv [OF inv Some], of ?int yl fl l] by auto
  qed
qed

section \<open>Lengths and overruns\<close>

lemma dec_digits_length: "0 < k \<Longrightarrow> n < 10 ^ k \<Longrightarrow> length (dec_digits n) \<le> k"
proof (induction n arbitrary: k rule: dec_digits.induct)
  case (1 n)
  show ?case
  proof (cases "n < 10")
    case True
    then show ?thesis using 1(2) by (simp add: dec_digits.simps)
  next
    case False
    then have "k \<noteq> 1" using 1(3) by auto
    then obtain j where k: "k = Suc j" "0 < j" using 1(2) by (metis One_nat_def Suc_pred neq0_conv)
    then have "n div 10 < 10 ^ j" using 1(3) by (simp add: less_mult_imp_div_less mult.commute)
    then show ?thesis using 1(1) [OF False k(2)] False k(1) by (subst dec_digits.simps) simp
  qed
qed

lemma fmt_d_length:
  assumes "v < 2147483648" "v < 10 ^ k" "0 < k" "w \<le> k"
  shows "length (fmt_d w v) \<le> k"
  using dec_digits_length [OF assms(3,2)] assms(1,4) by (simp add: fmt_d_def Let_def)

lemma fmt_d_any: "length (fmt_d 2 v) \<le> 11"
proof -
  have "length (dec_digits (v mod UINT_RANGE)) \<le> 10" "length (dec_digits (UINT_RANGE - v mod UINT_RANGE)) \<le> 10"
    by (rule dec_digits_length; simp)+
  then show ?thesis by (auto simp: fmt_d_def Let_def)
qed

lemma frac_digits_overrun:
  "list_all my_isdigit ds \<Longrightarrow> n < length ds \<Longrightarrow> n \<le> 5 \<Longrightarrow> \<exists>s w. frac_digits (ds @ r) n v = (s, UINT_RANGE - 1, w)"
proof (induction ds arbitrary: n v)
  case (Cons c cs)
  show ?case
  proof (cases n)
    case 0
    then show ?thesis using Cons by (simp add: u32_sub_def)
  next
    case (Suc m)
    then have "u32_sub n 1 = m" using Cons.prems by (simp add: u32_sub_def)
    then show ?thesis using Cons Suc by simp
  qed
qed simp

lemma fraction_overrun:
  assumes "list_all my_isdigit ds" "7 \<le> length ds"
  shows "fraction (CHR ''.'' # ds @ r) = None"
proof -
  obtain c cs where ds: "ds = c # cs" using assms(2) by (cases ds) auto
  obtain s w where "frac_digits (cs @ r) 5 (digit_val c) = (s, UINT_RANGE - 1, w)"
    using frac_digits_overrun [of cs 5 r "digit_val c"] assms ds by auto
  then show ?thesis using assms(1) ds by (simp add: fraction_def rd_def log_10_int_def)
qed

section \<open>Properties\<close>

text \<open>C24 Printing a valid date and time with \<open>my_datetime_to_str\<close> and reading the string with
  \<open>str_to_datetime\<close>, with any flags, gives the same date and time, without fraction and warning,
  whatever the uninitialised local arrays hold.\<close>

theorem datetime_string_roundtrip:
  assumes "valid_time t" "year t \<le> 9999" and "length ud = 8" "length ul = 8"
  shows "str_to_datetime ud ul (my_datetime_to_str t) l fl =
    Some (MYSQL_TIMESTAMP_DATETIME, t\<lparr>second_part := 0, neg := False, time_type := MYSQL_TIMESTAMP_DATETIME\<rparr>, 0)"
  by (rule datetime_str_ok [OF assms])

lemma datetime_string_roundtrip_witness:
  "\<exists>t. valid_time t \<and> str_to_datetime (replicate 8 7) (replicate 8 7) (my_datetime_to_str t) zero_TIME 0 =
     Some (MYSQL_TIMESTAMP_DATETIME, t\<lparr>time_type := MYSQL_TIMESTAMP_DATETIME\<rparr>, 0)"
proof -
  let ?t = "zero_TIME\<lparr>year := 1999, month := 12, day := 31, hour := 23, minute := 59, second := 58\<rparr>"
  have "valid_time ?t" by (simp add: valid_time_def valid_date_def dim_def days_in_month_def)
  then show ?thesis using datetime_string_roundtrip [of ?t "replicate 8 7" "replicate 8 7" zero_TIME 0]
    by (intro exI [of _ ?t]) (simp add: zero_TIME_def)
qed

text \<open>A printed date is read back likewise, as a date, unless only full date-times are allowed.\<close>

theorem date_string_roundtrip:
  assumes "valid_time t" "year t \<le> 9999" "hour t = 0" "minute t = 0" "second t = 0" and "length ud = 8" "length ul = 8"
    and "fl AND 2 = 0"
  shows "str_to_datetime ud ul (my_date_to_str t) l fl =
    Some (MYSQL_TIMESTAMP_DATE, t\<lparr>second_part := 0, neg := False, time_type := MYSQL_TIMESTAMP_DATE\<rparr>, 0)"
  by (rule date_str_ok [OF assms])

lemma date_string_roundtrip_witness:
  "\<exists>t. year t = 2004 \<and> str_to_datetime (replicate 8 7) (replicate 8 7) (my_date_to_str t) zero_TIME 0 = Some (MYSQL_TIMESTAMP_DATE, t, 0)"
proof -
  let ?t = "zero_TIME\<lparr>year := 2004, month := 2, day := 29\<rparr>"
  have "leap 2004" by (simp add: leap_iff)
  then have "valid_time ?t" by (simp add: zero_TIME_def valid_time_def valid_date_def dim_def)
  then show ?thesis using date_string_roundtrip [of ?t "replicate 8 7" "replicate 8 7" 0 zero_TIME]
    by (intro exI [of _ ?t]) (simp add: zero_TIME_def)
qed

text \<open>C36 Printing a time below 1000 hours with \<open>my_time_to_str\<close> and reading it with
  \<open>str_to_time\<close> gives the same time with its sign, as a \<open>TIME\<close> value and without warning.\<close>

theorem time_string_roundtrip:
  assumes "hour t < 1000" "minute t < 60" "second t < 60" and "length ut = 5"
  shows "str_to_time ud ul ut (my_time_to_str t) l =
    Some (False, l\<lparr>year := 0, month := 0, day := 0, hour := hour t, minute := minute t, second := second t,
      second_part := 0, neg := neg t, time_type := MYSQL_TIMESTAMP_TIME\<rparr>, 0)"
  by (rule time_str_ok [OF assms])

lemma time_string_roundtrip_witness:
  "\<exists>t. hour t = 838 \<and> neg t \<and> str_to_time [] [] (replicate 5 7) (my_time_to_str t) zero_TIME = Some (False, t, 0)"
proof -
  let ?t = "zero_TIME\<lparr>hour := 838, minute := 59, second := 59, neg := True, time_type := MYSQL_TIMESTAMP_TIME\<rparr>"
  show ?thesis using time_string_roundtrip [of ?t "replicate 5 7" "[]" "[]" zero_TIME]
    by (intro exI [of _ ?t]) (simp add: zero_TIME_def)
qed

text \<open>C25 \<open>str_to_datetime\<close> returns for every string and all flags.  It leaves the structure alone when
  it says the string is no timestamp, zeroes it on an error, and otherwise all fields are in the
  ranges of a timestamp (six digits of fraction) and the type stored is the one returned.\<close>

theorem str_to_datetime_total:
  assumes "length ud = 8" "length ul = 8"
  shows "\<exists>r. str_to_datetime ud ul str l fl = Some r \<and> datetime_answer l r"
  by (rule str_to_datetime_answer [OF assms])

lemma str_to_datetime_total_witness:
  "\<exists>r. str_to_datetime (replicate 8 0) (replicate 8 0) ''10:11:12.5 x'' zero_TIME 3 = Some r \<and> datetime_answer zero_TIME r"
  using str_to_datetime_total [of "replicate 8 0" "replicate 8 0"] by simp

text \<open>A fraction of seven or more digits makes \<open>str_to_time\<close> leave the bounds of \<open>log_10_int\<close>: the
  counter of the remaining digits wraps around below zero and is used as the index.\<close>

theorem str_to_time_fraction_overrun:
  assumes "a < 10" "list_all my_isdigit ds" "7 \<le> length ds" "length ds \<le> 9" and "length ut = 5"
  shows "str_to_time ud ul ut (dig a # CHR ''.'' # ds) l = None"
proof -
  have "fraction (CHR ''.'' # ds) = None" using fraction_overrun [OF assms(2,3), of "[]"] by simp
  then have "finish_time x (CHR ''.'' # ds) l' = None" for x l' by (simp add: finish_time_def)
  then show ?thesis using assms by (auto simp: str_to_time_def Let_def)
qed

lemma str_to_time_fraction_overrun_witness:
  "str_to_time [] [] (replicate 5 0) [dig 1, CHR ''.'', dig 1, dig 2, dig 3, dig 4, dig 5, dig 6, dig 7] zero_TIME = None"
proof (rule str_to_time_fraction_overrun)
  show "list_all my_isdigit [dig 1, dig 2, dig 3, dig 4, dig 5, dig 6, dig 7]"
    unfolding list.pred_inject by (intro conjI TrueI; (rule dig_class(1))?; simp)
qed simp_all

text \<open>The flag that the date is not zero is cut to eight bits on its way to \<open>check_date\<close>: without
  any fuzzy flag a year with month and day 0 is refused, as it should, unless the year is a multiple
  of 256, in which case it is accepted as a date.\<close>

theorem zero_month_accepted:
  assumes "0 < y" "y < 10000" and "length ud = 8" "length ul = 8"
  shows "str_to_datetime ud ul (my_date_to_str (zero_TIME\<lparr>year := y\<rparr>)) l 0 =
    (if y mod 256 = 0 then Some (MYSQL_TIMESTAMP_DATE, zero_TIME\<lparr>year := y, time_type := MYSQL_TIMESTAMP_DATE\<rparr>, 0)
     else Some (MYSQL_TIMESTAMP_ERROR, zero_TIME, 2))"
  by (rule year_only_read [OF assms])

lemma zero_month_accepted_witness:
  "\<exists>t. year t = 1792 \<and> month t = 0 \<and>
     str_to_datetime (replicate 8 0) (replicate 8 0) (my_date_to_str (zero_TIME\<lparr>year := 1792\<rparr>)) zero_TIME 0 = Some (MYSQL_TIMESTAMP_DATE, t, 0)"
  using zero_month_accepted [of 1792 "replicate 8 0" "replicate 8 0" zero_TIME]
  by (intro exI [of _ "zero_TIME\<lparr>year := 1792, time_type := MYSQL_TIMESTAMP_DATE\<rparr>"]) (simp add: zero_TIME_def)

text \<open>C39 The strings fit the buffer of \<open>MAX_DATE_STRING_REP_LENGTH\<close> (30, with the final null) for all
  values that the binary protocol can transmit: a year of two bytes, the other parts of one byte,
  and any number of hours in a time.\<close>

theorem TIME_string_fits:
  assumes "year t < 65536" "month t < 256" "day t < 256" "minute t < 256" "second t < 256"
    and "time_type t = MYSQL_TIMESTAMP_TIME \<or> hour t < 256"
  shows "length (my_TIME_to_str t) < 30"
proof -
  have b: "length (fmt_d 4 (year t)) \<le> 5" "length (fmt_d 2 (month t)) \<le> 3" "length (fmt_d 2 (day t)) \<le> 3"
    "length (fmt_d 2 (minute t)) \<le> 3" "length (fmt_d 2 (second t)) \<le> 3" "hour t < 256 \<Longrightarrow> length (fmt_d 2 (hour t)) \<le> 3"
    using assms(1-5) by (auto intro!: fmt_d_length)
  show ?thesis
    using b fmt_d_any [of "u32_add 0 (hour t)"] assms(6)
    by (cases "time_type t") (auto simp: my_TIME_to_str_def my_datetime_to_str_def my_date_to_str_def my_time_to_str_def)
qed

lemma TIME_string_fits_witness: "length (my_TIME_to_str (zero_TIME\<lparr>year := 65535, month := 255\<rparr>)) < 30"
  by (rule TIME_string_fits) (simp_all add: zero_TIME_def)

end
