(* ===== verification/Thr_Lock.thy ===== *)
theory Thr_Lock
  imports Prelude
begin

text \<open>
  Model of the table locks of \<open>mysys/thr_lock.c\<close> (structures in \<open>include/thr_lock.h\<close>).

  A lock (\<open>THR_LOCK\<close>) has four doubly linked lists of lock instances (\<open>THR_LOCK_DATA\<close>): the
  active read and write locks and the two queues of waiting ones.  The links are modelled as
  the code has them: \<open>next\<close> points to an instance and \<open>prev\<close> and \<open>last\<close> to the pointer that
  points to the instance, which is the \<open>data\<close> field of a list or the \<open>next\<close> field of
  another instance (type \<open>slot\<close>).  Instances and owners are named by numbers.

  All operations run with the mutex of the lock held, except that \<open>wait_for_lock\<close> releases it
  while it waits.  It is therefore split: \<open>wait_enter\<close> is the part before, \<open>wait_leave\<close> the
  part after the loop around \<open>pthread_cond_wait\<close>, and \<open>wait_ends\<close> the condition on which the loop
  ends.  The functions of the storage engine (\<open>get_status\<close>, ...) are parameters; that they
  are called is recorded in \<open>events\<close>, as are signals and the statistics counters.  Calling a null
  function pointer, signalling a null condition and an endless list have the result \<open>None\<close>.
\<close>

section \<open>Types\<close>

datatype thr_lock_type =
  TL_IGNORE | TL_UNLOCK | TL_READ | TL_READ_WITH_SHARED_LOCKS | TL_READ_HIGH_PRIORITY | TL_READ_NO_INSERT |
  TL_WRITE_ALLOW_WRITE | TL_WRITE_ALLOW_READ | TL_WRITE_CONCURRENT_INSERT | TL_WRITE_DELAYED |
  TL_WRITE_LOW_PRIORITY | TL_WRITE | TL_WRITE_ONLY

primrec type_nr :: "thr_lock_type \<Rightarrow> int" where
  "type_nr TL_IGNORE = - 1"
| "type_nr TL_UNLOCK = 0"
| "type_nr TL_READ = 1"
| "type_nr TL_READ_WITH_SHARED_LOCKS = 2"
| "type_nr TL_READ_HIGH_PRIORITY = 3"
| "type_nr TL_READ_NO_INSERT = 4"
| "type_nr TL_WRITE_ALLOW_WRITE = 5"
| "type_nr TL_WRITE_ALLOW_READ = 6"
| "type_nr TL_WRITE_CONCURRENT_INSERT = 7"
| "type_nr TL_WRITE_DELAYED = 8"
| "type_nr TL_WRITE_LOW_PRIORITY = 9"
| "type_nr TL_WRITE = 10"
| "type_nr TL_WRITE_ONLY = 11"

text \<open>Comparison of lock types is comparison of the numbers of the enumeration.\<close>

instantiation thr_lock_type :: linorder
begin

definition less_eq_thr_lock_type :: "thr_lock_type \<Rightarrow> thr_lock_type \<Rightarrow> bool" where
  "less_eq_thr_lock_type a b \<longleftrightarrow> type_nr a \<le> type_nr b"

definition less_thr_lock_type :: "thr_lock_type \<Rightarrow> thr_lock_type \<Rightarrow> bool" where
  "less_thr_lock_type a b \<longleftrightarrow> type_nr a < type_nr b"

instance
proof
  fix a b :: thr_lock_type
  show "a \<le> b \<Longrightarrow> b \<le> a \<Longrightarrow> a = b" by (cases a; cases b) (simp_all add: less_eq_thr_lock_type_def)
qed (auto simp: less_eq_thr_lock_type_def less_thr_lock_type_def)

end

lemmas type_order = less_eq_thr_lock_type_def less_thr_lock_type_def

datatype enum_thr_lock_result = THR_LOCK_SUCCESS | THR_LOCK_ABORTED | THR_LOCK_WAIT_TIMEOUT | THR_LOCK_DEADLOCK

datatype lname = Read_wait | Read | Write_wait | Write

datatype slot = Data_of lname | Next_of nat

record THR_LOCK_DATA =
  owner :: nat
  nxt :: "nat option"
  prv :: slot
  cond :: "nat option"
  lock_type :: thr_lock_type
  status_param :: nat

record st_lock_list =
  dat :: "nat option"
  lst :: slot

datatype event = Signal nat | Get_status nat bool | Update_status nat | Copy_status nat nat | Locks_immediate | Locks_waited

record THR_LOCK =
  lists :: "lname \<Rightarrow> st_lock_list"
  mem :: "nat \<Rightarrow> THR_LOCK_DATA"
  write_lock_count :: nat
  read_no_write_count :: nat
  events :: "event list"

text \<open>The environment: the functions of the storage engine (for those that return nothing, whether
  the pointer is set), the global variables and the thread (\<open>info\<close>) of each owner.\<close>

record thr_env =
  get_status :: bool
  update_status :: bool
  copy_status :: bool
  check_status :: "(nat \<Rightarrow> bool) option"
  max_write_lock_count :: nat
  thr_upgraded_concurrent_insert_lock :: thr_lock_type
  owner_info :: "nat \<Rightarrow> nat"

abbreviation ULONG_RANGE :: nat where "ULONG_RANGE \<equiv> 18446744073709551616"

section \<open>Links\<close>

definition deref :: "THR_LOCK \<Rightarrow> slot \<Rightarrow> nat option" where
  "deref lk s = (case s of Data_of L \<Rightarrow> dat (lists lk L) | Next_of d \<Rightarrow> nxt (mem lk d))"

definition upd :: "nat \<Rightarrow> (THR_LOCK_DATA \<Rightarrow> THR_LOCK_DATA) \<Rightarrow> THR_LOCK \<Rightarrow> THR_LOCK" where
  "upd d f lk = lk\<lparr>mem := (mem lk)(d := f (mem lk d))\<rparr>"

definition upd_list :: "lname \<Rightarrow> (st_lock_list \<Rightarrow> st_lock_list) \<Rightarrow> THR_LOCK \<Rightarrow> THR_LOCK" where
  "upd_list L f lk = lk\<lparr>lists := (lists lk)(L := f (lists lk L))\<rparr>"

definition assign :: "slot \<Rightarrow> nat option \<Rightarrow> THR_LOCK \<Rightarrow> THR_LOCK" where
  "assign s v lk = (case s of
     Data_of L \<Rightarrow> upd_list L (\<lambda>l. l\<lparr>dat := v\<rparr>) lk
   | Next_of d \<Rightarrow> upd d (\<lambda>x. x\<lparr>nxt := v\<rparr>) lk)"

definition set_prev :: "nat \<Rightarrow> slot \<Rightarrow> THR_LOCK \<Rightarrow> THR_LOCK" where
  "set_prev d s = upd d (\<lambda>x. x\<lparr>prv := s\<rparr>)"

definition set_last :: "lname \<Rightarrow> slot \<Rightarrow> THR_LOCK \<Rightarrow> THR_LOCK" where
  "set_last L s = upd_list L (\<lambda>l. l\<lparr>lst := s\<rparr>)"

text \<open>The three idioms on lists that the code repeats: append, remove and put first.\<close>

definition append_lock :: "lname \<Rightarrow> nat \<Rightarrow> THR_LOCK \<Rightarrow> THR_LOCK" where
  "append_lock L d lk =
     (let l = lst (lists lk L)
      in set_last L (Next_of d) (set_prev d l (assign l (Some d) lk)))"

definition remove_lock :: "lname \<Rightarrow> nat \<Rightarrow> THR_LOCK \<Rightarrow> THR_LOCK" where
  "remove_lock L d lk =
     (let p = prv (mem lk d); lk = assign p (nxt (mem lk d)) lk
      in case nxt (mem lk d) of Some n \<Rightarrow> set_prev n p lk | None \<Rightarrow> set_last L p lk)"

definition push_lock :: "lname \<Rightarrow> nat \<Rightarrow> THR_LOCK \<Rightarrow> THR_LOCK" where
  "push_lock L d lk =
     (let h = dat (lists lk L); lk = assign (Next_of d) h lk;
          lk = (case h of Some n \<Rightarrow> set_prev n (Next_of d) lk | None \<Rightarrow> set_last L (Next_of d) lk);
          lk = set_prev d (Data_of L) lk
      in assign (Data_of L) (Some d) lk)"

text \<open>Access to the first instance of a list, and to the fields of an instance.\<close>

definition first :: "THR_LOCK \<Rightarrow> lname \<Rightarrow> nat option" where
  "first lk L = dat (lists lk L)"

definition type_of :: "THR_LOCK \<Rightarrow> nat \<Rightarrow> thr_lock_type" where
  "type_of lk d = lock_type (mem lk d)"

definition owner_of :: "THR_LOCK \<Rightarrow> nat \<Rightarrow> nat" where
  "owner_of lk d = owner (mem lk d)"

definition cond_of :: "THR_LOCK \<Rightarrow> nat \<Rightarrow> nat option" where
  "cond_of lk d = cond (mem lk d)"

definition set_type :: "nat \<Rightarrow> thr_lock_type \<Rightarrow> THR_LOCK \<Rightarrow> THR_LOCK" where
  "set_type d t = upd d (\<lambda>x. x\<lparr>lock_type := t\<rparr>)"

definition set_cond :: "nat \<Rightarrow> nat option \<Rightarrow> THR_LOCK \<Rightarrow> THR_LOCK" where
  "set_cond d c = upd d (\<lambda>x. x\<lparr>cond := c\<rparr>)"

definition emit :: "event \<Rightarrow> THR_LOCK \<Rightarrow> THR_LOCK" where
  "emit e lk = lk\<lparr>events := events lk @ [e]\<rparr>"

definition call_get_status :: "thr_env \<Rightarrow> nat \<Rightarrow> bool \<Rightarrow> THR_LOCK \<Rightarrow> THR_LOCK" where
  "call_get_status env d ci lk = (if get_status env then emit (Get_status (status_param (mem lk d)) ci) lk else lk)"

definition call_update_status :: "thr_env \<Rightarrow> nat \<Rightarrow> THR_LOCK \<Rightarrow> THR_LOCK" where
  "call_update_status env d lk = (if update_status env then emit (Update_status (status_param (mem lk d))) lk else lk)"

definition call_check_status :: "thr_env \<Rightarrow> nat \<Rightarrow> THR_LOCK \<Rightarrow> bool option" where
  "call_check_status env d lk = (case check_status env of None \<Rightarrow> None | Some f \<Rightarrow> Some (f (status_param (mem lk d))))"

text \<open>Marks a waiting instance free and signals its thread.\<close>

definition wake :: "nat \<Rightarrow> THR_LOCK \<Rightarrow> THR_LOCK option" where
  "wake d lk = (case cond_of lk d of None \<Rightarrow> None | Some c \<Rightarrow> Some (emit (Signal c) (set_cond d None lk)))"

definition count_no_insert :: "thr_lock_type \<Rightarrow> THR_LOCK \<Rightarrow> THR_LOCK" where
  "count_no_insert t lk =
     (if t = TL_READ_NO_INSERT then lk\<lparr>read_no_write_count := u32_add (read_no_write_count lk) 1\<rparr> else lk)"

section \<open>Initialisation\<close>

text \<open>The memory of the instances is whatever it was (\<open>m\<close>).\<close>

definition thr_lock_init :: "(nat \<Rightarrow> THR_LOCK_DATA) \<Rightarrow> THR_LOCK" where
  "thr_lock_init m =
     \<lparr>lists = (\<lambda>L. \<lparr>dat = None, lst = Data_of L\<rparr>), mem = m, write_lock_count = 0, read_no_write_count = 0, events = []\<rparr>"

definition thr_lock_data_init :: "nat \<Rightarrow> nat \<Rightarrow> THR_LOCK \<Rightarrow> THR_LOCK" where
  "thr_lock_data_init d param =
     upd d (\<lambda>x. x\<lparr>lock_type := TL_UNLOCK, owner := 0, status_param := param, cond := None\<rparr>)"

section \<open>Searching\<close>

partial_function (option) have_old_read_lock :: "THR_LOCK \<Rightarrow> nat option \<Rightarrow> nat \<Rightarrow> bool option" where
  "have_old_read_lock lk data o' = (case data of
     None \<Rightarrow> Some False
   | Some d \<Rightarrow> if owner_of lk d = o' then Some True else have_old_read_lock lk (nxt (mem lk d)) o')"

partial_function (option) have_specific_lock :: "THR_LOCK \<Rightarrow> nat option \<Rightarrow> thr_lock_type \<Rightarrow> bool option" where
  "have_specific_lock lk data t = (case data of
     None \<Rightarrow> Some False
   | Some d \<Rightarrow> if type_of lk d = t then Some True else have_specific_lock lk (nxt (mem lk d)) t)"

section \<open>Waiting\<close>

definition wait_enter :: "lname \<Rightarrow> nat \<Rightarrow> bool \<Rightarrow> nat \<Rightarrow> THR_LOCK \<Rightarrow> THR_LOCK" where
  "wait_enter L cv in_wait_list d lk = set_cond d (Some cv) (if in_wait_list then lk else append_lock L d lk)"

text \<open>The loop can be left before a wait (the thread is aborted) or after one (the condition is
  reset or, if the connection has cursors, the time is over).\<close>

definition wait_ends :: "bool \<Rightarrow> bool \<Rightarrow> bool \<Rightarrow> bool \<Rightarrow> nat option \<Rightarrow> bool" where
  "wait_ends in_wait_list can_deadlock abort timed_out c \<longleftrightarrow>
     abort \<and> \<not> in_wait_list \<and> \<not> timed_out \<or> c = None \<or> can_deadlock \<and> timed_out"

definition wait_leave :: "thr_env \<Rightarrow> lname \<Rightarrow> bool \<Rightarrow> nat \<Rightarrow> THR_LOCK \<Rightarrow> enum_thr_lock_result \<times> THR_LOCK" where
  "wait_leave env L timed_out d lk =
     (if cond_of lk d \<noteq> None \<or> type_of lk d = TL_UNLOCK
      then if cond_of lk d \<noteq> None
           then (if timed_out then THR_LOCK_WAIT_TIMEOUT else THR_LOCK_ABORTED, set_type d TL_UNLOCK (remove_lock L d lk))
           else (THR_LOCK_ABORTED, lk)
      else (THR_LOCK_SUCCESS, call_get_status env d False (emit Locks_waited lk)))"

section \<open>Locking\<close>

text \<open>A request is finished with a result, or has to wait in a queue.\<close>

datatype outcome = Finish enum_thr_lock_result | Queue lname

definition grant_read :: "thr_env \<Rightarrow> nat \<Rightarrow> thr_lock_type \<Rightarrow> THR_LOCK \<Rightarrow> THR_LOCK" where
  "grant_read env d t lk =
     emit Locks_immediate (call_get_status env d False (count_no_insert t (append_lock Read d lk)))"

definition read_request :: "thr_env \<Rightarrow> nat \<Rightarrow> nat \<Rightarrow> thr_lock_type \<Rightarrow> THR_LOCK \<Rightarrow> (outcome \<times> THR_LOCK) option" where
  "read_request env d o' t lk = (case first lk Write of
     Some w \<Rightarrow>
       if o' = owner_of lk w \<or>
          type_of lk w \<le> TL_WRITE_DELAYED \<and>
          (t \<le> TL_READ_HIGH_PRIORITY \<or>
           type_of lk w \<noteq> TL_WRITE_CONCURRENT_INSERT \<and> type_of lk w \<noteq> TL_WRITE_ALLOW_READ)
       then Some (Finish THR_LOCK_SUCCESS, grant_read env d t lk)
       else if type_of lk w = TL_WRITE_ONLY
       then Some (Finish THR_LOCK_ABORTED, set_type d TL_UNLOCK lk)
       else Some (Queue Read_wait, lk)
   | None \<Rightarrow> do {
       ok \<leftarrow> (case first lk Write_wait of
                None \<Rightarrow> Some True
              | Some ww \<Rightarrow>
                  if type_of lk ww \<le> TL_WRITE_LOW_PRIORITY \<or> t = TL_READ_HIGH_PRIORITY then Some True
                  else have_old_read_lock lk (first lk Read) o');
       Some (if ok then (Finish THR_LOCK_SUCCESS, grant_read env d t lk) else (Queue Read_wait, lk))
     })"

definition grant_write :: "thr_env \<Rightarrow> nat \<Rightarrow> bool \<Rightarrow> THR_LOCK \<Rightarrow> THR_LOCK" where
  "grant_write env d ci lk = emit Locks_immediate (call_get_status env d ci (append_lock Write d lk))"

text \<open>The request for a delayed lock that goes to the queue and returns at once.\<close>

definition delayed_queued :: "thr_lock_type \<Rightarrow> THR_LOCK \<Rightarrow> bool option" where
  "delayed_queued t lk =
     (if t = TL_WRITE_DELAYED \<and>
         (case first lk Write of None \<Rightarrow> True | Some w \<Rightarrow> type_of lk w \<noteq> TL_WRITE_ALLOW_READ)
      then do {
        b \<leftarrow> have_specific_lock lk (first lk Write_wait) TL_WRITE_ALLOW_READ;
        Some (\<not> b \<and> (first lk Write \<noteq> None \<or> first lk Read \<noteq> None))
      }
      else Some False)"

text \<open>The request when no write lock is active.\<close>

definition write_free :: "thr_env \<Rightarrow> nat \<Rightarrow> thr_lock_type \<Rightarrow> THR_LOCK \<Rightarrow> (outcome \<times> THR_LOCK) option" where
  "write_free env d t lk =
     (if first lk Write_wait \<noteq> None then Some (Queue Write_wait, lk)
      else do {
        (t, ci, lk) \<leftarrow> (if t = TL_WRITE_CONCURRENT_INSERT then do {
            b \<leftarrow> call_check_status env d lk;
            let u = thr_upgraded_concurrent_insert_lock env;
            Some (if b then (u, False, set_type d u lk) else (t, True, lk))
          } else Some (t, False, lk));
        Some (if first lk Read = None \<or>
                 t \<le> TL_WRITE_DELAYED \<and>
                 (t \<noteq> TL_WRITE_CONCURRENT_INSERT \<and> t \<noteq> TL_WRITE_ALLOW_WRITE \<or> read_no_write_count lk = 0)
              then (Finish THR_LOCK_SUCCESS, grant_write env d ci lk)
              else (Queue Write_wait, lk))
      })"

text \<open>The decision on a request for a write lock.\<close>

definition write_decide ::
  "thr_env \<Rightarrow> nat \<Rightarrow> nat \<Rightarrow> thr_lock_type \<Rightarrow> THR_LOCK \<Rightarrow> (outcome \<times> THR_LOCK) option" where
  "write_decide env d o' t lk = (case first lk Write of
     Some w \<Rightarrow>
       if type_of lk w = TL_WRITE_ONLY then Some (Finish THR_LOCK_ABORTED, set_type d TL_UNLOCK lk)
       else if o' = owner_of lk w \<or>
               t = TL_WRITE_ALLOW_WRITE \<and> first lk Write_wait = None \<and> type_of lk w = TL_WRITE_ALLOW_WRITE
       then Some (Finish THR_LOCK_SUCCESS, grant_write env d False lk)
       else Some (Queue Write_wait, lk)
   | None \<Rightarrow> write_free env d t lk)"

definition write_request ::
  "thr_env \<Rightarrow> nat \<Rightarrow> nat \<Rightarrow> nat \<Rightarrow> thr_lock_type \<Rightarrow> THR_LOCK \<Rightarrow> (outcome \<times> THR_LOCK) option" where
  "write_request env cv d o' t lk =
     (if t = TL_WRITE_DELAYED \<and> (case first lk Write of None \<Rightarrow> False | Some w \<Rightarrow> type_of lk w = TL_WRITE_ONLY)
      then Some (Finish THR_LOCK_ABORTED, set_type d TL_UNLOCK lk)
      else do {
        queued \<leftarrow> delayed_queued t lk;
        if queued
        then Some (Finish THR_LOCK_SUCCESS, emit Locks_immediate (set_cond d (Some cv) (append_lock Write_wait d lk)))
        else if t = TL_WRITE_CONCURRENT_INSERT \<and> check_status env = None
        then let t = thr_upgraded_concurrent_insert_lock env in write_decide env d o' t (set_type d t lk)
        else write_decide env d o' t lk
      })"

text \<open>A deadlock is reported when the first active lock belongs to the same thread.\<close>

definition own_deadlock :: "thr_env \<Rightarrow> nat \<Rightarrow> THR_LOCK \<Rightarrow> bool" where
  "own_deadlock env o' lk =
     (case (case first lk Read of Some x \<Rightarrow> Some x | None \<Rightarrow> first lk Write) of
        Some x \<Rightarrow> owner_info env (owner_of lk x) = owner_info env o'
      | None \<Rightarrow> False)"

text \<open>The whole of \<open>thr_lock\<close> up to its return or to the wait: \<open>Queue\<close> says that the thread now waits in
  \<open>wait_for_lock\<close>.  \<open>cv\<close> is the condition variable of the calling thread.\<close>

definition thr_lock ::
  "thr_env \<Rightarrow> nat \<Rightarrow> nat \<Rightarrow> nat \<Rightarrow> thr_lock_type \<Rightarrow> THR_LOCK \<Rightarrow> (outcome \<times> THR_LOCK) option" where
  "thr_lock env cv d o' t lk = do {
     let lk = upd d (\<lambda>x. x\<lparr>nxt := None, cond := None, lock_type := t, owner := o'\<rparr>) lk;
     (r, lk) \<leftarrow> (if t \<le> TL_READ_NO_INSERT then read_request env d o' t lk else write_request env cv d o' t lk);
     case r of
       Finish res \<Rightarrow> Some (Finish res, lk)
     | Queue L \<Rightarrow>
         if own_deadlock env o' lk then Some (Finish THR_LOCK_DEADLOCK, lk)
         else Some (Queue L, wait_enter L cv False d lk)
   }"

section \<open>Unlocking\<close>

partial_function (option) free_read_loop :: "bool \<Rightarrow> nat \<Rightarrow> THR_LOCK \<Rightarrow> THR_LOCK option" where
  "free_read_loop ci d lk = do {
     lk \<leftarrow> (if type_of lk d = TL_READ_NO_INSERT \<and> ci
            then Some (append_lock Read_wait d (remove_lock Read d lk))
            else wake d (count_no_insert (type_of lk d) lk));
     case nxt (mem lk d) of None \<Rightarrow> Some lk | Some n \<Rightarrow> free_read_loop ci n lk
   }"

definition free_all_read_locks :: "bool \<Rightarrow> THR_LOCK \<Rightarrow> THR_LOCK option" where
  "free_all_read_locks ci lk = do {
     d \<leftarrow> first lk Read_wait;
     let l = lst (lists lk Read);
     let lk = set_prev d l (assign l (Some d) lk);
     let lk = set_last Read (lst (lists lk Read_wait)) lk;
     let lk = set_last Read_wait (Data_of Read_wait) lk;
     lk \<leftarrow> free_read_loop ci d lk;
     let lk = assign (lst (lists lk Read_wait)) None lk;
     Some (if first lk Read_wait = None then lk\<lparr>write_lock_count := 0\<rparr> else lk)
   }"

text \<open>Moves the first waiting write lock to the active ones.\<close>

definition move_write :: "nat \<Rightarrow> THR_LOCK \<Rightarrow> THR_LOCK" where
  "move_write d lk =
     (let lk = remove_lock Write_wait d lk; l = lst (lists lk Write);
          lk = set_prev d l (assign l (Some d) lk); lk = assign (Next_of d) None lk
      in set_last Write (Next_of d) lk)"

text \<open>The endless loop of \<open>thr_unlock\<close>: the result has the last instance that got the lock.\<close>

partial_function (option) give_write_loop :: "thr_env \<Rightarrow> nat \<Rightarrow> THR_LOCK \<Rightarrow> (nat \<times> THR_LOCK) option" where
  "give_write_loop env d lk = do {
     let lk = move_write d lk;
     up \<leftarrow> (if type_of lk d = TL_WRITE_CONCURRENT_INSERT then call_check_status env d lk else Some False);
     lk \<leftarrow> wake d (if up then set_type d TL_WRITE lk else lk);
     case first lk Write_wait of
       None \<Rightarrow> Some (d, lk)
     | Some n \<Rightarrow>
         if type_of lk d \<noteq> TL_WRITE_ALLOW_WRITE \<or> type_of lk n \<noteq> TL_WRITE_ALLOW_WRITE then Some (d, lk)
         else give_write_loop env n lk
   }"

text \<open>The loop that starts write locks together with the active read locks.\<close>

partial_function (option) start_write_loop :: "thr_lock_type \<Rightarrow> nat \<Rightarrow> THR_LOCK \<Rightarrow> THR_LOCK option" where
  "start_write_loop t d lk = do {
     lk \<leftarrow> wake d (move_write d lk);
     case first lk Write_wait of
       None \<Rightarrow> Some lk
     | Some n \<Rightarrow>
         if t = TL_WRITE_ALLOW_WRITE \<and> type_of lk n = TL_WRITE_ALLOW_WRITE then start_write_loop t n lk else Some lk
   }"

definition free_waiting_reads :: "bool \<Rightarrow> THR_LOCK \<Rightarrow> THR_LOCK option" where
  "free_waiting_reads ci lk = (if first lk Read_wait = None then Some lk else free_all_read_locks ci lk)"

text \<open>Waiting reads stay behind when the write lock excludes them.\<close>

definition excludes_no_insert :: "thr_lock_type \<Rightarrow> bool" where
  "excludes_no_insert t \<longleftrightarrow> t = TL_WRITE_CONCURRENT_INSERT \<or> t = TL_WRITE_ALLOW_WRITE"

text \<open>What \<open>thr_unlock\<close> does when no lock at all is active.\<close>

definition schedule_idle :: "thr_env \<Rightarrow> THR_LOCK \<Rightarrow> THR_LOCK option" where
  "schedule_idle env lk = (case first lk Write_wait of
     None \<Rightarrow> free_waiting_reads False lk
   | Some d \<Rightarrow>
       if type_of lk d \<noteq> TL_WRITE_LOW_PRIORITY \<or>
          (case first lk Read_wait of None \<Rightarrow> True | Some r \<Rightarrow> type_of lk r < TL_READ_HIGH_PRIORITY)
       then
         let many = (max_write_lock_count env < write_lock_count lk);
             lk = lk\<lparr>write_lock_count := (write_lock_count lk + 1) mod ULONG_RANGE\<rparr>;
             lk = (if many then lk\<lparr>write_lock_count := 0\<rparr> else lk)
         in if many \<and> first lk Read_wait \<noteq> None then free_all_read_locks False lk
            else do {
              (d, lk) \<leftarrow> give_write_loop env d lk;
              if type_of lk d \<ge> TL_WRITE_LOW_PRIORITY then Some lk
              else free_waiting_reads (excludes_no_insert (type_of lk d)) lk
            }
       else free_waiting_reads (excludes_no_insert (type_of lk d)) lk)"

text \<open>What it does when read locks are active but no write lock.\<close>

definition schedule_reading :: "thr_env \<Rightarrow> THR_LOCK \<Rightarrow> THR_LOCK option" where
  "schedule_reading env lk = (case first lk Write_wait of
     None \<Rightarrow> free_waiting_reads False lk
   | Some d \<Rightarrow>
       let t = type_of lk d
       in if t \<le> TL_WRITE_DELAYED \<and> (\<not> excludes_no_insert t \<or> read_no_write_count lk = 0)
       then do {
         up \<leftarrow> (if t = TL_WRITE_CONCURRENT_INSERT then call_check_status env d lk else Some False);
         if up then free_waiting_reads False (set_type d TL_WRITE lk)
         else do {
           lk \<leftarrow> start_write_loop t d lk;
           free_waiting_reads (excludes_no_insert t) lk
         }
       }
       else Some lk)"

text \<open>The list whose last element is removed, by the type and the condition of the instance.\<close>

definition unlock_list :: "THR_LOCK \<Rightarrow> nat \<Rightarrow> lname" where
  "unlock_list lk d =
     (if type_of lk d \<le> TL_READ_NO_INSERT then Read
      else if type_of lk d = TL_WRITE_DELAYED \<and> cond_of lk d \<noteq> None then Write_wait else Write)"

definition thr_unlock :: "thr_env \<Rightarrow> nat \<Rightarrow> THR_LOCK \<Rightarrow> THR_LOCK option" where
  "thr_unlock env d lk =
     (let t = type_of lk d;
          lk = remove_lock (unlock_list lk d) d lk;
          lk = (if t \<ge> TL_WRITE_CONCURRENT_INSERT then call_update_status env d lk else lk);
          lk = (if t = TL_READ_NO_INSERT then lk\<lparr>read_no_write_count := u32_sub (read_no_write_count lk) 1\<rparr> else lk);
          lk = set_type d TL_UNLOCK lk
      in if first lk Write \<noteq> None then Some lk
         else if first lk Read = None then schedule_idle env lk
         else schedule_reading env lk)"

section \<open>Aborting and rescheduling\<close>

partial_function (option) abort_loop :: "nat option \<Rightarrow> THR_LOCK \<Rightarrow> THR_LOCK option" where
  "abort_loop data lk = (case data of
     None \<Rightarrow> Some lk
   | Some d \<Rightarrow> do {
       lk \<leftarrow> wake d (set_type d TL_UNLOCK lk);
       abort_loop (nxt (mem lk d)) lk
     })"

definition thr_abort_locks :: "THR_LOCK \<Rightarrow> THR_LOCK option" where
  "thr_abort_locks lk = do {
     lk \<leftarrow> abort_loop (first lk Read_wait) lk;
     lk \<leftarrow> abort_loop (first lk Write_wait) lk;
     let lk = set_last Write_wait (Data_of Write_wait) (set_last Read_wait (Data_of Read_wait) lk);
     let lk = assign (Data_of Read_wait) None (assign (Data_of Write_wait) None lk);
     Some (case first lk Write of None \<Rightarrow> lk | Some w \<Rightarrow> set_type w TL_WRITE_ONLY lk)
   }"

partial_function (option) abort_thread_loop ::
  "thr_env \<Rightarrow> nat \<Rightarrow> lname \<Rightarrow> nat option \<Rightarrow> bool \<Rightarrow> THR_LOCK \<Rightarrow> (bool \<times> THR_LOCK) option" where
  "abort_thread_loop env thread L data found lk = (case data of
     None \<Rightarrow> Some (found, lk)
   | Some d \<Rightarrow>
       if owner_info env (owner_of lk d) = thread then do {
         lk \<leftarrow> wake d (set_type d TL_UNLOCK lk);
         let lk = remove_lock L d lk;
         abort_thread_loop env thread L (nxt (mem lk d)) True lk
       }
       else abort_thread_loop env thread L (nxt (mem lk d)) found lk)"

definition thr_abort_locks_for_thread :: "thr_env \<Rightarrow> nat \<Rightarrow> THR_LOCK \<Rightarrow> (bool \<times> THR_LOCK) option" where
  "thr_abort_locks_for_thread env thread lk = do {
     (found, lk) \<leftarrow> abort_thread_loop env thread Read_wait (first lk Read_wait) False lk;
     abort_thread_loop env thread Write_wait (first lk Write_wait) found lk
   }"

text \<open>\<open>Inl\<close> is a return with the result, \<open>Inr\<close> says that the thread now waits in \<open>wait_for_lock\<close> (with
  the instance already in the queue).\<close>

definition thr_upgrade_write_delay_lock :: "thr_env \<Rightarrow> nat \<Rightarrow> nat \<Rightarrow> THR_LOCK \<Rightarrow> (bool + lname) \<times> THR_LOCK" where
  "thr_upgrade_write_delay_lock env cv d lk =
     (if type_of lk d = TL_UNLOCK \<or> type_of lk d \<ge> TL_WRITE_LOW_PRIORITY then (Inl (type_of lk d = TL_UNLOCK), lk)
      else
        let lk = set_type d TL_WRITE lk
        in if cond_of lk d = None then
             if first lk Read = None then (Inl False, call_get_status env d False lk)
             else (Inr Write_wait, wait_enter Write_wait cv True d (push_lock Write_wait d (remove_lock Write d lk)))
           else (Inr Write_wait, wait_enter Write_wait cv True d lk))"

text \<open>The part of \<open>thr_reschedule_write_lock\<close> before its call of \<open>thr_upgrade_write_delay_lock\<close>, for which the
  mutex is taken anew; the boolean says whether that call is made.\<close>

definition thr_reschedule_write_lock :: "thr_env \<Rightarrow> nat \<Rightarrow> nat \<Rightarrow> THR_LOCK \<Rightarrow> (bool \<times> THR_LOCK) option" where
  "thr_reschedule_write_lock env cv d lk =
     (if first lk Read_wait = None then Some (False, lk)
      else do {
        let lk = call_update_status env d (set_type d TL_WRITE_DELAYED lk);
        let lk = set_cond d (Some cv) (push_lock Write_wait d (remove_lock Write d lk));
        lk \<leftarrow> free_all_read_locks False lk;
        Some (True, lk)
      })"

end
