(* ===== verification/Thr_Lock_Links.thy ===== *)
theory Thr_Lock_Links
  imports Thr_Lock
begin

text \<open>
  The doubly linked lists of \<open>Thr_Lock\<close> as lists of instances.

  \<open>linked\<close> says that the links of the four lists represent four lists without common elements.
  It is stated on functions (what a slot points to, the slot that points to an instance, the
  last slot of a list), so that the assignments of the code are updates of these functions.  In
  the lists of the set \<open>O\<close> the last slot need not be null: this is so in the middle of
  \<open>free_all_read_locks\<close>.
\<close>

section \<open>Chains of slots\<close>

fun chain :: "(slot \<Rightarrow> nat option) \<Rightarrow> (nat \<Rightarrow> slot) \<Rightarrow> slot \<Rightarrow> nat list \<Rightarrow> slot \<Rightarrow> bool" where
  "chain D P s [] e \<longleftrightarrow> e = s"
| "chain D P s (x # xs) e \<longleftrightarrow> D s = Some x \<and> P x = s \<and> chain D P (Next_of x) xs e"

lemma chain_append [simp]: "chain D P s (xs @ ys) e \<longleftrightarrow> (\<exists>m. chain D P s xs m \<and> chain D P m ys e)"
  by (induction xs arbitrary: s) auto

lemma chain_end: "chain D P s xs e \<Longrightarrow> e = (if xs = [] then s else Next_of (last xs))"
  by (induction xs arbitrary: s) auto

lemma chain_upd_D:
  "(z = s \<Longrightarrow> xs = []) \<Longrightarrow> (\<And>y. z = Next_of y \<Longrightarrow> y \<notin> set (butlast xs)) \<Longrightarrow>
   chain (D(z := v)) P s xs e = chain D P s xs e"
proof (induction xs arbitrary: s)
  case (Cons x xs)
  show ?case using Cons.IH [of "Next_of x"] Cons.prems by (cases xs) auto
qed simp

lemma chain_upd_end:
  assumes "chain D P s xs e" "distinct xs" "\<And>y. s = Next_of y \<Longrightarrow> y \<notin> set xs"
  shows "chain (D(e := v)) P s xs e"
proof (subst chain_upd_D)
  have e: "e = (if xs = [] then s else Next_of (last xs))" by (rule chain_end [OF assms(1)])
  show "e = s \<Longrightarrow> xs = []" using e assms(3) by (auto split: if_splits)
  fix y assume "e = Next_of y"
  then have "xs = butlast xs @ [y] \<or> xs = []" using e by (auto split: if_splits)
  then show "y \<notin> set (butlast xs)" using assms(2) by (metis butlast.simps(1) disjoint_insert(1) distinct_append list.simps(15) empty_iff empty_set)
qed (rule assms(1))

lemma chain_upd_P: "y \<notin> set xs \<Longrightarrow> chain D (P(y := v)) s xs e = chain D P s xs e"
  by (induction xs arbitrary: s) auto

definition linked ::
  "lname set \<Rightarrow> (slot \<Rightarrow> nat option) \<Rightarrow> (nat \<Rightarrow> slot) \<Rightarrow> (lname \<Rightarrow> slot) \<Rightarrow> (lname \<Rightarrow> nat list) \<Rightarrow> bool" where
  "linked O' D P E qs \<longleftrightarrow>
     (\<forall>L. chain D P (Data_of L) (qs L) (E L) \<and> (L \<in> O' \<or> D (E L) = None) \<and> distinct (qs L)) \<and>
     (\<forall>L L'. L \<noteq> L' \<longrightarrow> set (qs L) \<inter> set (qs L') = {})"

lemma linked_end:
  assumes "linked O' D P E qs"
  shows "E L = (if qs L = [] then Data_of L else Next_of (last (qs L)))"
  using assms unfolding linked_def by (metis chain_end)

lemma linked_head:
  assumes "linked O' D P E qs" "L \<notin> O'"
  shows "D (Data_of L) = (case qs L of [] \<Rightarrow> None | x # _ \<Rightarrow> Some x)"
  using assms unfolding linked_def by (cases "qs L") (auto dest: spec [of _ L])

lemma linked_split:
  assumes l: "linked O' D P E qs" and q: "qs L = xs @ d # ys"
  shows "P d = (if xs = [] then Data_of L else Next_of (last xs))"
    and "L \<notin> O' \<Longrightarrow> D (Next_of d) = (case ys of [] \<Rightarrow> None | y # _ \<Rightarrow> Some y)"
    and "ys = y # zs \<Longrightarrow> D (Next_of d) = Some y"
proof -
  obtain m where m: "chain D P (Data_of L) xs m" "D m = Some d" "P d = m" "chain D P (Next_of d) ys (E L)" "L \<in> O' \<or> D (E L) = None"
    using l q unfolding linked_def by (metis chain.simps(2) chain_append)
  show "P d = (if xs = [] then Data_of L else Next_of (last xs))" using m(1,3) by (auto dest: chain_end)
  show "L \<notin> O' \<Longrightarrow> D (Next_of d) = (case ys of [] \<Rightarrow> None | y # _ \<Rightarrow> Some y)" using m(4,5) by (cases ys) auto
  show "ys = y # zs \<Longrightarrow> D (Next_of d) = Some y" using m(4) by auto
qed

text \<open>An update at a slot of one list does not touch the others.\<close>

lemma linked_slot_elsewhere:
  assumes "linked O' D P E qs" "L' \<noteq> L" and z: "z = Data_of L \<or> (\<exists>y\<in>set (qs L). z = Next_of y)"
  shows "chain (D(z := v)) P (Data_of L') (qs L') (E L') \<and> (L' \<in> O' \<or> (D(z := v)) (E L') = None)"
proof -
  have d: "set (qs L) \<inter> set (qs L') = {}" and c: "chain D P (Data_of L') (qs L') (E L')" "L' \<in> O' \<or> D (E L') = None"
    using assms(1,2) unfolding linked_def by (metis, metis, metis)
  have "E L' \<noteq> z" using linked_end [OF assms(1), of L'] z d assms(2) last_in_set [of "qs L'"] by (auto split: if_splits)
  moreover have "chain (D(z := v)) P (Data_of L') (qs L') (E L')"
    by (subst chain_upd_D) (use z d assms(2) c(1) in \<open>auto dest: in_set_butlastD\<close>)
  ultimately show ?thesis using c(2) by auto
qed

lemma linked_append:
  assumes l: "linked O' D P E qs" and d: "\<And>L. d \<notin> set (qs L)" and n: "L \<in> O' \<or> D (Next_of d) = None"
  shows "linked O' (D(E L := Some d)) (P(d := E L)) (E(L := Next_of d)) (qs(L := qs L @ [d]))"
proof -
  have c: "chain D P (Data_of L) (qs L) (E L)" "distinct (qs L)" using l unfolding linked_def by metis+
  have e: "E L = (if qs L = [] then Data_of L else Next_of (last (qs L)))" by (rule linked_end [OF l])
  have "chain (D(E L := Some d)) P (Data_of L) (qs L) (E L)"
    using chain_upd_end [OF c(1) c(2)] by simp
  then have "chain (D(E L := Some d)) (P(d := E L)) (Data_of L) (qs L @ [d]) (Next_of d)" using d by (auto simp: chain_upd_P)
  moreover have "E L \<noteq> Next_of d" using e d last_in_set [of "qs L"] by (metis slot.distinct(1) slot.inject(2))
  moreover have "chain (D(E L := Some d)) (P(d := E L)) (Data_of L') (qs L') (E L') \<and> (L' \<in> O' \<or> (D(E L := Some d)) (E L') = None)" if "L' \<noteq> L" for L'
    using linked_slot_elsewhere [OF l that, of "E L"] e d by (auto simp: chain_upd_P split: if_splits)
  ultimately show ?thesis using l n d unfolding linked_def by (auto simp: Int_commute)
qed

lemma remove1_split: "distinct (xs @ d # ys) \<Longrightarrow> remove1 d (xs @ d # ys) = xs @ ys"
  by (simp add: remove1_append)

lemma linked_shrink:
  assumes l: "linked O' D P E qs" and q: "qs L = xs @ d # ys"
    and c: "chain D' P' (Data_of L) (xs @ ys) (E' L)" "L \<in> O' \<or> D' (E' L) = None"
    and o: "\<And>L'. L' \<noteq> L \<Longrightarrow> chain D' P' (Data_of L') (qs L') (E' L') \<and> (L' \<in> O' \<or> D' (E' L') = None)"
  shows "linked O' D' P' E' (qs(L := remove1 d (qs L)))"
proof -
  have ds: "distinct (qs L)" using l unfolding linked_def by blast
  have r: "remove1 d (qs L) = xs @ ys" using q ds remove1_split by metis
  have dj: "L1 \<noteq> L2 \<Longrightarrow> set (qs L1) \<inter> set (qs L2) = {}" for L1 L2 using l unfolding linked_def by blast
  have s: "set (xs @ ys) \<subseteq> set (qs L)" using q by auto
  show ?thesis unfolding linked_def
  proof (intro conjI allI impI)
    fix L1 L2 :: lname assume "L1 \<noteq> L2"
    then show "set ((qs(L := remove1 d (qs L))) L1) \<inter> set ((qs(L := remove1 d (qs L))) L2) = {}"
      using dj [of L1 L2] s unfolding r by auto
  next
    fix L'
    show "distinct ((qs(L := remove1 d (qs L))) L')" using ds l unfolding linked_def by (auto simp: distinct_remove1)
    fix L'
    show "chain D' P' (Data_of L') ((qs(L := remove1 d (qs L))) L') (E' L')" using c(1) o [of L'] r by (cases "L' = L") auto
    show "L' \<in> O' \<or> D' (E' L') = None" using c(2) o [of L'] by (cases "L' = L") auto
  qed
qed

lemma linked_remove:
  assumes l: "linked O' D P E qs" and m: "d \<in> set (qs L)" and o: "L \<notin> O'"
  shows "D (Next_of d) = Some n \<Longrightarrow> linked O' (D(P d := Some n)) (P(n := P d)) E (qs(L := remove1 d (qs L)))"
    and "D (Next_of d) = None \<Longrightarrow> linked O' (D(P d := None)) P (E(L := P d)) (qs(L := remove1 d (qs L)))"
proof -
  obtain xs ys where q: "qs L = xs @ d # ys" using m by (meson split_list)
  have ds: "distinct (xs @ d # ys)" using l q unfolding linked_def by metis
  have c: "chain D P (Data_of L) xs (P d)" "chain D P (Next_of d) ys (E L)" "D (E L) = None"
    using l q o unfolding linked_def by (metis chain.simps(2) chain_append)+
  have dn: "D (Next_of d) = (case ys of [] \<Rightarrow> None | y # _ \<Rightarrow> Some y)" using linked_split(2) [OF l q o] .
  have p: "P d = (if xs = [] then Data_of L else Next_of (last xs))" by (rule linked_split(1) [OF l q])
  have oth: "chain (D(P d := v)) P (Data_of L') (qs L') (E L') \<and> (L' \<in> O' \<or> (D(P d := v)) (E L') = None)" if "L' \<noteq> L" for L' v
    by (rule linked_slot_elsewhere [OF l that]) (use p q in auto)
  have cx: "chain (D(P d := v)) P (Data_of L) xs (P d)" for v using chain_upd_end [OF c(1)] ds by simp
  show "linked O' (D(P d := Some n)) (P(n := P d)) E (qs(L := remove1 d (qs L)))" if sn: "D (Next_of d) = Some n"
  proof -
    obtain zs where ys: "ys = n # zs" using sn dn by (cases ys) auto
    have lx: "last xs \<noteq> n" "last xs \<notin> set zs" if "xs \<noteq> []" using ds ys last_in_set [OF that] by auto
    have "chain (D(P d := Some n)) P (Next_of n) zs (E L)"
      using c(2) ys p lx by (subst chain_upd_D) (auto dest: in_set_butlastD split: if_splits)
    then have "chain (D(P d := Some n)) (P(n := P d)) (Data_of L) (xs @ ys) (E L)"
      using cx [of "Some n"] ds ys by (auto simp: chain_upd_P)
    moreover have "last xs \<noteq> last (n # zs)" if "xs \<noteq> []"
      using lx [OF that] last_in_set [of "n # zs"] by (metis list.distinct(1) set_ConsD)
    then have "(D(P d := Some n)) (E L) = None" using c(3) chain_end [OF c(2)] ys p by auto
    moreover have "n \<notin> set (qs L')" if "L' \<noteq> L" for L' using l q ys that unfolding linked_def by (metis IntI UnCI emptyE list.set_intros(1) list.set_intros(2) set_append)
    ultimately show ?thesis using oth by (intro linked_shrink [OF l q]) (auto simp: chain_upd_P)
  qed
  show "linked O' (D(P d := None)) P (E(L := P d)) (qs(L := remove1 d (qs L)))" if "D (Next_of d) = None"
  proof -
    have "ys = []" using that dn by (cases ys) auto
    then show ?thesis using oth [of _ None] cx [of None] by (intro linked_shrink [OF l q]) auto
  qed
qed

lemma linked_push:
  assumes l: "linked O' D P E qs" and d: "\<And>L. d \<notin> set (qs L)" and o: "L \<notin> O'"
  shows "qs L = n # ns \<Longrightarrow> linked O' (D(Next_of d := Some n, Data_of L := Some d)) (P(n := Next_of d, d := Data_of L)) E (qs(L := d # qs L))"
    and "qs L = [] \<Longrightarrow> linked O' (D(Next_of d := None, Data_of L := Some d)) (P(d := Data_of L)) (E(L := Next_of d)) (qs(L := d # qs L))"
proof -
  have dj: "L1 \<noteq> L2 \<Longrightarrow> set (qs L1) \<inter> set (qs L2) = {}" "distinct (qs L1)" for L1 L2 using l unfolding linked_def by blast+
  have oth: "chain (D(Next_of d := v, Data_of L := w)) P (Data_of L') (qs L') (E L') \<and> (L' \<in> O' \<or> (D(Next_of d := v, Data_of L := w)) (E L') = None)"
    if "L' \<noteq> L" for L' v w
  proof -
    have e: "E L' \<noteq> Next_of d" "E L' \<noteq> Data_of L"
      using linked_end [OF l, of L'] that d last_in_set [of "qs L'"] by (metis slot.distinct(1) slot.inject)+
    have "chain (D(Next_of d := v, Data_of L := w)) P (Data_of L') (qs L') (E L') = chain D P (Data_of L') (qs L') (E L')"
      using that d by (subst chain_upd_D, simp, simp, subst chain_upd_D) (auto dest: in_set_butlastD)
    then show ?thesis using e l unfolding linked_def by auto
  qed
  have sets: "(L1 \<noteq> L2 \<longrightarrow> set ((qs(L := d # qs L)) L1) \<inter> set ((qs(L := d # qs L)) L2) = {}) \<and> distinct ((qs(L := d # qs L)) L1)" for L1 L2
    using dj(1) [of L1 L2] dj(2) d by auto
  show "linked O' (D(Next_of d := Some n, Data_of L := Some d)) (P(n := Next_of d, d := Data_of L)) E (qs(L := d # qs L))" if n: "qs L = n # ns"
  proof -
    have c: "chain D P (Next_of n) ns (E L)" "D (E L) = None" using l n o unfolding linked_def by (metis chain.simps(2))+
    have nd: "n \<noteq> d" "n \<notin> set ns" "d \<notin> set ns" using d [of L] dj(2) [of L] n by auto
    have "chain (D(Next_of d := Some n, Data_of L := Some d)) (P(n := Next_of d, d := Data_of L)) (Next_of n) ns (E L)"
      using c(1) nd by (simp add: chain_upd_P, subst chain_upd_D, simp, simp, subst chain_upd_D) (auto dest: in_set_butlastD)
    moreover have "E L \<noteq> Next_of d" "E L \<noteq> Data_of L" using chain_end [OF c(1)] nd last_in_set [of ns] by (auto split: if_splits)
    moreover have "n \<notin> set (qs L')" if "L' \<noteq> L" for L' using dj(1) [OF that] n by auto
    ultimately show ?thesis unfolding linked_def using sets oth c(2) n nd d
      by (auto simp: chain_upd_P)
  qed
  show "linked O' (D(Next_of d := None, Data_of L := Some d)) (P(d := Data_of L)) (E(L := Next_of d)) (qs(L := d # qs L))" if n: "qs L = []"
    unfolding linked_def using sets oth n d by (auto simp: chain_upd_P)
qed

text \<open>The start of \<open>free_all_read_locks\<close> appends a whole list to another, and its end closes the list
  that was built up.\<close>

lemma linked_splice:
  assumes l: "linked {} D P E qs" and q: "qs A = d # ds" and AB: "A \<noteq> B"
  shows "linked {A} (D(E B := Some d)) (P(d := E B)) (E(B := E A, A := Data_of A)) (qs(B := qs B @ qs A, A := []))"
proof -
  have dj: "L1 \<noteq> L2 \<Longrightarrow> set (qs L1) \<inter> set (qs L2) = {}" "distinct (qs L1)" for L1 L2 using l unfolding linked_def by blast+
  have cA: "chain D P (Next_of d) ds (E A)" "D (E A) = None" using l q unfolding linked_def by (metis chain.simps(2) empty_iff)+
  have cB: "chain D P (Data_of B) (qs B) (E B)" using l unfolding linked_def by blast
  have e: "E B = (if qs B = [] then Data_of B else Next_of (last (qs B)))" by (rule linked_end [OF l])
  have dB: "d \<notin> set (qs B)" "set ds \<inter> set (qs B) = {}" "d \<notin> set ds" using dj(1) [OF AB] dj(2) [of A] q by auto
  have z: "E B = Data_of B \<or> (\<exists>y\<in>set (qs B). E B = Next_of y)" using e by auto
  have "chain (D(E B := Some d)) P (Data_of B) (qs B) (E B)"
    using chain_upd_end [OF cB dj(2)] by simp
  moreover have "chain (D(E B := Some d)) P (Next_of d) ds (E A)"
    using cA(1) z dB by (subst chain_upd_D) (auto dest: in_set_butlastD)
  ultimately have "chain (D(E B := Some d)) (P(d := E B)) (Data_of B) (qs B @ qs A) (E A)"
    using q dB by (auto simp: chain_upd_P)
  moreover have "E A \<noteq> E B" using chain_end [OF cA(1)] z dB last_in_set [of ds] by (auto simp: disjoint_iff split: if_splits)
  moreover have "chain (D(E B := Some d)) (P(d := E B)) (Data_of L') (qs L') (E L') \<and> (D(E B := Some d)) (E L') = None" if "L' \<noteq> A" "L' \<noteq> B" for L'
  proof -
    have "d \<notin> set (qs L')" using dj(1) [OF that(1)] q by auto
    then show ?thesis using linked_slot_elsewhere [OF l that(2) z] by (auto simp: chain_upd_P)
  qed
  moreover have "distinct (qs B @ qs A)" using dj AB by auto
  ultimately have "chain (D(E B := Some d)) (P(d := E B)) (Data_of L') ((qs(B := qs B @ qs A, A := [])) L') ((E(B := E A, A := Data_of A)) L') \<and>
      (L' \<in> {A} \<or> (D(E B := Some d)) ((E(B := E A, A := Data_of A)) L') = None) \<and> distinct ((qs(B := qs B @ qs A, A := [])) L')" for L'
    using cA(2) AB dj(2) by (cases "L' = A"; cases "L' = B") auto
  moreover have "set ((qs(B := qs B @ qs A, A := [])) L1) \<inter> set ((qs(B := qs B @ qs A, A := [])) L2) = {}" if "L1 \<noteq> L2" for L1 L2
    using that dj(1) [of L1 L2] dj(1) [of A L2] dj(1) [of L1 A] by auto
  ultimately show ?thesis unfolding linked_def by blast
qed

lemma linked_close:
  assumes l: "linked {A} D P E qs" and o: "\<And>L. L \<noteq> A \<Longrightarrow> D (E L) = None"
  shows "linked {} (D(E A := None)) P E qs"
proof -
  have e: "E A = (if qs A = [] then Data_of A else Next_of (last (qs A)))" by (rule linked_end [OF l])
  have c: "chain D P (Data_of A) (qs A) (E A)" "distinct (qs A)" using l unfolding linked_def by blast+
  have "chain (D(E A := None)) P (Data_of A) (qs A) (E A)"
    using chain_upd_end [OF c(1) c(2)] by simp
  moreover have "chain (D(E A := None)) P (Data_of L') (qs L') (E L') \<and> (D(E A := None)) (E L') = None" if "L' \<noteq> A" for L'
    using linked_slot_elsewhere [OF l that, of "E A" None] o [OF that] e by auto
  ultimately show ?thesis using l unfolding linked_def by (metis fun_upd_same)
qed

lemma linked_foreign:
  assumes l: "linked O' D P E qs" and d: "\<And>L. d \<notin> set (qs L)"
  shows "linked O' (D(Next_of d := v)) P E qs"
proof -
  have "chain (D(Next_of d := v)) P (Data_of L) (qs L) (E L) = chain D P (Data_of L) (qs L) (E L)" for L
    using d [of L] by (intro chain_upd_D) (auto dest: in_set_butlastD)
  moreover have "E L \<noteq> Next_of d" for L
    using linked_end [OF l, of L] d [of L] last_in_set [of "qs L"] by (metis slot.distinct(1) slot.inject(2))
  ultimately show ?thesis using l unfolding linked_def by auto
qed

end
