(* ===== verification/Thr_Lock_Queues.thy ===== *)
theory Thr_Lock_Queues
  imports Thr_Lock_Links
begin

text \<open>
  The table locks on the level of queues: the four lists are lists of instances, and every operation
  of \<open>Thr_Lock\<close> has a counterpart that does not know of links.  \<open>represents\<close> relates the two
  levels, and the lemmas \<open>..._refines\<close> show that the operations preserve it: the code on links
  implements the queues, and its loops end.
\<close>

section \<open>The abstract lock\<close>

record alock =
  q :: "lname \<Rightarrow> nat list"
  own :: "nat \<Rightarrow> nat"
  ty :: "nat \<Rightarrow> thr_lock_type"
  cnd :: "nat \<Rightarrow> nat option"
  par :: "nat \<Rightarrow> nat"
  wlc :: nat
  rnwc :: nat
  evs :: "event list"

definition a_append :: "lname \<Rightarrow> nat \<Rightarrow> alock \<Rightarrow> alock" where
  "a_append L d a = a\<lparr>q := (q a)(L := q a L @ [d])\<rparr>"

definition a_remove :: "lname \<Rightarrow> nat \<Rightarrow> alock \<Rightarrow> alock" where
  "a_remove L d a = a\<lparr>q := (q a)(L := remove1 d (q a L))\<rparr>"

definition a_push :: "lname \<Rightarrow> nat \<Rightarrow> alock \<Rightarrow> alock" where
  "a_push L d a = a\<lparr>q := (q a)(L := d # q a L)\<rparr>"

definition a_first :: "alock \<Rightarrow> lname \<Rightarrow> nat option" where
  "a_first a L = (case q a L of [] \<Rightarrow> None | x # _ \<Rightarrow> Some x)"

definition a_type :: "nat \<Rightarrow> thr_lock_type \<Rightarrow> alock \<Rightarrow> alock" where
  "a_type d t a = a\<lparr>ty := (ty a)(d := t)\<rparr>"

definition a_cond :: "nat \<Rightarrow> nat option \<Rightarrow> alock \<Rightarrow> alock" where
  "a_cond d c a = a\<lparr>cnd := (cnd a)(d := c)\<rparr>"

definition a_emit :: "event \<Rightarrow> alock \<Rightarrow> alock" where
  "a_emit e a = a\<lparr>evs := evs a @ [e]\<rparr>"

definition a_get_status :: "thr_env \<Rightarrow> nat \<Rightarrow> bool \<Rightarrow> alock \<Rightarrow> alock" where
  "a_get_status env d ci a = (if get_status env then a_emit (Get_status (par a d) ci) a else a)"

definition a_update_status :: "thr_env \<Rightarrow> nat \<Rightarrow> alock \<Rightarrow> alock" where
  "a_update_status env d a = (if update_status env then a_emit (Update_status (par a d)) a else a)"

definition a_check_status :: "thr_env \<Rightarrow> nat \<Rightarrow> alock \<Rightarrow> bool option" where
  "a_check_status env d a = (case check_status env of None \<Rightarrow> None | Some f \<Rightarrow> Some (f (par a d)))"

definition a_wake :: "nat \<Rightarrow> alock \<Rightarrow> alock option" where
  "a_wake d a = (case cnd a d of None \<Rightarrow> None | Some c \<Rightarrow> Some (a_emit (Signal c) (a_cond d None a)))"

definition a_count :: "thr_lock_type \<Rightarrow> alock \<Rightarrow> alock" where
  "a_count t a = (if t = TL_READ_NO_INSERT then a\<lparr>rnwc := u32_add (rnwc a) 1\<rparr> else a)"

lemmas a_defs = a_append_def a_remove_def a_push_def a_type_def a_cond_def a_emit_def a_get_status_def a_update_status_def a_count_def

section \<open>The relation between the levels\<close>

definition prv_of :: "THR_LOCK \<Rightarrow> nat \<Rightarrow> slot" where "prv_of lk d = prv (mem lk d)"
definition last_of :: "THR_LOCK \<Rightarrow> lname \<Rightarrow> slot" where "last_of lk L = lst (lists lk L)"
definition param_of :: "THR_LOCK \<Rightarrow> nat \<Rightarrow> nat" where "param_of lk d = status_param (mem lk d)"

text \<open>All fields but the links.\<close>

definition same_fields :: "THR_LOCK \<Rightarrow> alock \<Rightarrow> bool" where
  "same_fields lk a \<longleftrightarrow> own a = owner_of lk \<and> ty a = type_of lk \<and> cnd a = cond_of lk \<and> par a = param_of lk \<and>
     wlc a = write_lock_count lk \<and> rnwc a = read_no_write_count lk \<and> evs a = events lk"

definition represents :: "THR_LOCK \<Rightarrow> alock \<Rightarrow> bool" where
  "represents lk a \<longleftrightarrow> linked {} (deref lk) (prv_of lk) (last_of lk) (q a) \<and> same_fields lk a"

named_theorems field_simps' \<open>what an assignment does to the fields\<close>

lemma deref_upd [field_simps']:
  "deref (assign s v lk) = (deref lk)(s := v)" "deref (set_prev d s lk) = deref lk" "deref (set_last L s lk) = deref lk"
  "deref (set_type d t lk) = deref lk" "deref (set_cond d c lk) = deref lk" "deref (emit e lk) = deref lk"
  "deref (lk\<lparr>write_lock_count := n\<rparr>) = deref lk" "deref (lk\<lparr>read_no_write_count := n\<rparr>) = deref lk"
  by (auto simp: deref_def assign_def set_prev_def set_last_def set_type_def set_cond_def emit_def upd_def upd_list_def fun_eq_iff split: slot.splits)

lemma prv_of_upd [field_simps']:
  "prv_of (assign s v lk) = prv_of lk" "prv_of (set_prev d s lk) = (prv_of lk)(d := s)" "prv_of (set_last L s lk) = prv_of lk"
  "prv_of (set_type d t lk) = prv_of lk" "prv_of (set_cond d c lk) = prv_of lk" "prv_of (emit e lk) = prv_of lk"
  "prv_of (lk\<lparr>write_lock_count := n\<rparr>) = prv_of lk" "prv_of (lk\<lparr>read_no_write_count := n\<rparr>) = prv_of lk"
  by (auto simp: prv_of_def assign_def set_prev_def set_last_def set_type_def set_cond_def emit_def upd_def upd_list_def fun_eq_iff split: slot.splits)

lemma last_of_upd [field_simps']:
  "last_of (assign s v lk) = last_of lk" "last_of (set_prev d s lk) = last_of lk" "last_of (set_last L s lk) = (last_of lk)(L := s)"
  "last_of (set_type d t lk) = last_of lk" "last_of (set_cond d c lk) = last_of lk" "last_of (emit e lk) = last_of lk"
  "last_of (lk\<lparr>write_lock_count := n\<rparr>) = last_of lk" "last_of (lk\<lparr>read_no_write_count := n\<rparr>) = last_of lk"
  by (auto simp: last_of_def assign_def set_prev_def set_last_def set_type_def set_cond_def emit_def upd_def upd_list_def fun_eq_iff split: slot.splits)

lemma same_fields_upd [field_simps']:
  "same_fields (assign s v lk) a = same_fields lk a" "same_fields (set_prev d s lk) a = same_fields lk a"
  "same_fields (set_last L s lk) a = same_fields lk a" "same_fields lk (a\<lparr>q := x\<rparr>) = same_fields lk a"
  by (auto simp: same_fields_def owner_of_def type_of_def cond_of_def param_of_def
      assign_def set_prev_def set_last_def upd_def upd_list_def fun_eq_iff split: slot.splits)

lemma fields_of_links: "first lk L = deref lk (Data_of L)" "nxt (mem lk d) = deref lk (Next_of d)" "prv (mem lk d) = prv_of lk d" "lst (lists lk L) = last_of lk L"
  by (simp_all add: first_def deref_def prv_of_def last_of_def)

lemma same_fields_sets:
  assumes "same_fields lk a"
  shows "same_fields (set_type d t lk) (a_type d t a)" "same_fields (set_cond d c lk) (a_cond d c a)" "same_fields (emit e lk) (a_emit e a)"
    "same_fields (lk\<lparr>write_lock_count := n\<rparr>) (a\<lparr>wlc := n\<rparr>)" "same_fields (lk\<lparr>read_no_write_count := n\<rparr>) (a\<lparr>rnwc := n\<rparr>)"
  using assms by (auto simp: same_fields_def owner_of_def type_of_def cond_of_def param_of_def set_type_def set_cond_def
      a_type_def a_cond_def a_emit_def emit_def upd_def fun_eq_iff)

lemma q_unchanged [simp]:
  "q (a_type d t a) = q a" "q (a_cond d c a) = q a" "q (a_emit e a) = q a"
  by (simp_all add: a_defs)

text \<open>The reading operations agree.\<close>

lemma represents_first: "represents lk a \<Longrightarrow> first lk L = a_first a L"
  using linked_head [of "{}" "deref lk" "prv_of lk" "last_of lk" "q a" L]
  by (simp add: fields_of_links represents_def a_first_def)

lemma represents_fields:
  assumes "represents lk a"
  shows "owner_of lk = own a" "type_of lk = ty a" "cond_of lk = cnd a" "status_param (mem lk d) = par a d"
    "write_lock_count lk = wlc a" "read_no_write_count lk = rnwc a"
  using assms by (simp_all add: represents_def same_fields_def param_of_def)

lemmas represents_reads = represents_first represents_fields

text \<open>The simple writing operations agree.\<close>

lemma represents_sets:
  assumes "represents lk a"
  shows "represents (set_type d t lk) (a_type d t a)" "represents (set_cond d c lk) (a_cond d c a)" "represents (emit e lk) (a_emit e a)"
    "represents (lk\<lparr>write_lock_count := n\<rparr>) (a\<lparr>wlc := n\<rparr>)" "represents (lk\<lparr>read_no_write_count := n\<rparr>) (a\<lparr>rnwc := n\<rparr>)"
  using assms by (auto simp: represents_def field_simps' same_fields_sets)

lemma represents_calls:
  assumes "represents lk a"
  shows "represents (call_get_status env d ci lk) (a_get_status env d ci a)" "represents (call_update_status env d lk) (a_update_status env d a)"
    "represents (count_no_insert t lk) (a_count t a)" "call_check_status env d lk = a_check_status env d a"
  using assms represents_sets [OF assms] represents_fields(4,6) [OF assms]
  by (simp_all add: call_get_status_def a_get_status_def call_update_status_def a_update_status_def count_no_insert_def a_count_def
      call_check_status_def a_check_status_def cong: option.case_cong)

lemma represents_append:
  assumes "represents lk a" "\<And>L. d \<notin> set (q a L)" "nxt (mem lk d) = None"
  shows "represents (append_lock L d lk) (a_append L d a)"
  using assms linked_append [of "{}" "deref lk" "prv_of lk" "last_of lk" "q a" d L]
  by (simp add: represents_def append_lock_def Let_def fields_of_links field_simps' a_append_def)

lemma represents_remove:
  assumes "represents lk a" "d \<in> set (q a L)"
  shows "represents (remove_lock L d lk) (a_remove L d a)"
proof -
  note l = linked_remove [of "{}" "deref lk" "prv_of lk" "last_of lk" "q a" d L]
  have ne: "prv_of lk d \<noteq> Next_of d"
  proof -
    obtain xs ys where "q a L = xs @ d # ys" "distinct (q a L)"
      using assms by (metis split_list represents_def linked_def)
    then show ?thesis using linked_split(1) [of "{}" "deref lk" "prv_of lk" "last_of lk" "q a" L xs d ys] assms(1) last_in_set [of xs]
      by (auto simp: represents_def split: if_splits)
  qed
  show ?thesis using assms l ne
    by (cases "deref lk (Next_of d)") (auto simp: represents_def remove_lock_def Let_def fields_of_links field_simps' a_remove_def)
qed

lemma represents_push:
  assumes "represents lk a" "\<And>L. d \<notin> set (q a L)"
  shows "represents (push_lock L d lk) (a_push L d a)"
proof -
  have h: "dat (lists lk L) = a_first a L" using represents_first [OF assms(1), of L] by (simp add: first_def)
  show ?thesis
    using assms linked_push [of "{}" "deref lk" "prv_of lk" "last_of lk" "q a" d L]
    by (cases "q a L") (auto simp: represents_def push_lock_def Let_def h a_first_def fields_of_links field_simps' a_push_def)
qed

lemma represents_wake:
  assumes "represents lk a"
  shows "rel_option represents (wake d lk) (a_wake d a)"
  using represents_sets(2,3) represents_fields(3) [OF assms] assms
  by (auto simp: wake_def a_wake_def split: option.splits)

lemma nxt_unchanged [simp]:
  "nxt (mem (set_type d' t lk) d) = nxt (mem lk d)" "nxt (mem (set_cond d' c lk) d) = nxt (mem lk d)" "nxt (mem (emit e lk) d) = nxt (mem lk d)"
  "nxt (mem (count_no_insert t lk) d) = nxt (mem lk d)" "nxt (mem (call_get_status env d' ci lk) d) = nxt (mem lk d)"
  by (simp_all add: fields_of_links field_simps' count_no_insert_def call_get_status_def)

lemma rel_option_bindI:
  "rel_option A x y \<Longrightarrow> (\<And>u v. A u v \<Longrightarrow> rel_option B (f u) (g v)) \<Longrightarrow> rel_option B (Option.bind x f) (Option.bind y g)"
  by (cases x; cases y) auto

lemma rel_option_ifI:
  "(C \<Longrightarrow> rel_option A x y) \<Longrightarrow> (\<not> C \<Longrightarrow> rel_option A x' y') \<Longrightarrow> rel_option A (if C then x else x') (if C then y else y')"
  by simp

section \<open>Requests\<close>

definition a_grant_read :: "thr_env \<Rightarrow> nat \<Rightarrow> thr_lock_type \<Rightarrow> alock \<Rightarrow> alock" where
  "a_grant_read env d t a = a_emit Locks_immediate (a_get_status env d False (a_count t (a_append Read d a)))"

definition a_read_request :: "thr_env \<Rightarrow> nat \<Rightarrow> nat \<Rightarrow> thr_lock_type \<Rightarrow> alock \<Rightarrow> outcome \<times> alock" where
  "a_read_request env d o' t a = (case q a Write of
     w # _ \<Rightarrow>
       if o' = own a w \<or>
          ty a w \<le> TL_WRITE_DELAYED \<and>
          (t \<le> TL_READ_HIGH_PRIORITY \<or> ty a w \<noteq> TL_WRITE_CONCURRENT_INSERT \<and> ty a w \<noteq> TL_WRITE_ALLOW_READ)
       then (Finish THR_LOCK_SUCCESS, a_grant_read env d t a)
       else if ty a w = TL_WRITE_ONLY then (Finish THR_LOCK_ABORTED, a_type d TL_UNLOCK a)
       else (Queue Read_wait, a)
   | [] \<Rightarrow>
       if (case q a Write_wait of
             [] \<Rightarrow> True
           | ww # _ \<Rightarrow> ty a ww \<le> TL_WRITE_LOW_PRIORITY \<or> t = TL_READ_HIGH_PRIORITY \<or> o' \<in> own a ` set (q a Read))
       then (Finish THR_LOCK_SUCCESS, a_grant_read env d t a)
       else (Queue Read_wait, a))"

definition a_grant_write :: "thr_env \<Rightarrow> nat \<Rightarrow> bool \<Rightarrow> alock \<Rightarrow> alock" where
  "a_grant_write env d ci a = a_emit Locks_immediate (a_get_status env d ci (a_append Write d a))"

definition a_delayed_queued :: "thr_lock_type \<Rightarrow> alock \<Rightarrow> bool" where
  "a_delayed_queued t a \<longleftrightarrow>
     t = TL_WRITE_DELAYED \<and> (case q a Write of [] \<Rightarrow> True | w # _ \<Rightarrow> ty a w \<noteq> TL_WRITE_ALLOW_READ) \<and>
     TL_WRITE_ALLOW_READ \<notin> ty a ` set (q a Write_wait) \<and> (q a Write \<noteq> [] \<or> q a Read \<noteq> [])"

definition a_write_free :: "thr_env \<Rightarrow> nat \<Rightarrow> thr_lock_type \<Rightarrow> alock \<Rightarrow> (outcome \<times> alock) option" where
  "a_write_free env d t a =
     (if q a Write_wait \<noteq> [] then Some (Queue Write_wait, a)
      else do {
        (t, ci, a) \<leftarrow> (if t = TL_WRITE_CONCURRENT_INSERT then do {
            b \<leftarrow> a_check_status env d a;
            let u = thr_upgraded_concurrent_insert_lock env;
            Some (if b then (u, False, a_type d u a) else (t, True, a))
          } else Some (t, False, a));
        Some (if q a Read = [] \<or>
                 t \<le> TL_WRITE_DELAYED \<and> (t \<noteq> TL_WRITE_CONCURRENT_INSERT \<and> t \<noteq> TL_WRITE_ALLOW_WRITE \<or> rnwc a = 0)
              then (Finish THR_LOCK_SUCCESS, a_grant_write env d ci a)
              else (Queue Write_wait, a))
      })"

definition a_write_decide :: "thr_env \<Rightarrow> nat \<Rightarrow> nat \<Rightarrow> thr_lock_type \<Rightarrow> alock \<Rightarrow> (outcome \<times> alock) option" where
  "a_write_decide env d o' t a = (case q a Write of
     w # _ \<Rightarrow>
       if ty a w = TL_WRITE_ONLY then Some (Finish THR_LOCK_ABORTED, a_type d TL_UNLOCK a)
       else if o' = own a w \<or> t = TL_WRITE_ALLOW_WRITE \<and> q a Write_wait = [] \<and> ty a w = TL_WRITE_ALLOW_WRITE
       then Some (Finish THR_LOCK_SUCCESS, a_grant_write env d False a)
       else Some (Queue Write_wait, a)
   | [] \<Rightarrow> a_write_free env d t a)"

definition a_write_request :: "thr_env \<Rightarrow> nat \<Rightarrow> nat \<Rightarrow> nat \<Rightarrow> thr_lock_type \<Rightarrow> alock \<Rightarrow> (outcome \<times> alock) option" where
  "a_write_request env cv d o' t a =
     (if t = TL_WRITE_DELAYED \<and> (case q a Write of [] \<Rightarrow> False | w # _ \<Rightarrow> ty a w = TL_WRITE_ONLY)
      then Some (Finish THR_LOCK_ABORTED, a_type d TL_UNLOCK a)
      else if a_delayed_queued t a
      then Some (Finish THR_LOCK_SUCCESS, a_emit Locks_immediate (a_cond d (Some cv) (a_append Write_wait d a)))
      else if t = TL_WRITE_CONCURRENT_INSERT \<and> check_status env = None
      then let t = thr_upgraded_concurrent_insert_lock env in a_write_decide env d o' t (a_type d t a)
      else a_write_decide env d o' t a)"

definition a_own_deadlock :: "thr_env \<Rightarrow> nat \<Rightarrow> alock \<Rightarrow> bool" where
  "a_own_deadlock env o' a = (case q a Read @ q a Write of [] \<Rightarrow> False | x # _ \<Rightarrow> owner_info env (own a x) = owner_info env o')"

definition a_lock :: "thr_env \<Rightarrow> nat \<Rightarrow> nat \<Rightarrow> nat \<Rightarrow> thr_lock_type \<Rightarrow> alock \<Rightarrow> (outcome \<times> alock) option" where
  "a_lock env cv d o' t a = do {
     let a = a\<lparr>cnd := (cnd a)(d := None), ty := (ty a)(d := t), own := (own a)(d := o')\<rparr>;
     (r, a) \<leftarrow> (if t \<le> TL_READ_NO_INSERT then Some (a_read_request env d o' t a) else a_write_request env cv d o' t a);
     case r of
       Finish res \<Rightarrow> Some (Finish res, a)
     | Queue L \<Rightarrow>
         if a_own_deadlock env o' a then Some (Finish THR_LOCK_DEADLOCK, a)
         else Some (Queue L, a_cond d (Some cv) (a_append L d a))
   }"

text \<open>The searches find what is in the list.\<close>

lemma search_chain:
  assumes "chain D (prv_of lk) s xs e" "D = deref lk" "D e = None"
  shows "have_old_read_lock lk (D s) o' = Some (o' \<in> owner_of lk ` set xs)"
    "have_specific_lock lk (D s) t = Some (t \<in> type_of lk ` set xs)"
  using assms
proof (induction xs arbitrary: s)
  case (Cons x xs)
  { case 1 then show ?case using Cons.IH(1) [of "Next_of x"]
      by (subst have_old_read_lock.simps) (auto simp: fields_of_links)
  next
    case 2 then show ?case using Cons.IH(2) [of "Next_of x"]
      by (subst have_specific_lock.simps) (auto simp: fields_of_links) }
qed (simp_all add: have_old_read_lock.simps have_specific_lock.simps)

lemma searches:
  assumes "represents lk a"
  shows "have_old_read_lock lk (first lk L) o' = Some (o' \<in> own a ` set (q a L))"
    "have_specific_lock lk (first lk L) t = Some (t \<in> ty a ` set (q a L))"
proof -
  have "chain (deref lk) (prv_of lk) (Data_of L) (q a L) (last_of lk L)" "deref lk (last_of lk L) = None"
    using assms by (auto simp: represents_def linked_def)
  from search_chain [OF this(1) refl this(2)] show
    "have_old_read_lock lk (first lk L) o' = Some (o' \<in> own a ` set (q a L))"
    "have_specific_lock lk (first lk L) t = Some (t \<in> ty a ` set (q a L))"
    using represents_fields(1,2) [OF assms] by (simp_all add: fields_of_links)
qed

abbreviation refines :: "('r \<times> THR_LOCK) option \<Rightarrow> ('r \<times> alock) option \<Rightarrow> bool" where
  "refines \<equiv> rel_option (rel_prod (=) represents)"

lemma grants_refine:
  assumes "represents lk a" "\<And>L. d \<notin> set (q a L)" "nxt (mem lk d) = None"
  shows "represents (grant_read env d t lk) (a_grant_read env d t a)"
    "represents (grant_write env d ci lk) (a_grant_write env d ci a)"
  unfolding grant_read_def a_grant_read_def grant_write_def a_grant_write_def
  using assms by (auto intro!: represents_sets represents_calls represents_append)

lemma read_request_refines:
  assumes r: "represents lk a" and d: "\<And>L. d \<notin> set (q a L)" "nxt (mem lk d) = None"
  shows "refines (read_request env d o' t lk) (Some (a_read_request env d o' t a))"
  using grants_refine(1) [OF assms, of env t] represents_sets(1) [OF r] r
  unfolding read_request_def a_read_request_def
  unfolding searches [OF r] unfolding represents_reads [OF r]
  by (auto simp: a_first_def split: list.splits)

lemma write_free_refines:
  assumes r: "represents lk a" and d: "\<And>L. d \<notin> set (q a L)" "nxt (mem lk d) = None"
  shows "refines (write_free env d t lk) (a_write_free env d t a)"
proof -
  let ?u = "thr_upgraded_concurrent_insert_lock env"
  have r': "represents (set_type d ?u lk) (a_type d ?u a)" by (rule represents_sets [OF r])
  show ?thesis
    using grants_refine(2) [OF assms, of env] grants_refine(2) [OF r', of d env] d r r'
    by (cases "a_check_status env d a")
      (auto simp: write_free_def a_write_free_def represents_reads [OF r] represents_reads [OF r'] represents_calls(4) [OF r] a_first_def Let_def
        split: list.splits)
qed

lemma delayed_queued_eq:
  assumes r: "represents lk a"
  shows "delayed_queued t lk = Some (a_delayed_queued t a)"
  unfolding delayed_queued_def a_delayed_queued_def
  unfolding searches [OF r] unfolding represents_reads [OF r]
  by (auto simp: a_first_def split: list.splits)

lemma write_decide_refines:
  assumes r: "represents lk a" and d: "\<And>L. d \<notin> set (q a L)" "nxt (mem lk d) = None"
  shows "refines (write_decide env d o' t lk) (a_write_decide env d o' t a)"
  using write_free_refines [OF assms, of env t] grants_refine(2) [OF assms, of env False] represents_sets(1) [OF r, of d TL_UNLOCK] r
  unfolding write_decide_def a_write_decide_def represents_reads [OF r] a_first_def
  by (cases "q a Write"; cases "q a Write_wait") simp_all

lemma write_request_refines:
  assumes r: "represents lk a" and d: "\<And>L. d \<notin> set (q a L)" "nxt (mem lk d) = None"
  shows "refines (write_request env cv d o' t lk) (a_write_request env cv d o' t a)"
proof -
  let ?u = "thr_upgraded_concurrent_insert_lock env"
  have 1: "represents (emit Locks_immediate (set_cond d (Some cv) (append_lock Write_wait d lk)))
      (a_emit Locks_immediate (a_cond d (Some cv) (a_append Write_wait d a)))"
    by (intro represents_sets represents_append assms)
  have 2: "refines (write_decide env d o' ?u (set_type d ?u lk)) (a_write_decide env d o' ?u (a_type d ?u a))"
    by (rule write_decide_refines) (use d represents_sets(1) [OF r] in auto)
  have 3: "represents (set_type d TL_UNLOCK lk) (a_type d TL_UNLOCK a)" by (rule represents_sets(1) [OF r])
  have g: "(case first lk Write of None \<Rightarrow> False | Some w \<Rightarrow> type_of lk w = TL_WRITE_ONLY) =
      (case q a Write of [] \<Rightarrow> False | w # _ \<Rightarrow> ty a w = TL_WRITE_ONLY)"
    by (simp add: represents_reads [OF r] a_first_def split: list.split)
  show ?thesis
    unfolding write_request_def a_write_request_def delayed_queued_eq [OF r] Let_def bind.bind_lunit g
    using 1 2 3 write_decide_refines [OF assms, of env o' t] by simp
qed

lemma own_deadlock_eq: "represents lk a \<Longrightarrow> own_deadlock env o' lk = a_own_deadlock env o' a"
  by (auto simp: own_deadlock_def a_own_deadlock_def represents_reads a_first_def split: list.splits)

text \<open>A request that has to wait has not changed the lists.\<close>

lemma queued_decide:
  "write_decide env d o' t lk = Some (Queue L, lk') \<Longrightarrow> nxt (mem lk' d) = nxt (mem lk d)"
  by (auto simp: write_decide_def write_free_def Let_def bind_eq_Some_conv split: option.splits if_splits)

lemma queued_request:
  "read_request env d o' t lk = Some (Queue L, lk') \<Longrightarrow> nxt (mem lk' d) = nxt (mem lk d)"
  "write_request env cv d o' t lk = Some (Queue L, lk') \<Longrightarrow> nxt (mem lk' d) = nxt (mem lk d)"
  by (auto simp: read_request_def bind_eq_Some_conv split: option.splits if_splits)
    (auto simp: write_request_def Let_def bind_eq_Some_conv split: if_splits dest!: queued_decide)

lemma queued_a_decide: "a_write_decide env d o' t a = Some (Queue L, a') \<Longrightarrow> q a' = q a"
  by (auto simp: a_write_decide_def a_write_free_def Let_def bind_eq_Some_conv split: list.splits if_splits)

lemma queued_a_request:
  "a_read_request env d o' t a = (Queue L, a') \<Longrightarrow> q a' = q a"
  "a_write_request env cv d o' t a = Some (Queue L, a') \<Longrightarrow> q a' = q a"
  by (auto simp: a_read_request_def split: list.splits if_splits)
    (auto simp: a_write_request_def Let_def split: if_splits dest!: queued_a_decide)

text \<open>A request by an instance that is in no list.\<close>

lemma thr_lock_refines:
  assumes r: "represents lk a" and d: "\<And>L. d \<notin> set (q a L)"
  shows "refines (thr_lock env cv d o' t lk) (a_lock env cv d o' t a)"
proof -
  let ?lk = "upd d (\<lambda>x. x\<lparr>nxt := None, cond := None, lock_type := t, owner := o'\<rparr>) lk"
  let ?a = "a\<lparr>cnd := (cnd a)(d := None), ty := (ty a)(d := t), own := (own a)(d := o')\<rparr>"
  have lk: "?lk = upd d (\<lambda>x. x\<lparr>cond := None, lock_type := t, owner := o'\<rparr>) (assign (Next_of d) None lk)"
    by (simp add: upd_def assign_def)
  have "deref ?lk = (deref lk)(Next_of d := None)" "prv_of ?lk = prv_of lk" "last_of ?lk = last_of lk" "same_fields ?lk ?a"
    using r by (auto simp: deref_def prv_of_def last_of_def upd_def represents_def same_fields_def owner_of_def type_of_def cond_of_def param_of_def
        fun_eq_iff split: slot.splits)
  then have r': "represents ?lk ?a" "nxt (mem ?lk d) = None" "\<And>L. d \<notin> set (q ?a L)"
    using r d linked_foreign [of "{}" "deref lk" "prv_of lk" "last_of lk" "q a" d None] by (auto simp: represents_def upd_def)
  have req: "refines (if t \<le> TL_READ_NO_INSERT then read_request env d o' t ?lk else write_request env cv d o' t ?lk)
      (if t \<le> TL_READ_NO_INSERT then Some (a_read_request env d o' t ?a) else a_write_request env cv d o' t ?a)"
    using read_request_refines [OF r'(1,3,2)] write_request_refines [OF r'(1,3,2)] by auto
  show ?thesis
  proof (cases "if t \<le> TL_READ_NO_INSERT then read_request env d o' t ?lk else write_request env cv d o' t ?lk")
    case None
    then show ?thesis using req unfolding thr_lock_def a_lock_def Let_def None by auto
  next
    case (Some x)
    obtain r lk' where x: "x = (r, lk')" by force
    obtain a' where a': "(if t \<le> TL_READ_NO_INSERT then Some (a_read_request env d o' t ?a) else a_write_request env cv d o' t ?a) = Some (r, a')"
      "represents lk' a'" using req unfolding Some x by (auto simp: option_rel_Some1)
    have qd: "represents (wait_enter L cv False d lk') (a_cond d (Some cv) (a_append L d a'))" if "r = Queue L" for L
    proof -
      have "nxt (mem lk' d) = None" using Some queued_request r'(2) unfolding x that by (auto split: if_splits)
      moreover have "q a' = q a" using a'(1) queued_a_request unfolding that by (fastforce split: if_splits)
      ultimately show ?thesis unfolding wait_enter_def using d a'(2) by (auto intro!: represents_sets represents_append)
    qed
    show ?thesis unfolding thr_lock_def a_lock_def Let_def Some x a'(1)
      using qd a'(2) by (auto simp: own_deadlock_eq split: outcome.splits)
  qed
qed

end
