(* ===== verification/Thr_Lock_Refine.thy ===== *)
theory Thr_Lock_Refine
  imports Thr_Lock_Queues
begin

text \<open>
  The remaining operations of the table locks on the level of queues, and their refinement: the end of
  a wait, unlocking with the scheduling of waiting requests, aborting, upgrading and
  rescheduling.
\<close>

section \<open>Unlocking\<close>

text \<open>The loop of \<open>free_all_read_locks\<close>: the waiting read locks are distributed.\<close>

fun a_free_loop :: "bool \<Rightarrow> nat list \<Rightarrow> alock \<Rightarrow> alock option" where
  "a_free_loop ci [] a = Some a"
| "a_free_loop ci (d # ds) a =
     (if ty a d = TL_READ_NO_INSERT \<and> ci then a_free_loop ci ds (a_append Read_wait d a)
      else do { a \<leftarrow> a_wake d (a_count (ty a d) (a_append Read d a)); a_free_loop ci ds a })"

definition a_free_all :: "bool \<Rightarrow> alock \<Rightarrow> alock option" where
  "a_free_all ci a = do {
     a \<leftarrow> a_free_loop ci (q a Read_wait) (a\<lparr>q := (q a)(Read_wait := [])\<rparr>);
     Some (if q a Read_wait = [] then a\<lparr>wlc := 0\<rparr> else a)
   }"

definition a_free_waiting :: "bool \<Rightarrow> alock \<Rightarrow> alock option" where
  "a_free_waiting ci a = (if q a Read_wait = [] then Some a else a_free_all ci a)"

definition a_move :: "nat \<Rightarrow> alock \<Rightarrow> alock" where
  "a_move d a = a_append Write d (a_remove Write_wait d a)"

fun a_give :: "thr_env \<Rightarrow> nat list \<Rightarrow> alock \<Rightarrow> (nat \<times> alock) option" where
  "a_give env [] a = None"
| "a_give env (d # ds) a = do {
     let a = a_move d a;
     up \<leftarrow> (if ty a d = TL_WRITE_CONCURRENT_INSERT then a_check_status env d a else Some False);
     a \<leftarrow> a_wake d (if up then a_type d TL_WRITE a else a);
     case ds of
       [] \<Rightarrow> Some (d, a)
     | n # _ \<Rightarrow> if ty a d \<noteq> TL_WRITE_ALLOW_WRITE \<or> ty a n \<noteq> TL_WRITE_ALLOW_WRITE then Some (d, a) else a_give env ds a
   }"

fun a_start :: "thr_lock_type \<Rightarrow> nat list \<Rightarrow> alock \<Rightarrow> alock option" where
  "a_start t [] a = None"
| "a_start t (d # ds) a = do {
     a \<leftarrow> a_wake d (a_move d a);
     case ds of
       [] \<Rightarrow> Some a
     | n # _ \<Rightarrow> if t = TL_WRITE_ALLOW_WRITE \<and> ty a n = TL_WRITE_ALLOW_WRITE then a_start t ds a else Some a
   }"

definition a_idle :: "thr_env \<Rightarrow> alock \<Rightarrow> alock option" where
  "a_idle env a = (case q a Write_wait of
     [] \<Rightarrow> a_free_waiting False a
   | d # _ \<Rightarrow>
       if ty a d \<noteq> TL_WRITE_LOW_PRIORITY \<or> (case q a Read_wait of [] \<Rightarrow> True | r # _ \<Rightarrow> ty a r < TL_READ_HIGH_PRIORITY)
       then
         let many = (max_write_lock_count env < wlc a);
             a = a\<lparr>wlc := if many then 0 else (wlc a + 1) mod ULONG_RANGE\<rparr>
         in if many \<and> q a Read_wait \<noteq> [] then a_free_all False a
            else do {
              (d, a) \<leftarrow> a_give env (q a Write_wait) a;
              if ty a d \<ge> TL_WRITE_LOW_PRIORITY then Some a else a_free_waiting (excludes_no_insert (ty a d)) a
            }
       else a_free_waiting (excludes_no_insert (ty a d)) a)"

definition a_reading :: "thr_env \<Rightarrow> alock \<Rightarrow> alock option" where
  "a_reading env a = (case q a Write_wait of
     [] \<Rightarrow> a_free_waiting False a
   | d # _ \<Rightarrow>
       if ty a d \<le> TL_WRITE_DELAYED \<and> (\<not> excludes_no_insert (ty a d) \<or> rnwc a = 0)
       then do {
         up \<leftarrow> (if ty a d = TL_WRITE_CONCURRENT_INSERT then a_check_status env d a else Some False);
         if up then a_free_waiting False (a_type d TL_WRITE a)
         else do {
           a' \<leftarrow> a_start (ty a d) (q a Write_wait) a;
           a_free_waiting (excludes_no_insert (ty a d)) a'
         }
       }
       else Some a)"

definition a_unlock_list :: "alock \<Rightarrow> nat \<Rightarrow> lname" where
  "a_unlock_list a d =
     (if ty a d \<le> TL_READ_NO_INSERT then Read
      else if ty a d = TL_WRITE_DELAYED \<and> cnd a d \<noteq> None then Write_wait else Write)"

definition a_release :: "thr_env \<Rightarrow> nat \<Rightarrow> alock \<Rightarrow> alock" where
  "a_release env d a =
     (let t = ty a d; a = a_remove (a_unlock_list a d) d a;
          a = (if t \<ge> TL_WRITE_CONCURRENT_INSERT then a_update_status env d a else a);
          a = (if t = TL_READ_NO_INSERT then a\<lparr>rnwc := u32_sub (rnwc a) 1\<rparr> else a)
      in a_type d TL_UNLOCK a)"

definition a_schedule :: "thr_env \<Rightarrow> alock \<Rightarrow> alock option" where
  "a_schedule env a = (if q a Write \<noteq> [] then Some a else if q a Read = [] then a_idle env a else a_reading env a)"

definition a_unlock :: "thr_env \<Rightarrow> nat \<Rightarrow> alock \<Rightarrow> alock option" where
  "a_unlock env d a = a_schedule env (a_release env d a)"

section \<open>Freeing the waiting read locks\<close>

text \<open>In the loop the instances still to be looked at are in the list of the active locks, and the
  list of those that keep waiting is not closed.\<close>

definition in_loop :: "nat list \<Rightarrow> THR_LOCK \<Rightarrow> alock \<Rightarrow> bool" where
  "in_loop ds lk a \<longleftrightarrow>
     linked {Read_wait} (deref lk) (prv_of lk) (last_of lk) ((q a)(Read := q a Read @ ds)) \<and> same_fields lk a"

lemma in_loop_wake:
  assumes "in_loop (d # ds) lk a"
  shows "rel_option (in_loop ds) (wake d (count_no_insert (type_of lk d) lk)) (a_wake d (a_count (ty a d) (a_append Read d a)))"
proof -
  let ?lk = "count_no_insert (type_of lk d) lk" and ?a = "a_count (ty a d) (a_append Read d a)"
  have 1: "in_loop ds ?lk ?a"
    using assms by (auto simp: in_loop_def count_no_insert_def a_count_def a_append_def field_simps' same_fields_def type_of_def owner_of_def
        cond_of_def param_of_def fun_eq_iff)
  then have c: "cond_of ?lk d = cnd ?a d" by (auto simp: in_loop_def same_fields_def)
  have "in_loop ds (emit (Signal c) (set_cond d None ?lk)) (a_emit (Signal c) (a_cond d None ?a))" for c
    using 1 by (auto simp: in_loop_def field_simps' same_fields_sets)
  then show ?thesis unfolding wake_def a_wake_def c by (auto split: option.split)
qed

lemma in_loop_stay:
  assumes l: "in_loop (d # ds) lk a"
  shows "in_loop ds (append_lock Read_wait d (remove_lock Read d lk)) (a_append Read_wait d a)"
    and "deref (append_lock Read_wait d (remove_lock Read d lk)) (Next_of d) = deref lk (Next_of d)"
proof -
  let ?qs = "(q a)(Read := q a Read @ d # ds)" and ?qs' = "(q a)(Read := q a Read @ ds)"
  let ?lk = "remove_lock Read d lk"
  have lk: "linked {Read_wait} (deref lk) (prv_of lk) (last_of lk) ?qs" "same_fields lk a" using l by (auto simp: in_loop_def)
  have m: "d \<in> set (?qs Read)" "distinct (?qs Read)" using lk(1) unfolding linked_def by (simp, blast)
  have q': "?qs(Read := remove1 d (?qs Read)) = ?qs'" using m(2) by (auto simp: remove1_append)
  have ne: "prv_of lk d \<noteq> Next_of d"
    using linked_split(1) [OF lk(1), of Read "q a Read" d ds] m(2) last_in_set [of "q a Read"] by (auto split: if_splits)
  have 1: "linked {Read_wait} (deref ?lk) (prv_of ?lk) (last_of ?lk) ?qs'" "same_fields ?lk a" "deref ?lk (Next_of d) = deref lk (Next_of d)"
    using linked_remove [OF lk(1) m(1)] lk(2) ne unfolding q'
    by (cases "deref lk (Next_of d)"; simp add: remove_lock_def Let_def fields_of_links field_simps')+
  have dj: "set (?qs Read) \<inter> set (?qs L) = {}" if "L \<noteq> Read" for L using lk(1) that unfolding linked_def by blast
  have fresh: "d \<notin> set (?qs' L)" for L using m(2) dj [of L] by (cases "L = Read") auto
  have 2: "linked {Read_wait} ((deref ?lk)(last_of ?lk Read_wait := Some d)) ((prv_of ?lk)(d := last_of ?lk Read_wait))
      ((last_of ?lk)(Read_wait := Next_of d)) (?qs'(Read_wait := ?qs' Read_wait @ [d]))"
    by (rule linked_append [OF 1(1) fresh]) simp
  have e: "last_of ?lk Read_wait \<noteq> Next_of d"
    using linked_end [OF 1(1), of Read_wait] fresh [of Read_wait] last_in_set [of "?qs' Read_wait"] by (auto split: if_splits)
  show "in_loop ds (append_lock Read_wait d ?lk) (a_append Read_wait d a)"
    using 2 1(2) by (simp add: in_loop_def append_lock_def Let_def fields_of_links field_simps' a_append_def fun_upd_twist)
  show "deref (append_lock Read_wait d ?lk) (Next_of d) = deref lk (Next_of d)"
    using 1(3) e by (simp add: append_lock_def Let_def fields_of_links field_simps')
qed

lemma in_loop_next:
  assumes "in_loop (d # ds) lk a"
  shows "nxt (mem lk d) = (case ds of [] \<Rightarrow> None | x # _ \<Rightarrow> Some x)"
  using linked_split(2) [of "{Read_wait}" "deref lk" "prv_of lk" "last_of lk" _ Read "q a Read" d ds] assms
  by (auto simp: in_loop_def fields_of_links)

lemma free_step_refines:
  assumes l: "in_loop (d # ds) lk a"
  shows "rel_option (\<lambda>lk' a'. in_loop ds lk' a' \<and> nxt (mem lk' d) = (case ds of [] \<Rightarrow> None | x # _ \<Rightarrow> Some x))
    (if type_of lk d = TL_READ_NO_INSERT \<and> ci then Some (append_lock Read_wait d (remove_lock Read d lk))
     else wake d (count_no_insert (type_of lk d) lk))
    (if ty a d = TL_READ_NO_INSERT \<and> ci then Some (a_append Read_wait d a)
     else a_wake d (a_count (ty a d) (a_append Read d a)))"
proof -
  have t: "type_of lk d = ty a d" using l by (auto simp: in_loop_def same_fields_def)
  have w: "wake d (count_no_insert (type_of lk d) lk) = Some lk' \<Longrightarrow> nxt (mem lk' d) = nxt (mem lk d)" for lk'
    by (auto simp: wake_def split: option.splits)
  show ?thesis
    using in_loop_wake [OF l] in_loop_stay [OF l] in_loop_next [OF l] w unfolding t
    by (cases "wake d (count_no_insert (ty a d) lk)"; cases "a_wake d (a_count (ty a d) (a_append Read d a))")
      (auto simp: fields_of_links)
qed

lemma free_read_loop_refines:
  "in_loop (d # ds) lk a \<Longrightarrow> rel_option (in_loop []) (free_read_loop ci d lk) (a_free_loop ci (d # ds) a)"
proof (induction ds arbitrary: d lk a)
  case Nil
  have eq: "a_free_loop ci [d] a =
      Option.bind (if ty a d = TL_READ_NO_INSERT \<and> ci then Some (a_append Read_wait d a)
        else a_wake d (a_count (ty a d) (a_append Read d a))) Some" by (auto split: bind_split)
  show ?case unfolding eq
    by (subst free_read_loop.simps, rule rel_option_bindI [OF free_step_refines [OF Nil, of ci]]) auto
next
  case (Cons n ds)
  have eq: "a_free_loop ci (d # n # ds) a =
      Option.bind (if ty a d = TL_READ_NO_INSERT \<and> ci then Some (a_append Read_wait d a)
        else a_wake d (a_count (ty a d) (a_append Read d a))) (a_free_loop ci (n # ds))" by simp
  show ?case unfolding eq
    by (subst free_read_loop.simps, rule rel_option_bindI [OF free_step_refines [OF Cons.prems, of ci]]) (use Cons.IH in auto)
qed

lemma free_all_refines:
  assumes r: "represents lk a" and ne: "q a Read_wait \<noteq> []"
  shows "rel_option represents (free_all_read_locks ci lk) (a_free_all ci a)"
proof -
  obtain d ds where q: "q a Read_wait = d # ds" using ne by (cases "q a Read_wait") auto
  let ?l = "lst (lists lk Read)"
  let ?lk = "set_prev d ?l (assign ?l (Some d) lk)"
  let ?lk' = "set_last Read_wait (Data_of Read_wait) (set_last Read (lst (lists ?lk Read_wait)) ?lk)"
  let ?a = "a\<lparr>q := (q a)(Read_wait := [])\<rparr>"
  have f: "first lk Read_wait = Some d" using represents_first [OF r] q by (simp add: a_first_def)
  have "in_loop (d # ds) ?lk' ?a"
    using linked_splice [of "deref lk" "prv_of lk" "last_of lk" "q a" Read_wait d ds Read] r q
    by (simp add: in_loop_def represents_def fields_of_links field_simps' fun_upd_twist)
  from free_read_loop_refines [OF this] have loop: "rel_option (in_loop []) (free_read_loop ci d ?lk') (a_free_loop ci (q a Read_wait) ?a)"
    unfolding q .
  have fin: "represents (let lk = assign (lst (lists lk' Read_wait)) None lk' in if first lk Read_wait = None then lk\<lparr>write_lock_count := 0\<rparr> else lk)
      (if q a' Read_wait = [] then a'\<lparr>wlc := 0\<rparr> else a')" if l: "in_loop [] lk' a'" for lk' a'
  proof -
    have "deref lk' (last_of lk' L) = None" if "L \<noteq> Read_wait" for L using l that by (auto simp: in_loop_def linked_def)
    then have c: "represents (assign (last_of lk' Read_wait) None lk') a'"
      using linked_close [of Read_wait "deref lk'" "prv_of lk'" "last_of lk'" "q a'"] l by (auto simp: in_loop_def represents_def field_simps')
    then show ?thesis using represents_first [OF c, of Read_wait] represents_sets(4) [OF c, of 0]
      by (auto simp: Let_def fields_of_links a_first_def split: list.splits)
  qed
  show ?thesis unfolding free_all_read_locks_def a_free_all_def f Let_def bind.bind_lunit
    by (rule rel_option_bindI [OF loop]) (use fin in \<open>simp add: Let_def\<close>)
qed

lemma free_waiting_refines: "represents lk a \<Longrightarrow> rel_option represents (free_waiting_reads ci lk) (a_free_waiting ci a)"
  using free_all_refines [of lk a ci] by (auto simp: free_waiting_reads_def a_free_waiting_def represents_reads a_first_def split: list.splits)

section \<open>Starting write locks\<close>

lemma move_refines:
  assumes r: "represents lk a" and d: "d \<in> set (q a Write_wait)"
  shows "represents (move_write d lk) (a_move d a)"
proof -
  let ?lk = "remove_lock Write_wait d lk" and ?a = "a_remove Write_wait d a"
  have 1: "represents ?lk ?a" by (rule represents_remove [OF assms])
  have "linked {} (deref lk) (prv_of lk) (last_of lk) (q a)" using r by (simp add: represents_def)
  then have fresh: "d \<notin> set (q ?a L)" for L using d unfolding linked_def by (cases "L = Write_wait") (auto simp: a_remove_def)
  let ?lk' = "assign (Next_of d) None ?lk"
  have 2: "represents ?lk' ?a"
    using 1 linked_foreign [of "{}" "deref ?lk" "prv_of ?lk" "last_of ?lk" "q ?a" d None] fresh by (simp add: represents_def field_simps')
  have e: "last_of ?lk Write \<noteq> Next_of d"
    using linked_end [of "{}" "deref ?lk" "prv_of ?lk" "last_of ?lk" "q ?a" Write] 1 fresh [of Write] last_in_set [of "q ?a Write"]
    unfolding represents_def by (metis slot.distinct(1) slot.inject(2))
  have "represents (append_lock Write d ?lk') (a_append Write d ?a)"
    by (rule represents_append [OF 2 fresh]) (simp add: fields_of_links field_simps')
  moreover have "represents (move_write d lk) x \<longleftrightarrow> represents (append_lock Write d ?lk') x" for x
    using e by (simp add: represents_def move_write_def append_lock_def Let_def fields_of_links field_simps' fun_upd_twist)
  ultimately show ?thesis by (simp add: a_move_def)
qed

lemma move_queue:
  assumes "represents lk a" "q a Write_wait = d # ds"
  shows "q (a_move d a) Write_wait = ds" "represents (move_write d lk) (a_move d a)"
  using assms move_refines [of lk a d] by (auto simp: a_move_def a_append_def a_remove_def)

lemma a_wake_queue: "a_wake d a = Some a' \<Longrightarrow> q a' = q a"
  by (auto simp: a_wake_def split: option.splits)

lemma wake_queue:
  assumes "represents lk a" "q a Write_wait = ds"
  shows "rel_option (\<lambda>lk' a'. represents lk' a' \<and> q a' Write_wait = ds) (wake d lk) (a_wake d a)"
  using represents_wake [OF assms(1), of d] assms(2)
  by (cases "wake d lk"; cases "a_wake d a") (auto dest: a_wake_queue)

lemma give_step_refines:
  assumes "represents lk a" "q a Write_wait = ds"
  shows "rel_option (\<lambda>lk' a'. represents lk' a' \<and> q a' Write_wait = ds)
    (do { up \<leftarrow> (if type_of lk d = TL_WRITE_CONCURRENT_INSERT then call_check_status env d lk else Some False);
          wake d (if up then set_type d TL_WRITE lk else lk) })
    (do { up \<leftarrow> (if ty a d = TL_WRITE_CONCURRENT_INSERT then a_check_status env d a else Some False);
          a_wake d (if up then a_type d TL_WRITE a else a) })"
  unfolding represents_reads [OF assms(1)] represents_calls(4) [OF assms(1)]
  by (rule rel_option_bindI [where A = "(=)"]) (use assms represents_sets(1) in \<open>auto simp: option.rel_eq intro!: wake_queue\<close>)

lemma give_refines:
  "represents lk a \<Longrightarrow> q a Write_wait = d # ds \<Longrightarrow> refines (give_write_loop env d lk) (a_give env (d # ds) a)"
proof (induction ds arbitrary: d lk a)
  case (Nil d lk a)
  show ?case
    by (subst give_write_loop.simps, subst a_give.simps, unfold Let_def bind_assoc [symmetric])
      (rule rel_option_bindI [OF give_step_refines [OF move_queue(2,1) [OF Nil]]], auto simp: represents_first a_first_def)
next
  case (Cons n ds)
  show ?case
    by (subst give_write_loop.simps, subst a_give.simps, unfold Let_def bind_assoc [symmetric])
      (rule rel_option_bindI [OF give_step_refines [OF move_queue(2,1) [OF Cons.prems]]],
        use Cons.IH in \<open>auto simp: represents_reads a_first_def simp del: a_give.simps\<close>)
qed

lemma start_refines:
  "represents lk a \<Longrightarrow> q a Write_wait = d # ds \<Longrightarrow> rel_option represents (start_write_loop t d lk) (a_start t (d # ds) a)"
proof (induction ds arbitrary: d lk a)
  case (Nil d lk a)
  show ?case
    by (subst start_write_loop.simps, subst a_start.simps)
      (rule rel_option_bindI [OF wake_queue [OF move_queue(2,1) [OF Nil]]], auto simp: represents_first a_first_def)
next
  case (Cons n ds)
  show ?case
    by (subst start_write_loop.simps, subst a_start.simps)
      (rule rel_option_bindI [OF wake_queue [OF move_queue(2,1) [OF Cons.prems]]],
        use Cons.IH in \<open>auto simp: represents_reads a_first_def simp del: a_start.simps\<close>)
qed

section \<open>The scheduling\<close>

lemma idle_refines:
  assumes r: "represents lk a"
  shows "rel_option represents (schedule_idle env lk) (a_idle env a)"
proof (cases "q a Write_wait")
  case Nil
  then show ?thesis using free_waiting_refines [OF r, of False] by (simp add: schedule_idle_def a_idle_def represents_first [OF r] a_first_def)
next
  case (Cons d ds)
  let ?many = "max_write_lock_count env < wlc a"
  let ?n = "if ?many then 0 else (wlc a + 1) mod ULONG_RANGE"
  let ?lk = "lk\<lparr>write_lock_count := ?n\<rparr>" and ?a = "a\<lparr>wlc := ?n\<rparr>"
  have r': "represents ?lk ?a" by (rule represents_sets [OF r])
  have lk: "(if ?many then lk\<lparr>write_lock_count := (wlc a + 1) mod ULONG_RANGE\<rparr>\<lparr>write_lock_count := 0\<rparr>
      else lk\<lparr>write_lock_count := (wlc a + 1) mod ULONG_RANGE\<rparr>) = ?lk" by simp
  have g: "refines (give_write_loop env d ?lk) (a_give env (q ?a Write_wait) ?a)"
    using give_refines [OF r'] Cons by simp
  have main: "rel_option represents
      (if ?many \<and> a_first ?a Read_wait \<noteq> None then free_all_read_locks False ?lk
       else do { (d, lk) \<leftarrow> give_write_loop env d ?lk;
         if type_of lk d \<ge> TL_WRITE_LOW_PRIORITY then Some lk else free_waiting_reads (excludes_no_insert (type_of lk d)) lk })
      (if ?many \<and> q ?a Read_wait \<noteq> [] then a_free_all False ?a
       else do { (d, a) \<leftarrow> a_give env (q ?a Write_wait) ?a;
         if ty a d \<ge> TL_WRITE_LOW_PRIORITY then Some a else a_free_waiting (excludes_no_insert (ty a d)) a })"
  proof (cases "?many \<and> q ?a Read_wait \<noteq> []")
    case True
    then show ?thesis using free_all_refines [OF r', of False] by (auto simp: a_first_def split: list.splits)
  next
    case False
    then have f: "\<not> (?many \<and> a_first ?a Read_wait \<noteq> None)" by (auto simp: a_first_def split: list.splits)
    show ?thesis unfolding if_not_P [OF False] if_not_P [OF f]
      by (rule rel_option_bindI [OF g]) (auto simp: represents_fields intro!: free_waiting_refines)
  qed
  have c: "(case first lk Read_wait of None \<Rightarrow> True | Some r \<Rightarrow> ty a r < TL_READ_HIGH_PRIORITY) =
      (case q a Read_wait of [] \<Rightarrow> True | r # _ \<Rightarrow> ty a r < TL_READ_HIGH_PRIORITY)"
    by (simp add: represents_reads [OF r] a_first_def split: list.split)
  have d: "first lk Write_wait = Some d" using represents_first [OF r, of Write_wait] Cons by (simp add: a_first_def)
  show ?thesis
    unfolding schedule_idle_def a_idle_def d Cons list.case option.case c Let_def represents_fields [OF r] lk represents_first [OF r']
    by (rule rel_option_ifI [OF main free_waiting_refines [OF r]])
qed

lemma reading_refines:
  assumes r: "represents lk a"
  shows "rel_option represents (schedule_reading env lk) (a_reading env a)"
proof (cases "q a Write_wait")
  case Nil
  then show ?thesis using free_waiting_refines [OF r, of False] by (simp add: schedule_reading_def a_reading_def represents_first [OF r] a_first_def)
next
  case (Cons d ds)
  have d: "first lk Write_wait = Some d" using represents_first [OF r, of Write_wait] Cons by (simp add: a_first_def)
  have s: "rel_option represents
      (do { lk \<leftarrow> start_write_loop (ty a d) d lk; free_waiting_reads (excludes_no_insert (ty a d)) lk })
      (do { a' \<leftarrow> a_start (ty a d) (d # ds) a; a_free_waiting (excludes_no_insert (ty a d)) a' })"
    by (rule rel_option_bindI [OF start_refines [OF r Cons] free_waiting_refines])
  have u: "rel_option represents (free_waiting_reads False (set_type d TL_WRITE lk)) (a_free_waiting False (a_type d TL_WRITE a))"
    by (intro free_waiting_refines represents_sets r)
  have "rel_option represents
      (do { up \<leftarrow> x; if up then free_waiting_reads False (set_type d TL_WRITE lk)
         else do { lk \<leftarrow> start_write_loop (ty a d) d lk; free_waiting_reads (excludes_no_insert (ty a d)) lk } })
      (do { up \<leftarrow> x; if up then a_free_waiting False (a_type d TL_WRITE a)
         else do { a' \<leftarrow> a_start (ty a d) (d # ds) a; a_free_waiting (excludes_no_insert (ty a d)) a' } })" for x
    by (rule rel_option_bindI [where A = "(=)"]) (use s u in \<open>auto simp: option.rel_eq\<close>)
  from rel_option_ifI [OF this] r show ?thesis
    unfolding schedule_reading_def a_reading_def d Cons list.case option.case Let_def represents_fields [OF r] represents_calls(4) [OF r] by auto
qed

lemma schedule_refines:
  assumes r: "represents lk a"
  shows "rel_option represents
    (if first lk Write \<noteq> None then Some lk else if first lk Read = None then schedule_idle env lk else schedule_reading env lk)
    (a_schedule env a)"
  using idle_refines [OF r, of env] reading_refines [OF r, of env] r
  by (auto simp: a_schedule_def represents_first [OF r] a_first_def split: list.splits)

text \<open>An unlock of an instance that is in the list that its fields say.\<close>

lemma thr_unlock_refines:
  assumes r: "represents lk a" and d: "d \<in> set (q a (a_unlock_list a d))"
  shows "rel_option represents (thr_unlock env d lk) (a_unlock env d a)"
proof -
  have l: "unlock_list lk d = a_unlock_list a d" by (simp add: unlock_list_def a_unlock_list_def represents_fields [OF r])
  have 1: "represents (remove_lock (a_unlock_list a d) d lk) (a_remove (a_unlock_list a d) d a)" by (rule represents_remove [OF r d])
  show ?thesis
    unfolding thr_unlock_def a_unlock_def a_release_def Let_def l
    by (rule schedule_refines) (use 1 in \<open>auto simp: represents_fields [OF r] represents_fields(6) type_order intro!: represents_sets represents_calls\<close>)
qed

section \<open>Waiting, aborting and rescheduling\<close>

definition a_wait_leave :: "thr_env \<Rightarrow> lname \<Rightarrow> bool \<Rightarrow> nat \<Rightarrow> alock \<Rightarrow> enum_thr_lock_result \<times> alock" where
  "a_wait_leave env L timed_out d a =
     (if cnd a d \<noteq> None
      then (if timed_out then THR_LOCK_WAIT_TIMEOUT else THR_LOCK_ABORTED, a_type d TL_UNLOCK (a_remove L d a))
      else if ty a d = TL_UNLOCK then (THR_LOCK_ABORTED, a)
      else (THR_LOCK_SUCCESS, a_get_status env d False (a_emit Locks_waited a)))"

lemma wait_leave_refines:
  assumes r: "represents lk a" and d: "cnd a d \<noteq> None \<Longrightarrow> d \<in> set (q a L)"
  shows "rel_prod (=) represents (wait_leave env L timed_out d lk) (a_wait_leave env L timed_out d a)"
  using represents_remove [OF r, of d L] d r
  by (auto simp: wait_leave_def a_wait_leave_def represents_fields [OF r] intro!: represents_sets represents_calls)

fun a_abort_loop :: "nat list \<Rightarrow> alock \<Rightarrow> alock option" where
  "a_abort_loop [] a = Some a"
| "a_abort_loop (d # ds) a = do { a \<leftarrow> a_wake d (a_type d TL_UNLOCK a); a_abort_loop ds a }"

definition a_abort :: "alock \<Rightarrow> alock option" where
  "a_abort a = do {
     a \<leftarrow> a_abort_loop (q a Read_wait) a;
     a \<leftarrow> a_abort_loop (q a Write_wait) a;
     let a = a\<lparr>q := (q a)(Read_wait := [], Write_wait := [])\<rparr>;
     Some (case q a Write of [] \<Rightarrow> a | w # _ \<Rightarrow> a_type w TL_WRITE_ONLY a)
   }"

lemma represents_next:
  assumes "represents lk a" "q a L = xs @ d # ys"
  shows "nxt (mem lk d) = (case ys of [] \<Rightarrow> None | y # _ \<Rightarrow> Some y)"
  using linked_split(2) [of "{}" "deref lk" "prv_of lk" "last_of lk" "q a" L xs d ys] assms
  by (simp add: represents_def fields_of_links)

lemma wake_same_queue:
  assumes r: "represents lk a"
  shows "rel_option (\<lambda>lk' a'. represents lk' a' \<and> q a' = q a) (wake d (set_type d t lk)) (a_wake d (a_type d t a))"
  using represents_wake [OF represents_sets(1) [OF r], of d d t]
  by (cases "wake d (set_type d t lk)"; cases "a_wake d (a_type d t a)") (auto dest: a_wake_queue)

lemma abort_loop_refines:
  "represents lk a \<Longrightarrow> q a L = xs @ ds \<Longrightarrow>
   rel_option (\<lambda>lk' a'. represents lk' a' \<and> q a' = q a) (abort_loop (case ds of [] \<Rightarrow> None | y # _ \<Rightarrow> Some y) lk) (a_abort_loop ds a)"
proof (induction ds arbitrary: lk a xs)
  case (Cons d ds)
  have IH: "rel_option (\<lambda>lk'' a''. represents lk'' a'' \<and> q a'' = q a) (abort_loop (nxt (mem lk' d)) lk') (a_abort_loop ds a')"
    if "represents lk' a' \<and> q a' = q a" for lk' a'
    using Cons.IH [of lk' a' "xs @ [d]"] Cons.prems(2) that represents_next [of lk' a' L xs d ds] by auto
  show ?case unfolding a_abort_loop.simps list.case
    by (subst abort_loop.simps, unfold option.case) (rule rel_option_bindI [OF wake_same_queue [OF Cons.prems(1)] IH])
qed (simp add: abort_loop.simps)

lemma linked_clear:
  assumes "linked {} D P E qs"
  shows "linked {} (D(Data_of L := None)) P (E(L := Data_of L)) (qs(L := []))"
proof -
  have "chain (D(Data_of L := None)) P (Data_of L') (qs L') (E L') \<and> (D(Data_of L := None)) (E L') = None" if "L' \<noteq> L" for L'
    using linked_slot_elsewhere [OF assms that, of "Data_of L" None] by auto
  then show ?thesis using assms unfolding linked_def by auto
qed

lemma thr_abort_locks_refines:
  assumes r: "represents lk a"
  shows "rel_option represents (thr_abort_locks lk) (a_abort a)"
proof -
  have f: "first lk L = (case q a L of [] \<Rightarrow> None | y # _ \<Rightarrow> Some y)" if "represents lk a" for lk a L
    using represents_first [OF that] by (simp add: a_first_def)
  have fin: "represents
      (let lk = assign (Data_of Read_wait) None (assign (Data_of Write_wait) None
                  (set_last Write_wait (Data_of Write_wait) (set_last Read_wait (Data_of Read_wait) lk)))
       in case first lk Write of None \<Rightarrow> lk | Some w \<Rightarrow> set_type w TL_WRITE_ONLY lk)
      (let a = a\<lparr>q := (q a)(Read_wait := [], Write_wait := [])\<rparr> in case q a Write of [] \<Rightarrow> a | w # _ \<Rightarrow> a_type w TL_WRITE_ONLY a)"
    if r: "represents lk a" for lk a
  proof -
    let ?lk = "assign (Data_of Read_wait) None (assign (Data_of Write_wait) None
                  (set_last Write_wait (Data_of Write_wait) (set_last Read_wait (Data_of Read_wait) lk)))"
    let ?a = "a\<lparr>q := (q a)(Read_wait := [], Write_wait := [])\<rparr>"
    have "represents ?lk ?a"
      using r linked_clear [OF linked_clear, of "deref lk" "prv_of lk" "last_of lk" "q a" Read_wait Write_wait]
      by (simp add: represents_def field_simps' fun_upd_twist [of "Data_of Read_wait"])
    then show ?thesis using f [of ?lk ?a Write] represents_sets(1) [of ?lk ?a] unfolding Let_def by (cases "q a Write") auto
  qed
  show ?thesis unfolding thr_abort_locks_def a_abort_def f [OF r]
  proof (rule rel_option_bindI [OF abort_loop_refines [OF r, of Read_wait "[]"]])
    fix lk' a' assume *: "represents lk' a' \<and> q a' = q a"
    show "rel_option represents
        (do { lk \<leftarrow> abort_loop (first lk' Write_wait) lk';
           let lk = set_last Write_wait (Data_of Write_wait) (set_last Read_wait (Data_of Read_wait) lk);
           let lk = assign (Data_of Read_wait) None (assign (Data_of Write_wait) None lk);
           Some (case first lk Write of None \<Rightarrow> lk | Some w \<Rightarrow> set_type w TL_WRITE_ONLY lk) })
        (do { a \<leftarrow> a_abort_loop (q a' Write_wait) a';
           let a = a\<lparr>q := (q a)(Read_wait := [], Write_wait := [])\<rparr>;
           Some (case q a Write of [] \<Rightarrow> a | w # _ \<Rightarrow> a_type w TL_WRITE_ONLY a) })"
      unfolding f [OF conjunct1 [OF *]]
      by (rule rel_option_bindI [OF abort_loop_refines [OF conjunct1 [OF *], of Write_wait "[]"]])
        (simp, drule conjunct1, use fin in \<open>simp add: Let_def\<close>)
  qed simp
qed

fun a_abort_thread_loop :: "thr_env \<Rightarrow> nat \<Rightarrow> lname \<Rightarrow> nat list \<Rightarrow> bool \<Rightarrow> alock \<Rightarrow> (bool \<times> alock) option" where
  "a_abort_thread_loop env thread L [] found a = Some (found, a)"
| "a_abort_thread_loop env thread L (d # ds) found a =
     (if owner_info env (own a d) = thread then do {
        a \<leftarrow> a_wake d (a_type d TL_UNLOCK a);
        a_abort_thread_loop env thread L ds True (a_remove L d a)
      }
      else a_abort_thread_loop env thread L ds found a)"

definition a_abort_thread :: "thr_env \<Rightarrow> nat \<Rightarrow> alock \<Rightarrow> (bool \<times> alock) option" where
  "a_abort_thread env thread a = do {
     (found, a) \<leftarrow> a_abort_thread_loop env thread Read_wait (q a Read_wait) False a;
     a_abort_thread_loop env thread Write_wait (q a Write_wait) found a
   }"

lemma remove_lock_next:
  assumes r: "represents lk a" and d: "q a L = xs @ d # ys"
  shows "nxt (mem (remove_lock L d lk) d) = nxt (mem lk d)"
proof -
  have l: "linked {} (deref lk) (prv_of lk) (last_of lk) (q a)" using r by (simp add: represents_def)
  have "distinct (xs @ d # ys)" using l d unfolding linked_def by metis
  then have "prv_of lk d \<noteq> Next_of d" using linked_split(1) [OF l d] last_in_set [of xs] by (auto split: if_splits)
  then show ?thesis by (auto simp: fields_of_links remove_lock_def Let_def field_simps' split: option.split)
qed

lemma abort_thread_loop_refines:
  "represents lk a \<Longrightarrow> q a L = xs @ ds \<Longrightarrow>
   refines (abort_thread_loop env thread L (case ds of [] \<Rightarrow> None | y # _ \<Rightarrow> Some y) found lk) (a_abort_thread_loop env thread L ds found a)"
proof (induction ds arbitrary: lk a xs found)
  case (Cons d ds)
  note r = Cons.prems(1) and qL = Cons.prems(2)
  show ?case
  proof (cases "owner_info env (own a d) = thread")
    case False
    then show ?thesis using Cons.IH [OF r, of "xs @ [d]" found] qL represents_next [OF r, of L xs d ds] represents_fields(1) [OF r]
      by (subst abort_thread_loop.simps) simp
  next
    case True
    have IH: "refines (abort_thread_loop env thread L (nxt (mem (remove_lock L d lk') d)) True (remove_lock L d lk'))
        (a_abort_thread_loop env thread L ds True (a_remove L d a'))" if *: "represents lk' a' \<and> q a' = q a" for lk' a'
    proof -
      have "distinct (q a L)" using r unfolding represents_def linked_def by blast
      then have "q (a_remove L d a') L = xs @ ds" using * qL by (auto simp: a_remove_def remove1_append)
      moreover have "represents (remove_lock L d lk') (a_remove L d a')" by (rule represents_remove) (use * qL in auto)
      moreover have "nxt (mem (remove_lock L d lk') d) = (case ds of [] \<Rightarrow> None | y # _ \<Rightarrow> Some y)"
        using remove_lock_next [of lk' a' L xs d ds] represents_next [of lk' a' L xs d ds] * qL by simp
      ultimately show ?thesis using Cons.IH [of "remove_lock L d lk'" "a_remove L d a'" xs True] by simp
    qed
    show ?thesis using True represents_fields(1) [OF r]
      by (subst abort_thread_loop.simps) (simp add: Let_def, rule rel_option_bindI [OF wake_same_queue [OF r] IH])
  qed
qed (simp add: abort_thread_loop.simps)

lemma thr_abort_locks_for_thread_refines:
  assumes r: "represents lk a"
  shows "refines (thr_abort_locks_for_thread env thread lk) (a_abort_thread env thread a)"
proof -
  have 1: "refines (abort_thread_loop env thread L (first lk L) found lk) (a_abort_thread_loop env thread L (q a L) found a)"
    if "represents lk a" for lk a L found
    using abort_thread_loop_refines [OF that, of L "[]" "q a L"] represents_first [OF that] by (simp add: a_first_def)
  show ?thesis unfolding thr_abort_locks_for_thread_def a_abort_thread_def
    by (rule rel_option_bindI [OF 1 [OF r]]) (use 1 in auto)
qed

definition a_upgrade :: "thr_env \<Rightarrow> nat \<Rightarrow> nat \<Rightarrow> alock \<Rightarrow> (bool + lname) \<times> alock" where
  "a_upgrade env cv d a =
     (if ty a d = TL_UNLOCK \<or> ty a d \<ge> TL_WRITE_LOW_PRIORITY then (Inl (ty a d = TL_UNLOCK), a)
      else
        let a = a_type d TL_WRITE a
        in if cnd a d = None then
             if q a Read = [] then (Inl False, a_get_status env d False a)
             else (Inr Write_wait, a_cond d (Some cv) (a_push Write_wait d (a_remove Write d a)))
           else (Inr Write_wait, a_cond d (Some cv) a))"

text \<open>An instance that is removed can be put first in the other queue.\<close>

lemma represents_to_front:
  assumes r: "represents lk a" and d: "d \<in> set (q a Write)"
  shows "represents (push_lock Write_wait d (remove_lock Write d lk)) (a_push Write_wait d (a_remove Write d a))"
proof (rule represents_push [OF represents_remove [OF assms]])
  fix L
  have dj: "L \<noteq> Write \<Longrightarrow> set (q a Write) \<inter> set (q a L) = {}" "distinct (q a Write)"
    using r unfolding represents_def linked_def by blast+
  then show "d \<notin> set (q (a_remove Write d a) L)" using d by (cases "L = Write") (auto simp: a_remove_def)
qed

lemma thr_upgrade_refines:
  assumes r: "represents lk a" and d: "cnd a d = None \<Longrightarrow> TL_UNLOCK \<noteq> ty a d \<Longrightarrow> ty a d < TL_WRITE_LOW_PRIORITY \<Longrightarrow> d \<in> set (q a Write)"
  shows "rel_prod (=) represents (thr_upgrade_write_delay_lock env cv d lk) (a_upgrade env cv d a)"
proof -
  have r': "represents (set_type d TL_WRITE lk) (a_type d TL_WRITE a)" by (rule represents_sets [OF r])
  have f: "(first (set_type d TL_WRITE lk) Read = None) = (q (a_type d TL_WRITE a) Read = [])"
    using represents_first [OF r', of Read] by (simp add: a_first_def split: list.splits)
  have w: "represents (wait_enter L cv True d lk) (a_cond d (Some cv) a)" if "represents lk a" for L lk a
    using represents_sets(2) [OF that] by (simp add: wait_enter_def)
  have p: "represents (push_lock Write_wait d (remove_lock Write d (set_type d TL_WRITE lk))) (a_push Write_wait d (a_remove Write d (a_type d TL_WRITE a)))"
    if "d \<in> set (q a Write)" by (rule represents_to_front [OF r']) (use that in simp)
  have cd: "cnd (a_type d TL_WRITE a) d = cnd a d" by (simp add: a_type_def)
  show ?thesis
    unfolding thr_upgrade_write_delay_lock_def a_upgrade_def Let_def represents_fields [OF r] represents_fields [OF r'] f cd
    using w [OF r'] w [OF p] d r r' by (auto simp: not_le intro!: represents_calls)
qed

definition a_reschedule :: "thr_env \<Rightarrow> nat \<Rightarrow> nat \<Rightarrow> alock \<Rightarrow> (bool \<times> alock) option" where
  "a_reschedule env cv d a =
     (if q a Read_wait = [] then Some (False, a)
      else do {
        let a = a_update_status env d (a_type d TL_WRITE_DELAYED a);
        a \<leftarrow> a_free_all False (a_cond d (Some cv) (a_push Write_wait d (a_remove Write d a)));
        Some (True, a)
      })"

lemma thr_reschedule_refines:
  assumes r: "represents lk a" and d: "d \<in> set (q a Write)"
  shows "refines (thr_reschedule_write_lock env cv d lk) (a_reschedule env cv d a)"
proof (cases "q a Read_wait = []")
  case True
  then show ?thesis using r by (simp add: thr_reschedule_write_lock_def a_reschedule_def represents_first [OF r] a_first_def)
next
  case False
  let ?lk = "call_update_status env d (set_type d TL_WRITE_DELAYED lk)" and ?a = "a_update_status env d (a_type d TL_WRITE_DELAYED a)"
  have 1: "represents ?lk ?a" by (intro represents_calls represents_sets r)
  have q': "q ?a = q a" by (simp add: a_update_status_def)
  have "represents (set_cond d (Some cv) (push_lock Write_wait d (remove_lock Write d ?lk))) (a_cond d (Some cv) (a_push Write_wait d (a_remove Write d ?a)))"
    by (intro represents_sets represents_to_front 1) (use d q' in simp)
  moreover have "q (a_cond d (Some cv) (a_push Write_wait d (a_remove Write d ?a))) Read_wait \<noteq> []"
    using False by (simp add: a_push_def a_remove_def q')
  ultimately have f: "rel_option represents (free_all_read_locks False (set_cond d (Some cv) (push_lock Write_wait d (remove_lock Write d ?lk))))
      (a_free_all False (a_cond d (Some cv) (a_push Write_wait d (a_remove Write d ?a))))" by (rule free_all_refines)
  have n: "first lk Read_wait \<noteq> None" using False represents_first [OF r, of Read_wait] by (simp add: a_first_def split: list.splits)
  show ?thesis unfolding thr_reschedule_write_lock_def a_reschedule_def Let_def if_not_P [OF False] if_not_P [OF n]
    by (rule rel_option_bindI [OF f]) simp
qed

end
