(* ===== verification/Thr_Lock_Inv.thy ===== *)
theory Thr_Lock_Inv
  imports Thr_Lock_Refine
begin

text \<open>
  The invariant of the table locks on the level of queues, and that every operation keeps it.

  \<open>H\<close> is the set of instances that their owner has after a successful call (active locks and delayed
  requests in the queue), \<open>W\<close> the instances whose thread is inside \<open>wait_for_lock\<close>, with the
  queue and whether the instance was already queued.
\<close>

type_synonym waiters = "nat \<Rightarrow> (lname \<times> bool) option"

lemma all_lname: "(\<forall>L. P L) \<longleftrightarrow> P Read_wait \<and> P Read \<and> P Write_wait \<and> P Write"
  by (metis lname.exhaust)

section \<open>The invariant\<close>

text \<open>The order in which one owner takes several write locks of a table, as the sorting in
  \<open>thr_multi_lock\<close> arranges it: the strongest first.\<close>

definition may_follow :: "thr_lock_type \<Rightarrow> thr_lock_type \<Rightarrow> bool" where
  "may_follow s t \<longleftrightarrow> t \<le> s \<and> \<not> (s = TL_WRITE_DELAYED \<and> t = TL_WRITE_CONCURRENT_INSERT)"

abbreviation exclusive :: "thr_lock_type \<Rightarrow> bool" where
  "exclusive t \<equiv> t = TL_WRITE_LOW_PRIORITY \<or> t = TL_WRITE"

text \<open>Who can have locks at the same time.\<close>

definition compatible :: "(nat \<Rightarrow> nat) \<Rightarrow> (nat \<Rightarrow> thr_lock_type) \<Rightarrow> nat list \<Rightarrow> nat list \<Rightarrow> bool" where
  "compatible ow t r w \<longleftrightarrow>
     sorted_wrt (\<lambda>x y. may_follow (t x) (t y)) w \<and>
     (\<forall>x\<in>set w. \<forall>y\<in>set w. ow x \<noteq> ow y \<longrightarrow> t x \<in> {TL_WRITE_ALLOW_WRITE, TL_WRITE_ONLY}) \<and>
     (\<forall>x\<in>set w. \<forall>y\<in>set r. exclusive (t x) \<longrightarrow> ow y = ow x) \<and>
     (\<forall>x\<in>set w. \<forall>y\<in>set r. t x = TL_WRITE_CONCURRENT_INSERT \<and> t y = TL_READ_NO_INSERT \<longrightarrow> ow y = ow x)"

lemma sorted_wrt_eq: "(\<And>x y. x \<in> set xs \<Longrightarrow> y \<in> set xs \<Longrightarrow> P x y = Q x y) \<Longrightarrow> sorted_wrt P xs = sorted_wrt Q xs"
  by (induction xs) auto

lemma compatible_eq:
  assumes "\<And>x. x \<in> set r \<union> set w \<Longrightarrow> t x = t' x \<and> ow x = ow' x"
  shows "compatible ow t r w = compatible ow' t' r w"
proof -
  have "sorted_wrt (\<lambda>x y. may_follow (t x) (t y)) w = sorted_wrt (\<lambda>x y. may_follow (t' x) (t' y)) w"
    by (rule sorted_wrt_eq) (use assms in auto)
  then show ?thesis unfolding compatible_def using assms by (simp cong: ball_cong)
qed

abbreviation read_type :: "thr_lock_type \<Rightarrow> bool" where
  "read_type t \<equiv> TL_UNLOCK < t \<and> t \<le> TL_READ_NO_INSERT"

text \<open>The fields of the instances in the lists; \<open>cs\<close> says whether \<open>check_status\<close> is set.\<close>

definition fields_ok :: "bool \<Rightarrow> alock \<Rightarrow> bool" where
  "fields_ok cs a \<longleftrightarrow>
     (\<forall>x\<in>set (q a Read_wait). read_type (ty a x) \<and> cnd a x \<noteq> None) \<and>
     (\<forall>x\<in>set (q a Read). read_type (ty a x) \<and> cnd a x = None) \<and>
     (\<forall>x\<in>set (q a Write_wait). TL_READ_NO_INSERT < ty a x \<and> ty a x \<noteq> TL_WRITE_ONLY \<and> cnd a x \<noteq> None \<and>
        (ty a x = TL_WRITE_CONCURRENT_INSERT \<longrightarrow> cs)) \<and>
     (\<forall>x\<in>set (q a Write). TL_READ_NO_INSERT < ty a x \<and> cnd a x = None)"

text \<open>Where the instances are that somebody uses.\<close>

definition placed :: "alock \<Rightarrow> nat set \<Rightarrow> waiters \<Rightarrow> bool" where
  "placed a H W \<longleftrightarrow>
     (\<forall>x\<in>H. W x = None) \<and>
     (\<forall>L. \<forall>x\<in>set (q a L). (x \<in> H \<or> W x \<noteq> None) \<and> x < 2147483648) \<and>
     (\<forall>x. (x \<in> H \<or> W x \<noteq> None) \<and> (\<forall>L. x \<notin> set (q a L)) \<longrightarrow> ty a x = TL_UNLOCK \<and> cnd a x = None) \<and>
     (\<forall>x\<in>set (q a Read_wait). W x = Some (Read_wait, False)) \<and>
     (\<forall>x\<in>set (q a Write_wait). if x \<in> H then ty a x = TL_WRITE_DELAYED else (\<exists>b. W x = Some (Write_wait, b)))"

definition disjoint_queues :: "alock \<Rightarrow> bool" where
  "disjoint_queues a \<longleftrightarrow> (\<forall>L. distinct (q a L)) \<and> (\<forall>L L'. L \<noteq> L' \<longrightarrow> set (q a L) \<inter> set (q a L') = {})"

definition counted :: "alock \<Rightarrow> bool" where
  "counted a \<longleftrightarrow> rnwc a = length (filter (\<lambda>x. ty a x = TL_READ_NO_INSERT) (q a Read))"

text \<open>Without the last clause: somebody waits only while a lock is active.\<close>

definition safe :: "bool \<Rightarrow> alock \<Rightarrow> nat set \<Rightarrow> waiters \<Rightarrow> bool" where
  "safe cs a H W \<longleftrightarrow> disjoint_queues a \<and> fields_ok cs a \<and> placed a H W \<and> counted a \<and> compatible (own a) (ty a) (q a Read) (q a Write)"

definition no_lost_wakeup :: "alock \<Rightarrow> bool" where
  "no_lost_wakeup a \<longleftrightarrow> (q a Read = [] \<and> q a Write = [] \<longrightarrow> q a Read_wait = [] \<and> q a Write_wait = [])"

definition lock_inv :: "bool \<Rightarrow> alock \<Rightarrow> nat set \<Rightarrow> waiters \<Rightarrow> bool" where
  "lock_inv cs a H W \<longleftrightarrow> safe cs a H W \<and> no_lost_wakeup a"

lemmas safe_defs = safe_def disjoint_queues_def fields_ok_def placed_def counted_def compatible_def

section \<open>Freeing read locks\<close>

abbreviation stays :: "bool \<Rightarrow> alock \<Rightarrow> nat \<Rightarrow> bool" where
  "stays ci a x \<equiv> ty a x = TL_READ_NO_INSERT \<and> ci"

text \<open>What the loop does, when every instance waits.\<close>

definition freed :: "bool \<Rightarrow> nat list \<Rightarrow> alock \<Rightarrow> alock \<Rightarrow> bool" where
  "freed ci ds a a' \<longleftrightarrow>
     q a' = (q a)(Read := q a Read @ filter (\<lambda>x. \<not> stays ci a x) ds, Read_wait := q a Read_wait @ filter (stays ci a) ds) \<and>
     own a' = own a \<and> ty a' = ty a \<and> par a' = par a \<and>
     cnd a' = (\<lambda>x. if x \<in> set ds \<and> \<not> stays ci a x then None else cnd a x) \<and>
     rnwc a' = rnwc a + length (filter (\<lambda>x. ty a x = TL_READ_NO_INSERT) (filter (\<lambda>x. \<not> stays ci a x) ds))"

lemma a_free_loop_effect:
  assumes "\<forall>x\<in>set ds. cnd a x \<noteq> None" "distinct ds" "rnwc a + length ds < UINT_RANGE"
  shows "\<exists>a'. a_free_loop ci ds a = Some a' \<and> freed ci ds a a'"
  using assms
proof (induction ds arbitrary: a)
  case Nil
  show ?case by (simp add: freed_def)
next
  case (Cons d ds)
  show ?case
  proof (cases "stays ci a d")
    case True
    let ?a = "a_append Read_wait d a"
    have f: "own ?a = own a" "ty ?a = ty a" "q ?a = (q a)(Read_wait := q a Read_wait @ [d])" "cnd ?a = cnd a" "rnwc ?a = rnwc a" "par ?a = par a"
      by (simp_all add: a_defs)
    obtain a' where "a_free_loop ci ds ?a = Some a'" "freed ci ds ?a a'" using Cons.IH [of ?a] Cons.prems f by auto
    then show ?thesis using True Cons.prems(2)
      by (intro exI [of _ a']) (simp add: freed_def f fun_eq_iff)
  next
    case False
    obtain c where c: "cnd a d = Some c" using Cons.prems(1) by auto
    let ?a = "a_emit (Signal c) (a_cond d None (a_count (ty a d) (a_append Read d a)))"
    have w: "a_wake d (a_count (ty a d) (a_append Read d a)) = Some ?a" using c by (simp add: a_wake_def a_count_def a_append_def)
    have f: "own ?a = own a" "ty ?a = ty a" "q ?a = (q a)(Read := q a Read @ [d])" "cnd ?a = (cnd a)(d := None)"
      "rnwc ?a = rnwc a + (if ty a d = TL_READ_NO_INSERT then 1 else 0)" "par ?a = par a"
      using Cons.prems(3) by (simp_all add: a_defs)
    have "\<forall>x\<in>set ds. cnd ?a x \<noteq> None" using Cons.prems(1,2) unfolding f by auto
    moreover have "rnwc ?a + length ds < UINT_RANGE" using Cons.prems(3) unfolding f by auto
    ultimately obtain a' where a': "a_free_loop ci ds ?a = Some a'" "freed ci ds ?a a'" using Cons.IH [of ?a] Cons.prems(2) by auto
    have "a_free_loop ci (d # ds) a = a_free_loop ci ds ?a"
      unfolding a_free_loop.simps if_not_P [OF False] w by simp
    moreover have "freed ci (d # ds) a a'"
      using a'(2) [unfolded freed_def f] False by (auto simp: freed_def fun_eq_iff)
    ultimately show ?thesis using a'(1) by auto
  qed
qed

lemma a_free_all_effect:
  assumes "\<forall>x\<in>set (q a Read_wait). cnd a x \<noteq> None" "distinct (q a Read_wait)" "rnwc a + length (q a Read_wait) < UINT_RANGE"
  shows "\<exists>a'. a_free_all ci a = Some a' \<and> freed ci (q a Read_wait) (a\<lparr>q := (q a)(Read_wait := [])\<rparr>) a'"
proof -
  let ?a = "a\<lparr>q := (q a)(Read_wait := [])\<rparr>"
  obtain a' where "a_free_loop ci (q a Read_wait) ?a = Some a'" "freed ci (q a Read_wait) ?a a'"
    using a_free_loop_effect [of "q a Read_wait" ?a ci] assms by auto
  then show ?thesis by (auto simp: a_free_all_def freed_def)
qed

text \<open>Counting: the lists are short because the instances are distinct and numbered below a bound.\<close>

lemma safe_length:
  assumes "safe cs a H W"
  shows "length (q a Read) + length (q a Read_wait) \<le> 2147483648"
proof -
  have "distinct (q a L)" "L \<noteq> L' \<Longrightarrow> set (q a L) \<inter> set (q a L') = {}" "\<forall>x\<in>set (q a L). x < 2147483648" for L L'
    using assms unfolding safe_def disjoint_queues_def placed_def by blast+
  then have d: "distinct (q a Read @ q a Read_wait)" and b: "set (q a Read @ q a Read_wait) \<subseteq> {..<2147483648}" by auto
  have "length (q a Read @ q a Read_wait) = card (set (q a Read @ q a Read_wait))" using distinct_card [OF d] by simp
  also have "\<dots> \<le> card {..<2147483648 :: nat}" by (rule card_mono [OF _ b]) simp
  finally show ?thesis by simp
qed

lemma safe_count:
  assumes "safe cs a H W"
  shows "rnwc a + length (q a Read_wait) < UINT_RANGE"
proof -
  have "rnwc a \<le> length (q a Read)" using assms by (simp add: safe_def counted_def)
  then show ?thesis using safe_length [OF assms] by linarith
qed

text \<open>Freeing keeps the state safe if the active write locks admit the readers.\<close>

lemma freed_safe:
  assumes s: "safe cs a H W" and f: "freed ci (q a Read_wait) (a\<lparr>q := (q a)(Read_wait := [])\<rparr>) a'"
    and w: "\<forall>x\<in>set (q a Write). \<not> exclusive (ty a x) \<and> (ty a x = TL_WRITE_CONCURRENT_INSERT \<longrightarrow> ci)"
  shows "safe cs a' H W"
proof -
  let ?go = "filter (\<lambda>x. \<not> stays ci a x) (q a Read_wait)" and ?st = "filter (stays ci a) (q a Read_wait)"
  have q': "q a' Read = q a Read @ ?go" "q a' Read_wait = ?st" "q a' Write = q a Write" "q a' Write_wait = q a Write_wait"
    and e: "own a' = own a" "ty a' = ty a" "cnd a' = (\<lambda>x. if x \<in> set (q a Read_wait) \<and> \<not> stays ci a x then None else cnd a x)"
      "rnwc a' = rnwc a + length (filter (\<lambda>x. ty a x = TL_READ_NO_INSERT) ?go)"
    using f by (auto simp: freed_def)
  have dq: "distinct (q a L)" "L \<noteq> L' \<Longrightarrow> set (q a L) \<inter> set (q a L') = {}" for L L'
    using s unfolding safe_def disjoint_queues_def by blast+
  have all: "set (q a' L) \<subseteq> set (q a L) \<union> set (q a Read_wait)" for L using q' by (cases L) auto
  show ?thesis unfolding safe_def
  proof (intro conjI)
    show "disjoint_queues a'" unfolding disjoint_queues_def
    proof (intro conjI allI impI)
      fix L show "distinct (q a' L)" using q' dq(1) dq(2) [of Read Read_wait] by (cases L) auto
    next
      fix L L' :: lname assume "L \<noteq> L'"
      then show "set (q a' L) \<inter> set (q a' L') = {}"
        using dq(2) [of Read Read_wait] dq(2) [of Read Write] dq(2) [of Read Write_wait] dq(2) [of Read_wait Write] dq(2) [of Read_wait Write_wait] dq(2) [of Write Write_wait]
        by (cases L; cases L') (auto simp: q')
    qed
    have n: "x \<in> set (q a Read_wait) \<Longrightarrow> x \<notin> set (q a L)" if "L \<noteq> Read_wait" for x L using dq(2) [OF that] by auto
    show "fields_ok cs a'" using s n [of Read] n [of Write] n [of Write_wait] unfolding safe_def fields_ok_def q' e by auto
    have un: "(\<forall>L. x \<notin> set (q a' L)) \<longleftrightarrow> (\<forall>L. x \<notin> set (q a L))" for x
      unfolding all_lname q' by auto
    have pl: "(\<forall>x\<in>H. W x = None)" "\<And>L x. x \<in> set (q a L) \<Longrightarrow> (x \<in> H \<or> W x \<noteq> None) \<and> x < 2147483648"
      "\<And>x. (x \<in> H \<or> W x \<noteq> None) \<Longrightarrow> (\<forall>L. x \<notin> set (q a L)) \<Longrightarrow> ty a x = TL_UNLOCK \<and> cnd a x = None"
      "\<And>x. x \<in> set (q a Read_wait) \<Longrightarrow> W x = Some (Read_wait, False)"
      "\<And>x. x \<in> set (q a Write_wait) \<Longrightarrow> if x \<in> H then ty a x = TL_WRITE_DELAYED else (\<exists>b. W x = Some (Write_wait, b))"
      using s unfolding safe_def placed_def by blast+
    show "placed a' H W" unfolding placed_def
    proof (intro conjI allI ballI impI)
      fix L x assume "x \<in> set (q a' L)"
      then have "x \<in> set (q a L) \<or> x \<in> set (q a Read_wait)" using all by auto
      then show "x \<in> H \<or> W x \<noteq> None" "x < 2147483648" using pl(2) by blast+
    next
      fix x assume "(x \<in> H \<or> W x \<noteq> None) \<and> (\<forall>L. x \<notin> set (q a' L))"
      then show "ty a' x = TL_UNLOCK" "cnd a' x = None" using pl(3) [of x] un [of x] e by auto
    qed (use pl q' e in auto)
    show "counted a'" using s unfolding counted_def e q' safe_def by simp
    show "compatible (own a') (ty a') (q a' Read) (q a' Write)" using s w unfolding safe_def compatible_def q' e by auto
  qed
qed

section \<open>Granting write locks\<close>

definition granted :: "nat list \<Rightarrow> nat list \<Rightarrow> alock \<Rightarrow> alock \<Rightarrow> bool" where
  "granted gs rest a a' \<longleftrightarrow>
     q a' = (q a)(Write := q a Write @ gs, Write_wait := rest) \<and> own a' = own a \<and> par a' = par a \<and> rnwc a' = rnwc a \<and>
     cnd a' = (\<lambda>x. if x \<in> set gs then None else cnd a x)"

lemma granted_trans:
  "granted [d] ds a a1 \<Longrightarrow> granted gs rest a1 a2 \<Longrightarrow> granted (d # gs) rest a a2"
  by (auto simp: granted_def fun_eq_iff)

lemma move_wake:
  assumes "q a Write_wait = d # ds" "distinct (d # ds)" "cnd a d \<noteq> None"
  shows "\<exists>a'. a_wake d (a_move d a) = Some a' \<and> granted [d] ds a a' \<and> ty a' = ty a"
    "\<exists>a'. a_wake d (a_type d TL_WRITE (a_move d a)) = Some a' \<and> granted [d] ds a a' \<and> ty a' = (ty a)(d := TL_WRITE)"
  using assms by (auto simp: a_wake_def a_move_def granted_def a_defs fun_eq_iff)

lemma a_start_effect:
  assumes "q a Write_wait = d # ds" "distinct (d # ds)" "\<forall>x\<in>set (d # ds). cnd a x \<noteq> None"
  shows "\<exists>gs rest a'. a_start t (d # ds) a = Some a' \<and> d # ds = (d # gs) @ rest \<and> granted (d # gs) rest a a' \<and> ty a' = ty a \<and>
    (gs = [] \<or> t = TL_WRITE_ALLOW_WRITE \<and> (\<forall>x\<in>set gs. ty a x = TL_WRITE_ALLOW_WRITE))"
  using assms
proof (induction ds arbitrary: a d)
  case Nil
  obtain a1 where "a_wake d (a_move d a) = Some a1" "granted [d] [] a a1" "ty a1 = ty a" using move_wake(1) [of a d "[]"] Nil by auto
  then show ?case by (intro exI [of _ "[]"] exI [of _ a1]) simp
next
  case (Cons n ds)
  obtain a1 where a1: "a_wake d (a_move d a) = Some a1" "granted [d] (n # ds) a a1" "ty a1 = ty a"
    using move_wake(1) [of a d "n # ds"] Cons.prems by auto
  show ?case
  proof (cases "t = TL_WRITE_ALLOW_WRITE \<and> ty a n = TL_WRITE_ALLOW_WRITE")
    case False
    then have "a_start t (d # n # ds) a = Some a1" using a1 by auto
    then show ?thesis using a1 by (intro exI [of _ "[]"] exI [of _ "n # ds"] exI [of _ a1]) simp
  next
    case True
    have "q a1 Write_wait = n # ds" "\<forall>x\<in>set (n # ds). cnd a1 x \<noteq> None" using a1(2) Cons.prems by (auto simp: granted_def)
    then obtain gs rest a2 where a2: "a_start t (n # ds) a1 = Some a2" "n # ds = (n # gs) @ rest" "granted (n # gs) rest a1 a2" "ty a2 = ty a1"
      "gs = [] \<or> t = TL_WRITE_ALLOW_WRITE \<and> (\<forall>x\<in>set gs. ty a1 x = TL_WRITE_ALLOW_WRITE)" using Cons.IH [of a1 n] Cons.prems(2) by auto
    have "a_start t (d # n # ds) a = a_start t (n # ds) a1"
      unfolding a_start.simps(2) [of t d "n # ds"] a1(1) using True a1(3) by (simp del: a_start.simps)
    then show ?thesis using a2 granted_trans [OF a1(2) a2(3)] True a1(3)
      by (intro exI [of _ "n # gs"] exI [of _ rest] exI [of _ a2]) auto
  qed
qed

lemma a_give_effect:
  assumes "q a Write_wait = d # ds" "distinct (d # ds)" "\<forall>x\<in>set (d # ds). cnd a x \<noteq> None"
    "ty a d = TL_WRITE_CONCURRENT_INSERT \<Longrightarrow> check_status env \<noteq> None"
  shows "\<exists>gs rest a'. a_give env (d # ds) a = Some (last (d # gs), a') \<and> d # ds = (d # gs) @ rest \<and> granted (d # gs) rest a a' \<and>
    (ty a' = ty a \<and> (gs = [] \<or> (\<forall>x\<in>set (d # gs). ty a x = TL_WRITE_ALLOW_WRITE)) \<or>
     gs = [] \<and> ty a d = TL_WRITE_CONCURRENT_INSERT \<and> ty a' = (ty a)(d := TL_WRITE))"
  using assms
proof (induction ds arbitrary: a d)
  case (Nil a d)
  have "\<exists>a1. a_give env [d] a = Some (d, a1) \<and> granted [d] [] a a1 \<and>
      (ty a1 = ty a \<or> ty a d = TL_WRITE_CONCURRENT_INSERT \<and> ty a1 = (ty a)(d := TL_WRITE))"
    using move_wake [of a d "[]"] Nil by (auto simp: a_check_status_def a_move_def a_append_def a_remove_def Let_def)
  then show ?case by (metis append_Nil2 last.simps)
next
  case (Cons n ds)
  let ?up = "ty a d = TL_WRITE_CONCURRENT_INSERT \<and> a_check_status env d (a_move d a) = Some True"
  obtain a1 where a1: "granted [d] (n # ds) a a1" "ty a1 = (if ?up then (ty a)(d := TL_WRITE) else ty a)"
    "a_give env (d # n # ds) a = (if ty a1 d \<noteq> TL_WRITE_ALLOW_WRITE \<or> ty a1 n \<noteq> TL_WRITE_ALLOW_WRITE then Some (d, a1) else a_give env (n # ds) a1)"
  proof (cases ?up)
    case True
    then show ?thesis using that move_wake(2) [of a d "n # ds"] Cons.prems
      by (auto simp: a_move_def a_append_def a_remove_def Let_def)
  next
    case False
    have "(if ty (a_move d a) d = TL_WRITE_CONCURRENT_INSERT then a_check_status env d (a_move d a) else Some False) = Some False"
      using False Cons.prems(4) by (auto simp: a_check_status_def a_move_def a_append_def a_remove_def split: option.splits)
    moreover obtain a1 where "a_wake d (a_move d a) = Some a1 \<and> granted [d] (n # ds) a a1 \<and> ty a1 = ty a"
      using move_wake(1) [of a d "n # ds"] Cons.prems by auto
    ultimately show ?thesis using that [of a1] False unfolding a_give.simps(2) [of env d "n # ds"] Let_def by simp
  qed
  show ?case
  proof (cases "ty a1 d \<noteq> TL_WRITE_ALLOW_WRITE \<or> ty a1 n \<noteq> TL_WRITE_ALLOW_WRITE")
    case True
    then show ?thesis using a1 by (intro exI [of _ "[]"] exI [of _ "n # ds"] exI [of _ a1]) auto
  next
    case False
    then have t: "ty a1 = ty a" "ty a d = TL_WRITE_ALLOW_WRITE" "ty a n = TL_WRITE_ALLOW_WRITE" using a1(2) by (auto split: if_splits)
    have "q a1 Write_wait = n # ds" "\<forall>x\<in>set (n # ds). cnd a1 x \<noteq> None" using a1(1) Cons.prems by (auto simp: granted_def)
    then obtain gs rest a2 where a2: "a_give env (n # ds) a1 = Some (last (n # gs), a2)" "n # ds = (n # gs) @ rest" "granted (n # gs) rest a1 a2"
      "ty a2 = ty a1 \<and> (gs = [] \<or> (\<forall>x\<in>set (n # gs). ty a1 x = TL_WRITE_ALLOW_WRITE)) \<or>
       gs = [] \<and> ty a1 n = TL_WRITE_CONCURRENT_INSERT \<and> ty a2 = (ty a1)(n := TL_WRITE)" using Cons.IH [of a1 n] Cons.prems(2) t by auto
    have "a_give env (d # n # ds) a = Some (last (d # n # gs), a2)" using False a1(3) a2(1) by simp
    then show ?thesis using a2(2,4) granted_trans [OF a1(1) a2(3)] t by (intro exI [of _ "n # gs"] exI [of _ rest] exI [of _ a2]) auto
  qed
qed

text \<open>The parts of safety as rules.\<close>

lemma safeD:
  assumes "safe cs a H W"
  shows "distinct (q a L)" "L \<noteq> L' \<Longrightarrow> set (q a L) \<inter> set (q a L') = {}" "fields_ok cs a" "counted a"
    "compatible (own a) (ty a) (q a Read) (q a Write)" "placed a H W"
  using assms unfolding safe_def disjoint_queues_def by blast+

lemma placedD:
  assumes "placed a H W"
  shows "x \<in> H \<Longrightarrow> W x = None" "x \<in> set (q a L) \<Longrightarrow> x \<in> H \<or> W x \<noteq> None" "x \<in> set (q a L) \<Longrightarrow> x < 2147483648"
    "x \<in> H \<or> W x \<noteq> None \<Longrightarrow> \<forall>L. x \<notin> set (q a L) \<Longrightarrow> ty a x = TL_UNLOCK \<and> cnd a x = None"
    "x \<in> set (q a Read_wait) \<Longrightarrow> W x = Some (Read_wait, False)"
    "x \<in> set (q a Write_wait) \<Longrightarrow> if x \<in> H then ty a x = TL_WRITE_DELAYED else (\<exists>b. W x = Some (Write_wait, b))"
  using assms unfolding placed_def by blast+

lemma fieldsD:
  assumes "fields_ok cs a"
  shows "x \<in> set (q a Read_wait) \<Longrightarrow> read_type (ty a x) \<and> cnd a x \<noteq> None"
    "x \<in> set (q a Read) \<Longrightarrow> read_type (ty a x) \<and> cnd a x = None"
    "x \<in> set (q a Write_wait) \<Longrightarrow> TL_READ_NO_INSERT < ty a x \<and> ty a x \<noteq> TL_WRITE_ONLY \<and> cnd a x \<noteq> None \<and>
       (ty a x = TL_WRITE_CONCURRENT_INSERT \<longrightarrow> cs)"
    "x \<in> set (q a Write) \<Longrightarrow> TL_READ_NO_INSERT < ty a x \<and> cnd a x = None"
  using assms unfolding fields_ok_def by blast+

text \<open>The instances that get the write lock when none is active.\<close>

definition startable :: "alock \<Rightarrow> nat list \<Rightarrow> alock \<Rightarrow> bool" where
  "startable a gs a' \<longleftrightarrow>
     (\<forall>x. x \<notin> set gs \<longrightarrow> ty a' x = ty a x) \<and> (\<forall>x\<in>set gs. TL_READ_NO_INSERT < ty a' x \<and> ty a' x \<noteq> TL_UNLOCK) \<and>
     (length gs = 1 \<or> (\<forall>x\<in>set gs. ty a' x = TL_WRITE_ALLOW_WRITE)) \<and>
     (\<forall>x\<in>set gs. exclusive (ty a' x) \<longrightarrow> q a Read = []) \<and>
     (\<forall>x\<in>set gs. \<forall>y\<in>set (q a Read). ty a' x = TL_WRITE_CONCURRENT_INSERT \<longrightarrow> ty a y \<noteq> TL_READ_NO_INSERT)"

lemma granted_safe:
  assumes s: "safe cs a H W" and w: "q a Write = []" "q a Write_wait = gs @ rest" and g: "granted gs rest a a'" and st: "startable a gs a'"
  shows "safe cs a' H W"
proof -
  have q': "q a' Read = q a Read" "q a' Read_wait = q a Read_wait" "q a' Write = gs" "q a' Write_wait = rest"
    and e: "own a' = own a" "cnd a' = (\<lambda>x. if x \<in> set gs then None else cnd a x)" "rnwc a' = rnwc a"
    using g w by (auto simp: granted_def)
  note dq = safeD(1,2) [OF s]
  have dg: "distinct (gs @ rest)" using dq(1) [of Write_wait] w by simp
  have n: "L \<noteq> Write_wait \<Longrightarrow> x \<in> set (q a L) \<Longrightarrow> x \<notin> set gs" "x \<in> set rest \<Longrightarrow> x \<notin> set gs" for x L
    using dq(2) [of L Write_wait] w(2) dg by auto
  have ty': "x \<notin> set gs \<Longrightarrow> ty a' x = ty a x" for x using st by (simp add: startable_def)
  show ?thesis unfolding safe_def
  proof (intro conjI)
    show "disjoint_queues a'" unfolding disjoint_queues_def
    proof (intro conjI allI impI)
      fix L show "distinct (q a' L)" using q' dq(1) dg by (cases L) auto
    next
      fix L L' :: lname assume "L \<noteq> L'"
      then show "set (q a' L) \<inter> set (q a' L') = {}"
        using dq(2) [of Read Read_wait] dq(2) [of Read Write_wait] dq(2) [of Read_wait Write_wait] dg w
        by (cases L; cases L') (auto simp: q')
    qed
    note fo = fieldsD [OF safeD(3) [OF s]]
    have st2: "x \<in> set gs \<Longrightarrow> TL_READ_NO_INSERT < ty a' x" for x using st by (simp add: startable_def)
    show "fields_ok cs a'" unfolding fields_ok_def q' e
    proof (intro conjI ballI)
      fix x assume "x \<in> set (q a Read_wait)"
      then show "TL_UNLOCK < ty a' x" "ty a' x \<le> TL_READ_NO_INSERT" "(if x \<in> set gs then None else cnd a x) \<noteq> None"
        using fo(1) [of x] n(1) [of Read_wait x] ty' [of x] by simp_all
    next
      fix x assume "x \<in> set (q a Read)"
      then show "TL_UNLOCK < ty a' x" "ty a' x \<le> TL_READ_NO_INSERT" "(if x \<in> set gs then None else cnd a x) = None"
        using fo(2) [of x] n(1) [of Read x] ty' [of x] by simp_all
    next
      fix x assume "x \<in> set rest"
      then show "TL_READ_NO_INSERT < ty a' x" "ty a' x \<noteq> TL_WRITE_ONLY" "(if x \<in> set gs then None else cnd a x) \<noteq> None"
        "ty a' x = TL_WRITE_CONCURRENT_INSERT \<longrightarrow> cs"
        using fo(3) [of x] n(2) [of x] ty' [of x] w(2) by simp_all
    qed (use st2 in simp_all)
    show "counted a'"
    proof -
      have "filter (\<lambda>x. ty a' x = TL_READ_NO_INSERT) (q a Read) = filter (\<lambda>x. ty a x = TL_READ_NO_INSERT) (q a Read)"
        using n(1) [of Read] ty' by (intro filter_cong) auto
      then show ?thesis using safeD(4) [OF s] unfolding counted_def q' e by simp
    qed
    have "length gs = 1 \<or> (\<forall>x\<in>set gs. ty a' x = TL_WRITE_ALLOW_WRITE)" using st by (simp add: startable_def)
    then consider x where "gs = [x]" | "\<forall>x\<in>set gs. ty a' x = TL_WRITE_ALLOW_WRITE" by (auto simp: length_Suc_conv)
    then have sg: "sorted_wrt (\<lambda>x y. may_follow (ty a' x) (ty a' y)) gs \<and>
        (\<forall>x\<in>set gs. \<forall>y\<in>set gs. own a x \<noteq> own a y \<longrightarrow> ty a' x \<in> {TL_WRITE_ALLOW_WRITE, TL_WRITE_ONLY})"
    proof cases
      case 2
      have "sorted_wrt (\<lambda>x y. may_follow (ty a' x) (ty a' y)) gs"
        by (rule sorted_wrt_mono_rel [of gs "\<lambda>_ _. True"]) (use 2 in \<open>auto simp: may_follow_def sorted_wrt_true\<close>)
      then show ?thesis using 2 by simp
    qed simp
    have rt: "y \<in> set (q a Read) \<Longrightarrow> ty a' y = ty a y" for y using n(1) [of Read y] ty' by simp
    have st3: "x \<in> set gs \<Longrightarrow> exclusive (ty a' x) \<Longrightarrow> q a Read = []"
      "x \<in> set gs \<Longrightarrow> y \<in> set (q a Read) \<Longrightarrow> ty a' x = TL_WRITE_CONCURRENT_INSERT \<Longrightarrow> ty a y \<noteq> TL_READ_NO_INSERT" for x y
      using st unfolding startable_def by blast+
    show "compatible (own a') (ty a') (q a' Read) (q a' Write)"
      unfolding compatible_def q' e
    proof (intro conjI ballI impI)
      fix x y assume "x \<in> set gs" "y \<in> set (q a Read)" "exclusive (ty a' x)"
      then show "own a y = own a x" using st3(1) [of x] by simp
    next
      fix x y assume "x \<in> set gs" "y \<in> set (q a Read)" "ty a' x = TL_WRITE_CONCURRENT_INSERT \<and> ty a' y = TL_READ_NO_INSERT"
      then show "own a y = own a x" using st3(2) [of x y] rt [of y] by simp
    next
      fix x y assume "x \<in> set gs" "y \<in> set gs" "own a x \<noteq> own a y"
      then show "ty a' x \<in> {TL_WRITE_ALLOW_WRITE, TL_WRITE_ONLY}" using sg by blast
    qed (use sg in simp)
    note p = placedD [OF safeD(6) [OF s]]
    have un: "(\<forall>L. x \<notin> set (q a' L)) \<longleftrightarrow> (\<forall>L. x \<notin> set (q a L))" for x
      unfolding all_lname q' using w by auto
    show "placed a' H W" unfolding placed_def
    proof (intro conjI allI ballI impI)
      fix L x assume "x \<in> set (q a' L)"
      then have "\<not> (\<forall>L. x \<notin> set (q a L))" using un [of x] by blast
      then show "x \<in> H \<or> W x \<noteq> None" "x < 2147483648" using p(2,3) by blast+
    next
      fix x assume x: "(x \<in> H \<or> W x \<noteq> None) \<and> (\<forall>L. x \<notin> set (q a' L))"
      then have "x \<notin> set gs" using q' by blast
      then show "ty a' x = TL_UNLOCK" "cnd a' x = None" using p(4) [of x] un [of x] x e ty' by auto
    next
      fix x assume "x \<in> set (q a' Write_wait)"
      then have "x \<in> set (q a Write_wait)" "x \<notin> set gs" using q' w n(2) by auto
      then show "if x \<in> H then ty a' x = TL_WRITE_DELAYED else (\<exists>b. W x = Some (Write_wait, b))" using p(6) [of x] ty' by auto
    qed (use p q' in auto)
  qed
qed

lemma a_free_waiting_inv:
  assumes s: "safe cs a H W"
    and w: "\<forall>x\<in>set (q a Write). \<not> exclusive (ty a x) \<and> (ty a x = TL_WRITE_CONCURRENT_INSERT \<longrightarrow> ci)"
  shows "\<exists>a'. a_free_waiting ci a = Some a' \<and> safe cs a' H W \<and> q a' Write = q a Write \<and> q a' Write_wait = q a Write_wait \<and>
    ty a' = ty a \<and> (\<not> ci \<longrightarrow> q a' Read_wait = []) \<and> set (q a Read) \<subseteq> set (q a' Read) \<and>
    (\<not> ci \<and> q a Read_wait \<noteq> [] \<longrightarrow> q a' Read \<noteq> [])"
proof (cases "q a Read_wait = []")
  case True
  then show ?thesis using s by (auto simp: a_free_waiting_def)
next
  case False
  obtain a' where a': "a_free_all ci a = Some a'" "freed ci (q a Read_wait) (a\<lparr>q := (q a)(Read_wait := [])\<rparr>) a'"
    using a_free_all_effect [of a ci] safeD(1,3) [OF s] safe_count [OF s] by (auto simp: fields_ok_def)
  have "safe cs a' H W" by (rule freed_safe [OF s a'(2) w])
  then show ?thesis using a' False by (auto simp: a_free_waiting_def freed_def)
qed

section \<open>Scheduling\<close>

lemma safe_wlc [simp]: "safe cs (a\<lparr>wlc := n\<rparr>) H W = safe cs a H W"
  by (simp add: safe_defs)

text \<open>A waiting write lock gets another type, and perhaps is now waited for.\<close>

lemma safe_requeue:
  assumes s: "safe cs a H W" and d: "d \<in> set (q a Write_wait)" and t: "exclusive (ty a' d)" "cnd a' d \<noteq> None"
    and f: "q a' = q a" "own a' = own a" "rnwc a' = rnwc a" "\<And>x. x \<noteq> d \<Longrightarrow> ty a' x = ty a x \<and> cnd a' x = cnd a x"
    and HW: "\<And>x. x \<noteq> d \<Longrightarrow> (x \<in> H' \<longleftrightarrow> x \<in> H) \<and> W' x = W x" "d \<notin> H'" "W' d = Some (Write_wait, b)"
  shows "safe cs a' H' W'"
proof -
  note dq = safeD(1,2) [OF s] and fo = fieldsD [OF safeD(3) [OF s]] and p = placedD [OF safeD(6) [OF s]]
  have n: "x \<in> set (q a L) \<Longrightarrow> L \<noteq> Write_wait \<Longrightarrow> x \<noteq> d" for x L using dq(2) [of L Write_wait] d by auto
  have tt: "TL_READ_NO_INSERT < ty a' d" "ty a' d \<noteq> TL_WRITE_ONLY" "ty a' d \<noteq> TL_WRITE_CONCURRENT_INSERT" using t by (auto simp: type_order)
  have "compatible (own a) (ty a') (q a Read) (q a Write) = compatible (own a) (ty a) (q a Read) (q a Write)"
    by (rule compatible_eq) (use n [of _ Read] n [of _ Write] f in auto)
  moreover have "filter (\<lambda>x. ty a' x = TL_READ_NO_INSERT) (q a Read) = filter (\<lambda>x. ty a x = TL_READ_NO_INSERT) (q a Read)"
    using n [of _ Read] f by (intro filter_cong) auto
  moreover have "fields_ok cs a'" unfolding fields_ok_def f(1)
  proof (intro conjI ballI)
    { fix x assume "x \<in> set (q a Read_wait)"
      then show "TL_UNLOCK < ty a' x" "ty a' x \<le> TL_READ_NO_INSERT" "cnd a' x \<noteq> None" using fo(1) [of x] f(4) n by auto }
    { fix x assume "x \<in> set (q a Read)"
      then show "TL_UNLOCK < ty a' x" "ty a' x \<le> TL_READ_NO_INSERT" "cnd a' x = None" using fo(2) [of x] f(4) n by auto }
    { fix x assume "x \<in> set (q a Write)"
      then show "TL_READ_NO_INSERT < ty a' x" "cnd a' x = None" using fo(4) [of x] f(4) n by auto }
    { fix x assume "x \<in> set (q a Write_wait)"
      then show "TL_READ_NO_INSERT < ty a' x" "ty a' x \<noteq> TL_WRITE_ONLY" "cnd a' x \<noteq> None" "ty a' x = TL_WRITE_CONCURRENT_INSERT \<longrightarrow> cs"
        using fo(3) [of x] f(4) [of x] tt t(2) by (cases "x = d"; simp)+ }
  qed
  moreover have "placed a' H' W'" unfolding placed_def f(1)
  proof (intro conjI allI ballI impI)
    fix x assume "x \<in> H'" then show "W' x = None" using HW(1) [of x] HW(2) p(1) by (cases "x = d") auto
  next
    fix L x assume "x \<in> set (q a L)"
    then show "x \<in> H' \<or> W' x \<noteq> None" "x < 2147483648" using p(2,3) [of x L] HW(1) [of x] HW(3) by (cases "x = d"; auto)+
  next
    fix x assume x: "(x \<in> H' \<or> W' x \<noteq> None) \<and> (\<forall>L. x \<notin> set (q a L))"
    then have "x \<noteq> d" using d by auto
    then show "ty a' x = TL_UNLOCK" "cnd a' x = None" using p(4) [of x] x HW(1) [of x] f(4) [of x] by auto
  next
    fix x assume "x \<in> set (q a Read_wait)"
    then show "W' x = Some (Read_wait, False)" using p(5) [of x] HW(1) [of x] n [of x Read_wait] by auto
  next
    fix x assume "x \<in> set (q a Write_wait)"
    then show "if x \<in> H' then ty a' x = TL_WRITE_DELAYED else (\<exists>b. W' x = Some (Write_wait, b))"
      using p(6) [of x] HW(1) [of x] HW(2,3) f(4) [of x] by (cases "x = d") auto
  qed
  ultimately show ?thesis using s unfolding safe_def disjoint_queues_def counted_def f by simp
qed

lemma a_free_all_waiting: "q a Read_wait \<noteq> [] \<Longrightarrow> a_free_all ci a = a_free_waiting ci a"
  by (simp add: a_free_waiting_def)

lemma a_idle_inv:
  assumes s: "safe cs a H W" and e: "q a Read = []" "q a Write = []" and c: "check_status env \<noteq> None \<longleftrightarrow> cs"
  shows "\<exists>a'. a_idle env a = Some a' \<and> lock_inv cs a' H W"
proof -
  have free: "\<exists>a'. a_free_waiting False b = Some a' \<and> lock_inv cs a' H W"
    if "safe cs b H W" "q b Write = []" "q b Read_wait = [] \<Longrightarrow> q b Write_wait = []" for b
    using a_free_waiting_inv [OF that(1), of False] that by (fastforce simp: lock_inv_def no_lost_wakeup_def a_free_waiting_def)
  show ?thesis
  proof (cases "q a Write_wait")
    case Nil
    then show ?thesis using free [OF s e(2)] by (simp add: a_idle_def)
  next
    case (Cons d ds)
    let ?many = "max_write_lock_count env < wlc a"
    let ?a = "a\<lparr>wlc := if ?many then 0 else (wlc a + 1) mod ULONG_RANGE\<rparr>"
    have s': "safe cs ?a H W" and q': "q ?a = q a" "ty ?a = ty a" using s by simp_all
    have d: "d \<in> set (q a Write_wait)" using Cons by simp
    note fo = fieldsD [OF safeD(3) [OF s]]
    obtain gs rest a1 where g: "a_give env (d # ds) ?a = Some (last (d # gs), a1)" "d # ds = (d # gs) @ rest" "granted (d # gs) rest ?a a1"
      "ty a1 = ty ?a \<and> (gs = [] \<or> (\<forall>x\<in>set (d # gs). ty ?a x = TL_WRITE_ALLOW_WRITE)) \<or>
       gs = [] \<and> ty ?a d = TL_WRITE_CONCURRENT_INSERT \<and> ty a1 = (ty ?a)(d := TL_WRITE)"
      using a_give_effect [of ?a d ds env] Cons safeD(1) [OF s, of Write_wait] fo(3) c d by fastforce
    have w1: "q a1 Write = d # gs" using g(3) e by (simp add: granted_def)
    have "startable ?a (d # gs) a1" unfolding startable_def
      using g(4) e q' fo(3) [of d] d by (auto simp: type_order)
    from granted_safe [OF s' _ _ g(3) this] have s1: "safe cs a1 H W" using e Cons g(2) by simp
    have give: "\<exists>a'. (if ty a1 (last (d # gs)) \<ge> TL_WRITE_LOW_PRIORITY then Some a1
        else a_free_waiting (excludes_no_insert (ty a1 (last (d # gs)))) a1) = Some a' \<and> lock_inv cs a' H W"
    proof (cases "ty a1 (last (d # gs)) \<ge> TL_WRITE_LOW_PRIORITY")
      case True
      then show ?thesis using s1 w1 by (simp add: lock_inv_def no_lost_wakeup_def)
    next
      case False
      define t1 where "t1 = ty a1 (last (d # gs))"
      have "x \<in> set (d # gs) \<Longrightarrow> ty a1 x = t1" for x using g(4) unfolding t1_def by auto
      moreover have "\<not> exclusive t1" "t1 = TL_WRITE_CONCURRENT_INSERT \<longrightarrow> excludes_no_insert t1"
        using False unfolding t1_def [symmetric] by (auto simp: excludes_no_insert_def type_order)
      ultimately have "\<forall>x\<in>set (q a1 Write). \<not> exclusive (ty a1 x) \<and> (ty a1 x = TL_WRITE_CONCURRENT_INSERT \<longrightarrow> excludes_no_insert (ty a1 (last (d # gs))))"
        unfolding w1 t1_def [symmetric] by metis
      from a_free_waiting_inv [OF s1 this] w1 show ?thesis using False by (auto simp: lock_inv_def no_lost_wakeup_def)
    qed
    have low: "\<exists>a'. a_free_waiting (excludes_no_insert (ty a d)) a = Some a' \<and> lock_inv cs a' H W"
      if "\<not> (ty a d \<noteq> TL_WRITE_LOW_PRIORITY \<or> (case q a Read_wait of [] \<Rightarrow> True | r # _ \<Rightarrow> ty a r < TL_READ_HIGH_PRIORITY))"
    proof -
      have "ty a d = TL_WRITE_LOW_PRIORITY" "q a Read_wait \<noteq> []" using that by (auto split: list.splits)
      then show ?thesis using free [OF s e(2)] by (simp add: excludes_no_insert_def)
    qed
    have many: "\<exists>a'. a_free_all False ?a = Some a' \<and> lock_inv cs a' H W" if "q a Read_wait \<noteq> []"
      using free [OF s'] that e q' by (simp add: a_free_all_waiting)
    show ?thesis unfolding a_idle_def Cons list.case Let_def q' g(1)
      using give low many by (auto simp: Let_def)
  qed
qed

end
