(* ===== verification/Thr_Lock_Keep.thy ===== *)
theory Thr_Lock_Keep
  imports Thr_Lock_Inv
begin

text \<open>
  Every operation of the table locks keeps the invariant of \<open>Thr_Lock_Inv\<close>, and returns.
\<close>

section \<open>Unlocking\<close>

lemma a_reading_inv:
  assumes s: "safe cs a H W" and e: "q a Read \<noteq> []" "q a Write = []" and c: "check_status env \<noteq> None \<longleftrightarrow> cs"
  shows "\<exists>a'. a_reading env a = Some a' \<and> lock_inv cs a' H W"
proof -
  have free: "\<exists>a'. a_free_waiting ci b = Some a' \<and> lock_inv cs a' H W"
    if "safe cs b H W" "q b Read \<noteq> []" "\<forall>x\<in>set (q b Write). \<not> exclusive (ty b x) \<and> (ty b x = TL_WRITE_CONCURRENT_INSERT \<longrightarrow> ci)" for b ci
    using a_free_waiting_inv [OF that(1,3)] that(2) by (fastforce simp: lock_inv_def no_lost_wakeup_def)
  show ?thesis
  proof (cases "q a Write_wait")
    case Nil
    then show ?thesis using free [OF s e(1)] e(2) by (simp add: a_reading_def)
  next
    case (Cons d ds)
    have d: "d \<in> set (q a Write_wait)" using Cons by simp
    note fo = fieldsD [OF safeD(3) [OF s]]
    show ?thesis
    proof (cases "ty a d \<le> TL_WRITE_DELAYED \<and> (\<not> excludes_no_insert (ty a d) \<or> rnwc a = 0)")
      case False
      then show ?thesis using s e Cons by (auto simp: a_reading_def lock_inv_def no_lost_wakeup_def)
    next
      case True
      have "(if ty a d = TL_WRITE_CONCURRENT_INSERT then a_check_status env d a else Some False) \<noteq> None"
        using c fo(3) [OF d] by (auto simp: a_check_status_def split: option.splits)
      then obtain up where up: "(if ty a d = TL_WRITE_CONCURRENT_INSERT then a_check_status env d a else Some False) = Some up" by blast
      show ?thesis
      proof (cases up)
        case True
        then obtain b where "d \<notin> H" "W d = Some (Write_wait, b)" using up placedD(6) [OF safeD(6) [OF s] d] by (auto split: if_splits)
        then have "safe cs (a_type d TL_WRITE a) H W"
          by (intro safe_requeue [OF s d, where b = b]) (use fo(3) [OF d] in \<open>auto simp: a_type_def\<close>)
        from free [OF this, of False] e have "\<exists>a'. a_free_waiting False (a_type d TL_WRITE a) = Some a' \<and> lock_inv cs a' H W" by simp
        then show ?thesis using True \<open>ty a d \<le> _ \<and> _\<close> up Cons by (simp add: a_reading_def)
      next
        case False
        obtain gs rest a1 where g: "a_start (ty a d) (d # ds) a = Some a1" "d # ds = (d # gs) @ rest" "granted (d # gs) rest a a1" "ty a1 = ty a"
          "gs = [] \<or> ty a d = TL_WRITE_ALLOW_WRITE \<and> (\<forall>x\<in>set gs. ty a x = TL_WRITE_ALLOW_WRITE)"
          using a_start_effect [of a d ds "ty a d"] Cons safeD(1) [OF s, of Write_wait] fo(3) by fastforce
        define td where "td = ty a d"
        have same: "x \<in> set (d # gs) \<Longrightarrow> ty a x = td" for x using g(5) unfolding td_def by auto
        have td: "TL_READ_NO_INSERT < td" "td \<le> TL_WRITE_DELAYED" "\<not> excludes_no_insert td \<or> rnwc a = 0"
          using fo(3) [OF d] True unfolding td_def by auto
        then have ex: "\<not> exclusive td" "td \<noteq> TL_UNLOCK" "td = TL_WRITE_CONCURRENT_INSERT \<Longrightarrow> rnwc a = 0" "td = TL_WRITE_CONCURRENT_INSERT \<Longrightarrow> excludes_no_insert td"
          by (auto simp: type_order excludes_no_insert_def)
        have ni: "y \<in> set (q a Read) \<Longrightarrow> rnwc a = 0 \<Longrightarrow> ty a y \<noteq> TL_READ_NO_INSERT" for y
          using safeD(4) [OF s] by (auto simp: counted_def filter_empty_conv)
        have one: "length (d # gs) = 1 \<or> td = TL_WRITE_ALLOW_WRITE" using g(5) unfolding td_def by auto
        have "startable a (d # gs) a1" unfolding startable_def g(4)
          by (intro conjI ballI allI impI) (use same ex ni one td in auto)
        from granted_safe [OF s e(2) _ g(3) this] have s1: "safe cs a1 H W" using Cons g(2) by simp
        have w1: "q a1 Write = d # gs" "q a1 Read = q a Read" using g(3) e by (simp_all add: granted_def)
        have "\<forall>x\<in>set (q a1 Write). \<not> exclusive (ty a1 x) \<and> (ty a1 x = TL_WRITE_CONCURRENT_INSERT \<longrightarrow> excludes_no_insert (ty a d))"
          unfolding w1 g(4) td_def [symmetric] using same ex by auto
        from free [OF s1 _ this] show ?thesis using w1 e True False up g(1) Cons by (simp add: a_reading_def)
      qed
    qed
  qed
qed

lemma a_schedule_inv:
  assumes "safe cs a H W" "check_status env \<noteq> None \<longleftrightarrow> cs"
  shows "\<exists>a'. a_schedule env a = Some a' \<and> lock_inv cs a' H W"
  using a_idle_inv [OF assms(1) _ _ assms(2)] a_reading_inv [OF assms(1) _ _ assms(2)] assms(1)
  by (auto simp: a_schedule_def lock_inv_def no_lost_wakeup_def)

lemma sorted_wrt_remove1: "sorted_wrt P xs \<Longrightarrow> sorted_wrt P (remove1 d xs)"
  by (induction xs) (auto dest: notin_set_remove1 set_mp [OF set_remove1_subset])

lemma compatible_subset:
  assumes "compatible ow t r w" "set r' \<subseteq> set r" "set w' \<subseteq> set w" "sorted_wrt (\<lambda>x y. may_follow (t x) (t y)) w'"
  shows "compatible ow t r' w'"
  using assms unfolding compatible_def by (meson subsetD)

text \<open>An instance leaves its list and is marked as unlocked.\<close>

lemma safe_drop:
  assumes s: "safe cs a H W" and d: "d \<in> set (q a L)"
    and q': "q a' = (q a)(L := remove1 d (q a L))" and e: "own a' = own a" "ty a' = (ty a)(d := TL_UNLOCK)" "\<And>x. x \<noteq> d \<Longrightarrow> cnd a' x = cnd a x"
    and n: "rnwc a' = rnwc a - (if L = Read \<and> ty a d = TL_READ_NO_INSERT then 1 else 0)"
    and HW: "\<And>x. x \<noteq> d \<Longrightarrow> (x \<in> H' \<longleftrightarrow> x \<in> H) \<and> W' x = W x" "d \<in> H' \<Longrightarrow> W' d = None" "d \<in> H' \<or> W' d \<noteq> None \<Longrightarrow> cnd a' d = None"
  shows "safe cs a' H' W'"
proof -
  note dq = safeD(1,2) [OF s] and fo = fieldsD [OF safeD(3) [OF s]] and p = placedD [OF safeD(6) [OF s]]
  have rem: "set (remove1 d (q a L)) = set (q a L) - {d}" using dq(1) by simp
  have mem: "x \<in> set (q a' L') \<longleftrightarrow> x \<in> set (q a L') \<and> x \<noteq> d" for x L'
    using rem dq(2) [of L' L] d by (cases "L' = L") (auto simp: q')
  have dst: "distinct (q a' L')" for L' using dq(1) by (auto simp: q' distinct_remove1)
  show ?thesis unfolding safe_def
  proof (intro conjI)
    show "disjoint_queues a'" unfolding disjoint_queues_def
    proof (intro conjI allI impI)
      fix L1 L2 :: lname assume "L1 \<noteq> L2"
      then show "set (q a' L1) \<inter> set (q a' L2) = {}" using dq(2) [of L1 L2] mem by auto
    qed (rule dst)
    show "fields_ok cs a'" unfolding fields_ok_def using mem fo e(2,3) by auto
    have "sorted_wrt P (q a Write) \<Longrightarrow> sorted_wrt P (q a' Write)" for P
      by (auto simp: q' sorted_wrt_remove1)
    then have "compatible (own a) (ty a) (q a' Read) (q a' Write)"
      using safeD(5) [OF s] by (intro compatible_subset [OF safeD(5) [OF s]]) (auto simp: mem compatible_def)
    then show "compatible (own a') (ty a') (q a' Read) (q a' Write)"
      by (subst compatible_eq [of _ _ _ "ty a" _ "own a"]) (auto simp: mem e)
    have "filter (\<lambda>x. ty a' x = TL_READ_NO_INSERT) (q a' Read) = filter (\<lambda>x. ty a x = TL_READ_NO_INSERT) (q a' Read)"
      by (intro filter_cong) (auto simp: mem e)
    moreover have "length (filter (\<lambda>x. ty a x = TL_READ_NO_INSERT) (q a' Read)) =
        length (filter (\<lambda>x. ty a x = TL_READ_NO_INSERT) (q a Read)) - (if L = Read \<and> ty a d = TL_READ_NO_INSERT then 1 else 0)"
      using d by (auto simp: q' filter_remove1 length_remove1)
    ultimately show "counted a'" using safeD(4) [OF s] n unfolding counted_def by simp
    show "placed a' H' W'" unfolding placed_def
    proof (intro conjI allI ballI impI)
      fix x assume "x \<in> H'" then show "W' x = None" using HW p(1) by (cases "x = d") auto
    next
      fix L x assume "x \<in> set (q a' L)"
      then have "x \<in> set (q a L)" "x \<noteq> d" using mem by auto
      then show "x \<in> H' \<or> W' x \<noteq> None" "x < 2147483648" using p(2,3) [of x L] HW(1) [of x] by simp_all
    next
      fix x assume x: "(x \<in> H' \<or> W' x \<noteq> None) \<and> (\<forall>L. x \<notin> set (q a' L))"
      then show "ty a' x = TL_UNLOCK" "cnd a' x = None" using p(4) [of x] HW(1) [of x] HW(3) mem e by (cases "x = d"; auto)+
    next
      fix x assume "x \<in> set (q a' Read_wait)"
      then show "W' x = Some (Read_wait, False)" using mem p(5) HW(1) by auto
    next
      fix x assume "x \<in> set (q a' Write_wait)"
      then show "if x \<in> H' then ty a' x = TL_WRITE_DELAYED else (\<exists>b. W' x = Some (Write_wait, b))" using mem p(6) [of x] HW(1) e by auto
    qed
  qed
qed

text \<open>An instance that its owner has and that is not aborted is in the list that \<open>thr_unlock\<close> looks at.\<close>

lemma held_listed:
  assumes s: "safe cs a H W" and d: "d \<in> H" "ty a d \<noteq> TL_UNLOCK"
  shows "d \<in> set (q a (a_unlock_list a d))"
proof -
  note fo = fieldsD [OF safeD(3) [OF s]] and p = placedD [OF safeD(6) [OF s]]
  obtain L where L: "d \<in> set (q a L)" using p(4) [of d] d by blast
  show ?thesis
  proof (cases L)
    case Read_wait
    then show ?thesis using L p(5) [of d] p(1) [OF d(1)] by simp
  next
    case Read
    then show ?thesis using L fo(2) [of d] by (simp add: a_unlock_list_def)
  next
    case Write_wait
    then show ?thesis using L fo(3) [of d] p(6) [of d] d by (auto simp: a_unlock_list_def type_order)
  next
    case Write
    then show ?thesis using L fo(4) [of d] by (auto simp: a_unlock_list_def type_order)
  qed
qed

lemma a_release_safe:
  assumes s: "safe cs a H W" and d: "d \<in> H" "ty a d \<noteq> TL_UNLOCK"
  shows "safe cs (a_release env d a) (H - {d}) W"
proof -
  let ?L = "a_unlock_list a d"
  have l: "d \<in> set (q a ?L)" by (rule held_listed [OF assms])
  have r: "?L = Read" if "ty a d = TL_READ_NO_INSERT" using that by (simp add: a_unlock_list_def)
  have n: "u32_sub (rnwc a) 1 = rnwc a - 1" if "ty a d = TL_READ_NO_INSERT"
  proof (rule u32_sub_small)
    have "filter (\<lambda>x. ty a x = TL_READ_NO_INSERT) (q a Read) \<noteq> []" using l r that by (auto simp: filter_empty_conv)
    then show "1 \<le> rnwc a" using safeD(4) [OF s] by (simp add: counted_def Suc_le_eq)
    show "rnwc a < UINT_RANGE" using safe_count [OF s] by simp
  qed
  have W: "W d = None" using placedD(1) [OF safeD(6) [OF s] d(1)] .
  show ?thesis
    by (rule safe_drop [OF s l, where a' = "a_release env d a"])
      (use W n r in \<open>auto simp: a_release_def a_defs Let_def type_order\<close>)
qed

lemma a_unlock_inv:
  assumes "lock_inv cs a H W" "d \<in> H" "ty a d \<noteq> TL_UNLOCK" "check_status env \<noteq> None \<longleftrightarrow> cs"
  shows "\<exists>a'. a_unlock env d a = Some a' \<and> lock_inv cs a' (H - {d}) W"
  using a_schedule_inv [OF a_release_safe [of cs a H W d env] assms(4)] assms by (simp add: a_unlock_def lock_inv_def)

section \<open>The end of a wait\<close>

text \<open>Only the place of one instance changes.\<close>

lemma placed_upd:
  assumes p: "placed a H W" and o: "\<And>x. x \<noteq> d \<Longrightarrow> (x \<in> H' \<longleftrightarrow> x \<in> H) \<and> W' x = W x"
    and d: "d \<in> H' \<Longrightarrow> W' d = None" "\<And>L. d \<in> set (q a L) \<Longrightarrow> d \<in> H' \<or> W' d \<noteq> None"
      "d \<in> H' \<or> W' d \<noteq> None \<Longrightarrow> \<forall>L. d \<notin> set (q a L) \<Longrightarrow> ty a d = TL_UNLOCK \<and> cnd a d = None"
      "d \<in> set (q a Read_wait) \<Longrightarrow> W' d = Some (Read_wait, False)"
      "d \<in> set (q a Write_wait) \<Longrightarrow> if d \<in> H' then ty a d = TL_WRITE_DELAYED else (\<exists>b. W' d = Some (Write_wait, b))"
  shows "placed a H' W'"
  unfolding placed_def
proof (intro conjI allI ballI impI)
  note p' = placedD [OF p]
  { fix x assume "x \<in> H'" then show "W' x = None" using o [of x] d(1) p'(1) [of x] by (cases "x = d") auto }
  { fix L x assume "x \<in> set (q a L)" then show "x \<in> H' \<or> W' x \<noteq> None" "x < 2147483648"
      using o [of x] d(2) [of L] p'(2,3) [of x L] by (cases "x = d"; auto)+ }
  { fix x assume "(x \<in> H' \<or> W' x \<noteq> None) \<and> (\<forall>L. x \<notin> set (q a L))" then show "ty a x = TL_UNLOCK" "cnd a x = None"
      using o [of x] d(3) p'(4) [of x] by (cases "x = d"; auto)+ }
  { fix x assume "x \<in> set (q a Read_wait)" then show "W' x = Some (Read_wait, False)" using o [of x] d(4) p'(5) [of x] by (cases "x = d") auto }
  { fix x assume "x \<in> set (q a Write_wait)" then show "if x \<in> H' then ty a x = TL_WRITE_DELAYED else (\<exists>b. W' x = Some (Write_wait, b))"
      using o [of x] d(5) p'(6) [of x] by (cases "x = d") auto }
qed

lemma safe_events [simp]:
  "safe cs (a_emit e a) H W = safe cs a H W" "safe cs (a_get_status env d ci a) H W = safe cs a H W"
  "safe cs (a_update_status env d a) H W = safe cs a H W"
  "no_lost_wakeup (a_emit e a) = no_lost_wakeup a" "no_lost_wakeup (a_get_status env d ci a) = no_lost_wakeup a"
  by (simp_all add: safe_defs a_get_status_def a_update_status_def a_emit_def no_lost_wakeup_def)

lemma a_wait_leave_inv:
  assumes i: "lock_inv cs a H W" and d: "W d = Some (L, b)" and r: "a_wait_leave env L timed_out d a = (res, a')"
  shows "lock_inv cs a' (if res = THR_LOCK_SUCCESS then insert d H else H) (W(d := None))" "cnd a d \<noteq> None \<Longrightarrow> d \<in> set (q a L)"
proof -
  have s: "safe cs a H W" using i by (simp add: lock_inv_def)
  note fo = fieldsD [OF safeD(3) [OF s]] and p = placedD [OF safeD(6) [OF s]]
  have dH: "d \<notin> H" using p(1) d by auto
  have lst: "\<exists>L'. d \<in> set (q a L')" if "cnd a d \<noteq> None \<or> ty a d \<noteq> TL_UNLOCK" using p(4) [of d] d that by blast
  show l: "d \<in> set (q a L)" if c: "cnd a d \<noteq> None"
  proof -
    obtain L' where L': "d \<in> set (q a L')" using lst c by blast
    then show ?thesis using c fo(2,4) [of d] p(5,6) [of d] d dH by (cases L') auto
  qed
  consider (failed) "cnd a d \<noteq> None" | (aborted) "cnd a d = None" "ty a d = TL_UNLOCK" | (got) "cnd a d = None" "ty a d \<noteq> TL_UNLOCK" by blast
  then show "lock_inv cs a' (if res = THR_LOCK_SUCCESS then insert d H else H) (W(d := None))"
  proof cases
    case failed
    have L: "L = Read_wait \<or> L = Write_wait" using l [OF failed] fo(2,4) [of d] failed by (cases L) auto
    have a': "a' = a_type d TL_UNLOCK (a_remove L d a)" "res \<noteq> THR_LOCK_SUCCESS" using r failed by (auto simp: a_wait_leave_def split: if_splits)
    have "safe cs a' H (W(d := None))"
      by (rule safe_drop [OF s l [OF failed], where a' = a']) (use a' L dH in \<open>auto simp: a_defs\<close>)
    moreover have "no_lost_wakeup a'" using i L unfolding a' by (auto simp: lock_inv_def no_lost_wakeup_def a_defs)
    ultimately show ?thesis using a'(2) by (simp add: lock_inv_def)
  next
    case aborted
    then have a': "a' = a" "res \<noteq> THR_LOCK_SUCCESS" using r by (auto simp: a_wait_leave_def)
    have n: "d \<notin> set (q a L')" for L' using fo(1-4) [of d] aborted by (cases L') (auto simp: type_order)
    have "placed a H (W(d := None))" by (rule placed_upd [OF safeD(6) [OF s], of d]) (use n dH in auto)
    then show ?thesis using i a' by (simp add: lock_inv_def safe_def)
  next
    case got
    then have a': "a' = a_get_status env d False (a_emit Locks_waited a)" "res = THR_LOCK_SUCCESS" using r by (auto simp: a_wait_leave_def)
    have n: "d \<notin> set (q a Read_wait)" "d \<notin> set (q a Write_wait)" using fo(1,3) [of d] got by auto
    have "placed a (insert d H) (W(d := None))"
      by (rule placed_upd [OF safeD(6) [OF s], of d]) (use n lst got in auto)
    then show ?thesis using i a' by (simp add: lock_inv_def safe_def [of cs a])
  qed
qed

end
