(* ===== verification/Thr_Lock_Request.thy ===== *)
theory Thr_Lock_Request
  imports Thr_Lock_Keep
begin

text \<open>
  Requests keep the invariant of the table locks, provided that an owner that already has a write lock
  of the table asks for further ones in descending order of strength.
\<close>

section \<open>Changes outside and at the end of the lists\<close>

text \<open>An instance in no list, and not in use, may change.\<close>

lemma safe_off:
  assumes s: "safe cs a H W" and d: "d \<notin> H" "W d = None"
    and e: "q a' = q a" "rnwc a' = rnwc a" "\<And>x. x \<noteq> d \<Longrightarrow> own a' x = own a x \<and> ty a' x = ty a x \<and> cnd a' x = cnd a x"
  shows "safe cs a' H W"
proof -
  note p = placedD [OF safeD(6) [OF s]]
  have n: "x \<in> set (q a L) \<Longrightarrow> x \<noteq> d" for x L using p(2) [of d L] d by auto
  have e': "own a' x = own a x" "ty a' x = ty a x" "cnd a' x = cnd a x" if "x \<in> set (q a L)" for x L using e(3) [OF n [OF that]] by auto
  have "compatible (own a') (ty a') (q a Read) (q a Write)"
    using safeD(5) [OF s] by (subst compatible_eq [of _ _ _ "ty a" _ "own a"]) (use e' in auto)
  moreover have "filter (\<lambda>x. ty a' x = TL_READ_NO_INSERT) (q a Read) = filter (\<lambda>x. ty a x = TL_READ_NO_INSERT) (q a Read)"
    by (intro filter_cong) (use e' in auto)
  moreover have "fields_ok cs a'" using safeD(3) [OF s] unfolding fields_ok_def e(1) by (simp add: e')
  moreover have "placed a' H W" unfolding placed_def e(1)
  proof (intro conjI allI ballI impI)
    fix x assume x: "(x \<in> H \<or> W x \<noteq> None) \<and> (\<forall>L. x \<notin> set (q a L))"
    then have "x \<noteq> d" using d by auto
    then show "ty a' x = TL_UNLOCK" "cnd a' x = None" using p(4) [of x] x e(3) [of x] by auto
  next
    fix x assume x: "x \<in> set (q a Write_wait)"
    then show "if x \<in> H then ty a' x = TL_WRITE_DELAYED else (\<exists>b. W x = Some (Write_wait, b))" using p(6) [OF x] e'(2) [OF x] by simp
  next
    fix L x assume "x \<in> set (q a L)"
    then show "x \<in> H \<or> W x \<noteq> None" "x < 2147483648" using p(2,3) [of x L] by auto
  qed (use p(1,5) in auto)
  ultimately show ?thesis using s unfolding safe_def disjoint_queues_def counted_def e by simp
qed

definition enters :: "bool \<Rightarrow> lname \<Rightarrow> thr_lock_type \<Rightarrow> nat option \<Rightarrow> bool" where
  "enters cs L t c = (case L of
     Read_wait \<Rightarrow> read_type t \<and> c \<noteq> None
   | Read \<Rightarrow> read_type t \<and> c = None
   | Write_wait \<Rightarrow> TL_READ_NO_INSERT < t \<and> t \<noteq> TL_WRITE_ONLY \<and> c \<noteq> None \<and> (t = TL_WRITE_CONCURRENT_INSERT \<longrightarrow> cs)
   | Write \<Rightarrow> TL_READ_NO_INSERT < t \<and> c = None)"

lemma fields_ok_enters: "fields_ok cs a \<longleftrightarrow> (\<forall>L. \<forall>x\<in>set (q a L). enters cs L (ty a x) (cnd a x))"
  unfolding all_lname by (auto simp: fields_ok_def enters_def)

lemma safe_add:
  assumes s: "safe cs a H W" and d: "\<And>L. d \<notin> set (q a L)" "d < 2147483648"
    and q': "q a' = (q a)(L := qs)" "qs = q a L @ [d] \<or> qs = d # q a L \<and> L \<noteq> Read"
    and e: "\<And>x. x \<noteq> d \<Longrightarrow> own a' x = own a x \<and> ty a' x = ty a x \<and> cnd a' x = cnd a x"
    and n: "rnwc a' = rnwc a + (if L = Read \<and> ty a' d = TL_READ_NO_INSERT then 1 else 0)"
    and en: "enters cs L (ty a' d) (cnd a' d)"
    and c: "compatible (own a') (ty a') (q a' Read) (q a' Write)"
    and HW: "\<And>x. x \<noteq> d \<Longrightarrow> (x \<in> H' \<longleftrightarrow> x \<in> H) \<and> W' x = W x" "d \<in> H' \<Longrightarrow> W' d = None" "d \<in> H' \<or> W' d \<noteq> None"
      "L = Read_wait \<Longrightarrow> W' d = Some (Read_wait, False)"
      "L = Write_wait \<Longrightarrow> if d \<in> H' then ty a' d = TL_WRITE_DELAYED else (\<exists>b. W' d = Some (Write_wait, b))"
  shows "safe cs a' H' W'"
proof -
  note dq = safeD(1,2) [OF s] and p = placedD [OF safeD(6) [OF s]]
  have mem: "x \<in> set (q a' L') \<longleftrightarrow> x \<in> set (q a L') \<or> x = d \<and> L' = L" for x L' using q' by auto
  have nd: "x \<in> set (q a L') \<Longrightarrow> x \<noteq> d" for x L' using d(1) by auto
  have e': "own a' x = own a x" "ty a' x = ty a x" "cnd a' x = cnd a x" if "x \<in> set (q a L')" for x L' using e [OF nd [OF that]] by auto
  show ?thesis unfolding safe_def
  proof (intro conjI)
    show "disjoint_queues a'" unfolding disjoint_queues_def
    proof (intro conjI allI impI)
      fix L' show "distinct (q a' L')" using dq(1) [of L'] d(1) q' by auto
    next
      fix L1 L2 :: lname assume "L1 \<noteq> L2"
      then show "set (q a' L1) \<inter> set (q a' L2) = {}" using dq(2) [of L1 L2] d(1) mem by auto
    qed
    have fo: "x \<in> set (q a L') \<Longrightarrow> enters cs L' (ty a x) (cnd a x)" for x L' using safeD(3) [OF s] fields_ok_enters by blast
    show "fields_ok cs a'" unfolding fields_ok_enters
    proof (intro allI ballI)
      fix L' x assume "x \<in> set (q a' L')"
      then show "enters cs L' (ty a' x) (cnd a' x)" using mem [of x L'] en fo [of x L'] e'(2,3) [of x L'] by auto
    qed
    show "counted a'"
    proof -
      have f: "filter (\<lambda>x. ty a' x = TL_READ_NO_INSERT) (q a Read) = filter (\<lambda>x. ty a x = TL_READ_NO_INSERT) (q a Read)"
        by (intro filter_cong) (use e' in auto)
      show ?thesis using safeD(4) [OF s] n q' f by (cases "L = Read") (auto simp: counted_def)
    qed
    show "placed a' H' W'" unfolding placed_def
    proof (intro conjI allI ballI impI)
      fix x assume "x \<in> H'" then show "W' x = None" using HW(1) [of x] HW(2) p(1) by (cases "x = d") auto
    next
      fix L' x assume "x \<in> set (q a' L')"
      then show "x \<in> H' \<or> W' x \<noteq> None" "x < 2147483648"
        using mem [of x L'] p(2,3) [of x L'] HW(1) [of x] HW(3) d(2) by (cases "x = d"; auto)+
    next
      fix x assume x: "(x \<in> H' \<or> W' x \<noteq> None) \<and> (\<forall>L. x \<notin> set (q a' L))"
      then have "x \<noteq> d" using mem by blast
      then show "ty a' x = TL_UNLOCK" "cnd a' x = None" using p(4) [of x] x HW(1) [of x] e [of x] mem by auto
    next
      fix x assume "x \<in> set (q a' Read_wait)"
      then show "W' x = Some (Read_wait, False)" using mem [of x Read_wait] p(5) [of x] HW(1) [of x] HW(4) nd [of x Read_wait] by auto
    next
      fix x assume "x \<in> set (q a' Write_wait)"
      then show "if x \<in> H' then ty a' x = TL_WRITE_DELAYED else (\<exists>b. W' x = Some (Write_wait, b))"
        using mem [of x Write_wait] p(6) [of x] HW(1) [of x] HW(5) nd [of x Write_wait] e'(2) [of x Write_wait] by auto
    qed
    show "compatible (own a') (ty a') (q a' Read) (q a' Write)" by (rule c)
  qed
qed

section \<open>The cases of a request\<close>

lemma read_request_cases:
  assumes "a_read_request env d o' t a = (r, a')"
  obtains (granted) "r = Finish THR_LOCK_SUCCESS" "a' = a_grant_read env d t a"
      "\<And>w ws. q a Write = w # ws \<Longrightarrow> o' = own a w \<or> ty a w \<le> TL_WRITE_DELAYED \<and>
         (t \<le> TL_READ_HIGH_PRIORITY \<or> ty a w \<noteq> TL_WRITE_CONCURRENT_INSERT \<and> ty a w \<noteq> TL_WRITE_ALLOW_READ)"
    | (aborted) "r = Finish THR_LOCK_ABORTED" "a' = a_type d TL_UNLOCK a"
    | (wait) "r = Queue Read_wait" "a' = a" "q a Write \<noteq> [] \<or> q a Write_wait \<noteq> []"
  using assms by (auto simp: a_read_request_def split: list.splits if_splits)

text \<open>The type that a request is given in the end.\<close>

definition effective :: "thr_env \<Rightarrow> thr_lock_type \<Rightarrow> thr_lock_type" where
  "effective env t = (if t = TL_WRITE_CONCURRENT_INSERT \<and> check_status env = None then thr_upgraded_concurrent_insert_lock env else t)"

abbreviation joins_write :: "nat \<Rightarrow> thr_lock_type \<Rightarrow> alock \<Rightarrow> bool" where
  "joins_write o' t a \<equiv> (case q a Write of
     w # _ \<Rightarrow> ty a w \<noteq> TL_WRITE_ONLY \<and> (o' = own a w \<or> t = TL_WRITE_ALLOW_WRITE \<and> ty a w = TL_WRITE_ALLOW_WRITE)
   | [] \<Rightarrow> q a Read = [] \<or>
       t \<le> TL_WRITE_DELAYED \<and> (t \<noteq> TL_WRITE_CONCURRENT_INSERT \<and> t \<noteq> TL_WRITE_ALLOW_WRITE \<or> rnwc a = 0))"

lemma a_type_same: "a_type d (ty a d) a = a"
  by (simp add: a_type_def)

lemma a_type_fields [simp]:
  "own (a_type d t a) = own a" "ty (a_type d t a) = (ty a)(d := t)" "cnd (a_type d t a) = cnd a" "rnwc (a_type d t a) = rnwc a" "par (a_type d t a) = par a"
  by (simp_all add: a_type_def)

lemma write_decide_cases:
  assumes r: "a_write_decide env d o' t a = Some (r, a')" and t: "ty a d = t"
    and u: "exclusive (thr_upgraded_concurrent_insert_lock env)"
  obtains (granted) t' ci where "r = Finish THR_LOCK_SUCCESS" "a' = a_grant_write env d ci (a_type d t' a)" "joins_write o' t' a"
      "t' = t \<or> exclusive t' \<and> t = TL_WRITE_CONCURRENT_INSERT \<and> q a Write = []"
    | (aborted) "r = Finish THR_LOCK_ABORTED" "a' = a_type d TL_UNLOCK a"
    | (wait) t' where "r = Queue Write_wait" "a' = a_type d t' a" "q a Write \<noteq> [] \<or> q a Read \<noteq> [] \<or> q a Write_wait \<noteq> []"
      "t' = t \<or> exclusive t' \<and> t = TL_WRITE_CONCURRENT_INSERT"
proof (cases "q a Write")
  case (Cons w ws)
  then show thesis using r t a_type_same [of d a] that(1) [of False t] that(2) that(3) [of t]
    by (auto simp: a_write_decide_def split: if_splits)
next
  case Nil
  let ?u = "thr_upgraded_concurrent_insert_lock env"
  show thesis
  proof (cases "t = TL_WRITE_CONCURRENT_INSERT \<and> a_check_status env d a = Some True")
    case True
    then show thesis using r Nil u that(1) [of False ?u] that(3) [of ?u] that(3) [of t] t a_type_same [of d a]
      by (auto simp: a_write_decide_def a_write_free_def Let_def split: if_splits)
  next
    case False
    then show thesis using r Nil that(1) [of False t] that(1) [of True t] that(3) [of t] t a_type_same [of d a]
      by (auto simp: a_write_decide_def a_write_free_def Let_def bind_eq_Some_conv split: if_splits)
  qed
qed

lemma a_type_twice [simp]: "a_type d t (a_type d t' a) = a_type d t a"
  by (simp add: a_type_def)

lemma write_request_cases:
  assumes r: "a_write_request env cv d o' t a = Some (r, a')" and t: "ty a d = t" and d: "\<And>L. d \<notin> set (q a L)"
    and u: "exclusive (thr_upgraded_concurrent_insert_lock env)"
  obtains (granted) t' ci where "r = Finish THR_LOCK_SUCCESS" "a' = a_grant_write env d ci (a_type d t' a)" "joins_write o' t' a"
      "t' = effective env t \<or> exclusive t' \<and> q a Write = []"
    | (delayed) "r = Finish THR_LOCK_SUCCESS" "a' = a_emit Locks_immediate (a_cond d (Some cv) (a_append Write_wait d a))"
      "t = TL_WRITE_DELAYED" "q a Write \<noteq> [] \<or> q a Read \<noteq> []"
    | (aborted) "r = Finish THR_LOCK_ABORTED" "a' = a_type d TL_UNLOCK a"
    | (wait) t' where "r = Queue Write_wait" "a' = a_type d t' a" "q a Write \<noteq> [] \<or> q a Read \<noteq> [] \<or> q a Write_wait \<noteq> []"
      "t' = effective env t \<or> exclusive t'"
proof -
  let ?u = "thr_upgraded_concurrent_insert_lock env"
  let ?e = "effective env t" and ?a = "a_type d (effective env t) a"
  have "a' = a_type d TL_UNLOCK a \<and> r = Finish THR_LOCK_ABORTED \<or>
      a_delayed_queued t a \<and> r = Finish THR_LOCK_SUCCESS \<and> a' = a_emit Locks_immediate (a_cond d (Some cv) (a_append Write_wait d a)) \<or>
      a_write_decide env d o' ?e ?a = Some (r, a')"
  proof (cases "t = TL_WRITE_CONCURRENT_INSERT \<and> check_status env = None")
    case True
    then show ?thesis using r by (simp add: a_write_request_def effective_def Let_def split: if_splits)
  next
    case False
    then have "?e = t" "?a = a" using t a_type_same [of d a] by (auto simp: effective_def)
    then show ?thesis using r False by (auto simp: a_write_request_def Let_def split: if_splits)
  qed
  then consider "a' = a_type d TL_UNLOCK a" "r = Finish THR_LOCK_ABORTED"
    | "a_delayed_queued t a" "r = Finish THR_LOCK_SUCCESS" "a' = a_emit Locks_immediate (a_cond d (Some cv) (a_append Write_wait d a))"
    | "a_write_decide env d o' ?e ?a = Some (r, a')" by blast
  then show thesis
  proof cases
    case 1 then show thesis by (rule aborted [rotated])
  next
    case 2 then show thesis by (intro delayed) (auto simp: a_delayed_queued_def)
  next
    case 3
    have j: "joins_write o' t' ?a = joins_write o' t' a" for t'
      using d [of Write] by (cases "q a Write") auto
    have te: "ty ?a d = ?e" by simp
    show thesis
    proof (cases rule: write_decide_cases [OF 3 te u, consumes 0, case_names granted aborted wait])
      case (granted t' ci)
      then show thesis using that(1) [of ci t'] j by auto
    next
      case aborted
      then show thesis using that(3) by simp
    next
      case (wait t')
      then show thesis using that(4) [of t'] by auto
    qed
  qed
qed

lemma write_request_total:
  assumes "exclusive (thr_upgraded_concurrent_insert_lock env)"
  shows "\<exists>r a'. a_write_request env cv d o' t a = Some (r, a')"
  using assms by (auto simp: a_write_request_def a_write_decide_def a_write_free_def a_check_status_def Let_def split: list.splits option.splits)

lemma compatible_read:
  assumes c: "compatible ow t r w" and d: "d \<notin> set w"
    and j: "\<And>x xs. w = x # xs \<Longrightarrow> ow d = ow x \<or> t x \<le> TL_WRITE_DELAYED \<and>
         (t d \<le> TL_READ_HIGH_PRIORITY \<or> t x \<noteq> TL_WRITE_CONCURRENT_INSERT \<and> t x \<noteq> TL_WRITE_ALLOW_READ)"
  shows "compatible ow t (r @ [d]) w"
proof (cases w)
  case (Cons x xs)
  have s: "y \<in> set w \<Longrightarrow> y = x \<or> may_follow (t x) (t y)" for y using c Cons by (auto simp: compatible_def)
  have o: "y \<in> set w \<Longrightarrow> ow y \<noteq> ow x \<Longrightarrow> t y \<in> {TL_WRITE_ALLOW_WRITE, TL_WRITE_ONLY}" for y
    using c Cons unfolding compatible_def by (metis list.set_intros(1))
  have "ow d = ow y" if y: "y \<in> set w" and e: "exclusive (t y) \<or> t y = TL_WRITE_CONCURRENT_INSERT \<and> t d = TL_READ_NO_INSERT" for y
  proof (cases "ow d = ow x")
    case True
    then show ?thesis using o [OF y] e by force
  next
    case False
    then have "t x \<le> TL_WRITE_DELAYED" "t d \<le> TL_READ_HIGH_PRIORITY \<or> t x \<noteq> TL_WRITE_CONCURRENT_INSERT \<and> t x \<noteq> TL_WRITE_ALLOW_READ"
      using j [OF Cons] by auto
    then show ?thesis using s [OF y] e by (cases "t x") (auto simp: may_follow_def type_order)
  qed
  then show ?thesis using c unfolding compatible_def by auto
qed (use c in \<open>simp add: compatible_def\<close>)

lemma compatible_write:
  assumes c: "compatible ow t r w" and d: "d \<notin> set w" "d \<notin> set r" and td: "TL_READ_NO_INSERT < t d" "t d \<noteq> TL_WRITE_ONLY"
    and same: "\<And>x. x \<in> set w \<Longrightarrow> ow x = ow d \<Longrightarrow> may_follow (t x) (t d)"
    and j: "\<And>x xs. w = x # xs \<Longrightarrow> t x \<noteq> TL_WRITE_ONLY \<and> (ow d = ow x \<or> t d = TL_WRITE_ALLOW_WRITE \<and> t x = TL_WRITE_ALLOW_WRITE)"
    and ro: "w = [] \<Longrightarrow> exclusive (t d) \<Longrightarrow> r = []" "w = [] \<Longrightarrow> t d = TL_WRITE_CONCURRENT_INSERT \<Longrightarrow> \<forall>y\<in>set r. t y \<noteq> TL_READ_NO_INSERT"
    and wt: "\<forall>x\<in>set w. TL_READ_NO_INSERT < t x"
  shows "compatible ow t r (w @ [d])"
proof (cases w)
  case Nil
  then show ?thesis using ro by (auto simp: compatible_def)
next
  case (Cons x xs)
  note jx = j [OF Cons]
  have s: "y \<in> set w \<Longrightarrow> y = x \<or> may_follow (t x) (t y)" for y using c Cons by (auto simp: compatible_def)
  have o: "y \<in> set w \<Longrightarrow> ow y \<noteq> ow x \<Longrightarrow> t y \<in> {TL_WRITE_ALLOW_WRITE, TL_WRITE_ONLY} \<and> t x \<in> {TL_WRITE_ALLOW_WRITE, TL_WRITE_ONLY}" for y
    using c Cons unfolding compatible_def by (metis list.set_intros(1))
  have aw: "t d = TL_WRITE_ALLOW_WRITE \<and> (\<forall>y\<in>set w. t y = TL_WRITE_ALLOW_WRITE)" if "y \<in> set w" "ow y \<noteq> ow d" for y
  proof -
    have x: "t x = TL_WRITE_ALLOW_WRITE"
      using jx o [OF that(1)] that(2) by auto
    then have all: "t y = TL_WRITE_ALLOW_WRITE" if "y \<in> set w" for y
      using s [OF that] wt that by (cases "t y") (auto simp: may_follow_def type_order)
    have "t d = TL_WRITE_ALLOW_WRITE"
      using jx same [of x] Cons x td by (cases "t d") (auto simp: may_follow_def type_order)
    then show ?thesis using all by blast
  qed
  have fol: "may_follow (t y) (t d)" if "y \<in> set w" for y
    using same [OF that] aw [OF that] that by (cases "ow y = ow d") (auto simp: may_follow_def)
  have rd: "ow y = ow d" if "y \<in> set r" "exclusive (t d) \<or> t d = TL_WRITE_CONCURRENT_INSERT \<and> t y = TL_READ_NO_INSERT" for y
  proof -
    have x: "ow x = ow d" using aw [of x] Cons that(2) by fastforce
    have "exclusive (t x) \<or> t x = TL_WRITE_CONCURRENT_INSERT \<and> t d = TL_WRITE_CONCURRENT_INSERT"
      using fol [of x] Cons that(2) jx by (cases "t x") (auto simp: may_follow_def type_order)
    then have "ow y = ow x" using c Cons that unfolding compatible_def by (metis list.set_intros(1) thr_lock_type.distinct(1))
    then show ?thesis using x by simp
  qed
  have "sorted_wrt (\<lambda>x y. may_follow (t x) (t y)) (w @ [d])" using c fol by (auto simp: compatible_def sorted_wrt_append)
  moreover have "t y \<in> {TL_WRITE_ALLOW_WRITE, TL_WRITE_ONLY}" if "y \<in> set (w @ [d])" "z \<in> set (w @ [d])" "ow y \<noteq> ow z" for y z
  proof (cases "y = d \<or> z = d")
    case True
    then show ?thesis using that aw [of y] aw [of z] by auto
  next
    case False
    then show ?thesis using that c unfolding compatible_def by auto
  qed
  ultimately show ?thesis using c rd unfolding compatible_def by auto
qed

section \<open>Requests keep the invariant\<close>

text \<open>A well-behaved request: the instance is not in use, and the type is one that clients ask for.\<close>

definition good_request :: "thr_env \<Rightarrow> nat \<Rightarrow> nat \<Rightarrow> thr_lock_type \<Rightarrow> alock \<Rightarrow> nat set \<Rightarrow> waiters \<Rightarrow> bool" where
  "good_request env d o' t a H W \<longleftrightarrow>
     d \<notin> H \<and> W d = None \<and> d < 2147483648 \<and> TL_UNLOCK < t \<and> t \<noteq> TL_WRITE_ONLY \<and>
     (\<forall>x. (x \<in> H \<or> W x \<noteq> None) \<and> own a x = o' \<and> TL_READ_NO_INSERT < ty a x \<longrightarrow> may_follow (ty a x) (effective env t))"

definition good_env :: "bool \<Rightarrow> thr_env \<Rightarrow> bool" where
  "good_env cs env \<longleftrightarrow> (check_status env \<noteq> None \<longleftrightarrow> cs) \<and> exclusive (thr_upgraded_concurrent_insert_lock env)"

lemma a_grant_fields:
  "q (a_grant_read env d t a) = (q a)(Read := q a Read @ [d])" "own (a_grant_read env d t a) = own a" "ty (a_grant_read env d t a) = ty a"
  "cnd (a_grant_read env d t a) = cnd a" "rnwc (a_grant_read env d t a) = (if t = TL_READ_NO_INSERT then u32_add (rnwc a) 1 else rnwc a)"
  "q (a_grant_write env d ci a) = (q a)(Write := q a Write @ [d])" "own (a_grant_write env d ci a) = own a" "ty (a_grant_write env d ci a) = ty a"
  "cnd (a_grant_write env d ci a) = cnd a" "rnwc (a_grant_write env d ci a) = rnwc a"
  by (simp_all add: a_grant_read_def a_grant_write_def a_defs)

text \<open>After a request the instance is in use if it was granted or waits.\<close>

definition lock_result :: "bool \<Rightarrow> nat \<Rightarrow> nat set \<Rightarrow> waiters \<Rightarrow> outcome \<times> alock \<Rightarrow> bool" where
  "lock_result cs d H W ra = (case fst ra of
     Finish res \<Rightarrow> lock_inv cs (snd ra) (if res = THR_LOCK_SUCCESS then insert d H else H) W
   | Queue L \<Rightarrow> lock_inv cs (snd ra) H (W(d := Some (L, False))))"

lemma wait_result:
  assumes s: "safe cs a H W" and d: "d \<notin> H" "W d = None" "d < 2147483648"
    and L: "L = Read_wait \<and> read_type (ty a d) \<or>
       L = Write_wait \<and> TL_READ_NO_INSERT < ty a d \<and> ty a d \<noteq> TL_WRITE_ONLY \<and> (ty a d = TL_WRITE_CONCURRENT_INSERT \<longrightarrow> cs)"
    and b: "q a Read \<noteq> [] \<or> q a Write \<noteq> []"
  shows "lock_inv cs (a_cond d (Some cv) (a_append L d a)) H (W(d := Some (L, False)))"
proof -
  let ?a = "a_cond d (Some cv) (a_append L d a)"
  have n: "d \<notin> set (q a L')" for L' using placedD(2) [OF safeD(6) [OF s], of d L'] d by auto
  have f: "q ?a = (q a)(L := q a L @ [d])" "own ?a = own a" "ty ?a = ty a" "cnd ?a = (cnd a)(d := Some cv)" "rnwc ?a = rnwc a"
    by (simp_all add: a_defs)
  have c: "compatible (own ?a) (ty ?a) (q ?a Read) (q ?a Write)" using safeD(5) [OF s] L unfolding f by auto
  have "safe cs ?a H (W(d := Some (L, False)))"
    by (rule safe_add [OF s n d(3) f(1)]) (use L d c f in \<open>auto simp: enters_def\<close>)
  moreover have "no_lost_wakeup ?a" using b L unfolding no_lost_wakeup_def f by auto
  ultimately show ?thesis by (simp add: lock_inv_def)
qed

lemma safe_rnwc:
  assumes "safe cs a H W"
  shows "u32_add (rnwc a) 1 = rnwc a + 1"
proof -
  have "rnwc a \<le> length (q a Read)" using safeD(4) [OF assms] by (simp add: counted_def)
  then show ?thesis using safe_length [OF assms] by (intro u32_add_small) linarith
qed

lemma a_lock_inv:
  assumes i: "lock_inv cs a H W" and g: "good_request env d o' t a H W" and ev: "good_env cs env"
  shows "\<exists>ra. a_lock env cv d o' t a = Some ra \<and> lock_result cs d H W ra"
proof -
  let ?a = "a\<lparr>cnd := (cnd a)(d := None), ty := (ty a)(d := t), own := (own a)(d := o')\<rparr>"
  have u: "exclusive (thr_upgraded_concurrent_insert_lock env)" "check_status env \<noteq> None \<longleftrightarrow> cs" using ev by (auto simp: good_env_def)
  have d: "d \<notin> H" "W d = None" "d < 2147483648" "TL_UNLOCK < t" "t \<noteq> TL_WRITE_ONLY" using g by (auto simp: good_request_def)
  have s0: "safe cs a H W" using i by (simp add: lock_inv_def)
  have off: "safe cs a' H W" if "safe cs b H W" "q a' = q b" "rnwc a' = rnwc b" "\<And>x. x \<noteq> d \<Longrightarrow> own a' x = own b x \<and> ty a' x = ty b x \<and> cnd a' x = cnd b x" for a' b
    by (rule safe_off [OF that(1) d(1,2) that(2-)])
  have s: "safe cs ?a H W" by (rule off [OF s0]) auto
  have nl: "no_lost_wakeup b" if "q b = q a" for b using i that by (simp add: lock_inv_def no_lost_wakeup_def)
  have n: "d \<notin> set (q ?a L)" for L using placedD(2) [OF safeD(6) [OF s], of d L] d by auto
  have busy: "q a Read \<noteq> [] \<or> q a Write \<noteq> []" if "q a Read_wait \<noteq> [] \<or> q a Write_wait \<noteq> []"
    using i that by (auto simp: lock_inv_def no_lost_wakeup_def)
  have stop: "lock_result cs d H W (Finish res, b)" if "safe cs b H W" "q b = q a" "res \<noteq> THR_LOCK_SUCCESS" for res b
    using that nl [of b] by (simp add: lock_result_def lock_inv_def)
  have fin: "\<exists>ra. (case r of Finish res \<Rightarrow> Some (Finish res, b) | Queue L \<Rightarrow>
        if a_own_deadlock env o' b then Some (Finish THR_LOCK_DEADLOCK, b) else Some (Queue L, a_cond d (Some cv) (a_append L d b))) = Some ra \<and>
      lock_result cs d H W ra"
    if "case r of Finish res \<Rightarrow> lock_result cs d H W (r, b) | Queue L \<Rightarrow> q b = q a \<and> safe cs b H W \<and> lock_result cs d H W (r, a_cond d (Some cv) (a_append L d b))" for r b
    using that stop [of b THR_LOCK_DEADLOCK] by (auto split: outcome.splits)
  show ?thesis
  proof (cases "t \<le> TL_READ_NO_INSERT")
    case True
    obtain r b where rb: "a_read_request env d o' t ?a = (r, b)" by force
    have "case r of Finish res \<Rightarrow> lock_result cs d H W (r, b) | Queue L \<Rightarrow> q b = q a \<and> safe cs b H W \<and> lock_result cs d H W (r, a_cond d (Some cv) (a_append L d b))"
      using rb
    proof (cases rule: read_request_cases)
      case granted
      have c: "compatible (own ?a) (ty ?a) (q ?a Read @ [d]) (q ?a Write)"
        by (rule compatible_read [OF safeD(5) [OF s] n]) (use granted(3) in auto)
      from safe_rnwc [OF s] have "safe cs b (insert d H) W" unfolding granted(2)
        by (intro safe_add [OF s n d(3) a_grant_fields(1)]) (use c d True in \<open>auto simp: a_grant_fields enters_def\<close>)
      then show ?thesis using granted by (auto simp: lock_result_def lock_inv_def no_lost_wakeup_def a_grant_fields)
    next
      case aborted
      have "safe cs b H W" unfolding aborted(2) by (rule off [OF s]) auto
      then show ?thesis using stop [of b THR_LOCK_ABORTED] aborted by simp
    next
      case wait
      then show ?thesis using wait_result [OF s d(1-3), of Read_wait cv] s d True busy by (auto simp: lock_result_def)
    qed
    from fin [OF this] show ?thesis using rb True by (simp add: a_lock_def Let_def)
  next
    case False
    obtain r b where rb: "a_write_request env cv d o' t ?a = Some (r, b)" using write_request_total [OF u(1)] by blast
    have tt: "ty ?a d = t" by simp
    have eff: "TL_READ_NO_INSERT < effective env t" "effective env t \<noteq> TL_WRITE_ONLY" "effective env t = TL_WRITE_CONCURRENT_INSERT \<Longrightarrow> cs"
      using False d(5) u by (auto simp: effective_def type_order split: if_splits)
    have "case r of Finish res \<Rightarrow> lock_result cs d H W (r, b) | Queue L \<Rightarrow> q b = q a \<and> safe cs b H W \<and> lock_result cs d H W (r, a_cond d (Some cv) (a_append L d b))"
    proof (cases rule: write_request_cases [OF rb tt n u(1), consumes 0, case_names granted delayed aborted wait])
      case (granted t' ci)
      let ?b = "a_type d t' ?a"
      have sb: "safe cs ?b H W" by (rule off [OF s]) auto
      have t': "TL_READ_NO_INSERT < t'" "t' \<noteq> TL_WRITE_ONLY" using granted(4) eff by (auto simp: type_order)
      have c: "compatible (own ?b) (ty ?b) (q ?b Read) (q ?b Write @ [d])"
      proof (rule compatible_write [OF safeD(5) [OF sb]])
        show "d \<notin> set (q ?b Write)" "d \<notin> set (q ?b Read)" using n by auto
        show "TL_READ_NO_INSERT < ty ?b d" "ty ?b d \<noteq> TL_WRITE_ONLY" using t' by simp_all
        show "\<forall>x\<in>set (q ?b Write). TL_READ_NO_INSERT < ty ?b x" using fieldsD(4) [OF safeD(3) [OF sb]] by simp
      next
        fix x assume x: "x \<in> set (q ?b Write)" "own ?b x = own ?b d"
        then have "x \<noteq> d" "x \<in> H \<or> W x \<noteq> None" "TL_READ_NO_INSERT < ty a x" "own a x = o'" "q a Write \<noteq> []"
          using n placedD(2) [OF safeD(6) [OF s0], of x Write] fieldsD(4) [OF safeD(3) [OF s0], of x] by (auto split: if_splits)
        moreover from this have "t' = effective env t" using granted(4) by simp
        ultimately show "may_follow (ty ?b x) (ty ?b d)" using g by (auto simp: good_request_def)
      next
        fix x xs assume "q ?b Write = x # xs"
        then show "ty ?b x \<noteq> TL_WRITE_ONLY \<and> (own ?b d = own ?b x \<or> ty ?b d = TL_WRITE_ALLOW_WRITE \<and> ty ?b x = TL_WRITE_ALLOW_WRITE)"
          using granted(3) n [of Write] by auto
      next
        assume w: "q ?b Write = []"
        show "exclusive (ty ?b d) \<Longrightarrow> q ?b Read = []" using granted(3) w by (auto simp: type_order)
        have z: "rnwc ?b = 0 \<Longrightarrow> \<forall>y\<in>set (q ?b Read). ty ?b y \<noteq> TL_READ_NO_INSERT"
          using safeD(4) [OF sb] by (auto simp: counted_def filter_empty_conv)
        assume "ty ?b d = TL_WRITE_CONCURRENT_INSERT"
        then have "rnwc ?b = 0 \<or> q ?b Read = []" using granted(3) w by (auto simp: type_order)
        then show "\<forall>y\<in>set (q ?b Read). ty ?b y \<noteq> TL_READ_NO_INSERT" using z by (elim disjE) simp_all
      qed
      have "safe cs b (insert d H) W" unfolding granted(2)
        by (intro safe_add [OF sb _ d(3) a_grant_fields(6)]) (use c d t' n in \<open>auto simp: a_grant_fields enters_def\<close>)
      then show ?thesis using granted by (auto simp: lock_result_def lock_inv_def no_lost_wakeup_def a_grant_fields)
    next
      case delayed
      let ?b = "a_cond d (Some cv) (a_append Write_wait d ?a)"
      have f: "q ?b = (q ?a)(Write_wait := q ?a Write_wait @ [d])" "own ?b = own ?a" "ty ?b = ty ?a" "cnd ?b = (cnd a)(d := Some cv)" "rnwc ?b = rnwc ?a"
        by (simp_all add: a_defs)
      have "safe cs ?b (insert d H) W"
        by (rule safe_add [OF s n d(3) f(1)]) (use safeD(5) [OF s] d delayed f in \<open>auto simp: enters_def type_order\<close>)
      then show ?thesis using delayed by (auto simp: lock_result_def lock_inv_def no_lost_wakeup_def a_append_def)
    next
      case aborted
      have "safe cs b H W" unfolding aborted(2) by (rule off [OF s]) auto
      then show ?thesis using stop [of b THR_LOCK_ABORTED] aborted by simp
    next
      case (wait t')
      have sb: "safe cs b H W" unfolding wait(2) by (rule off [OF s]) auto
      have t': "TL_READ_NO_INSERT < ty b d" "ty b d \<noteq> TL_WRITE_ONLY" "ty b d = TL_WRITE_CONCURRENT_INSERT \<longrightarrow> cs"
        using wait(2,4) eff by (auto simp: type_order)
      have "q b = q a" unfolding wait(2) by simp
      moreover have "q a Write \<noteq> [] \<or> q a Read \<noteq> [] \<or> q a Write_wait \<noteq> []" using wait(3) by simp
      ultimately have "q b Read \<noteq> [] \<or> q b Write \<noteq> []" using busy by metis
      from wait_result [OF sb d(1-3), of Write_wait cv, OF _ this] t' show ?thesis using wait(1,2) sb by (simp add: lock_result_def)
    qed
    from fin [OF this] show ?thesis using rb False by (simp add: a_lock_def Let_def)
  qed
qed

section \<open>Aborting\<close>

lemma a_abort_loop_effect:
  assumes "\<forall>x\<in>set ds. cnd a x \<noteq> None" "distinct ds"
  shows "\<exists>a'. a_abort_loop ds a = Some a' \<and> q a' = q a \<and> own a' = own a \<and> rnwc a' = rnwc a \<and>
    ty a' = (\<lambda>x. if x \<in> set ds then TL_UNLOCK else ty a x) \<and> cnd a' = (\<lambda>x. if x \<in> set ds then None else cnd a x)"
  using assms
proof (induction ds arbitrary: a)
  case (Cons d ds)
  obtain c where c: "cnd a d = Some c" using Cons.prems(1) by auto
  let ?a = "a_emit (Signal c) (a_cond d None (a_type d TL_UNLOCK a))"
  have f: "q ?a = q a" "own ?a = own a" "rnwc ?a = rnwc a" "ty ?a = (ty a)(d := TL_UNLOCK)" "cnd ?a = (cnd a)(d := None)" by (simp_all add: a_defs)
  have "\<forall>x\<in>set ds. cnd ?a x \<noteq> None" using Cons.prems unfolding f by auto
  then obtain a' where a': "a_abort_loop ds ?a = Some a'" "q a' = q ?a" "own a' = own ?a" "rnwc a' = rnwc ?a"
    "ty a' = (\<lambda>x. if x \<in> set ds then TL_UNLOCK else ty ?a x)" "cnd a' = (\<lambda>x. if x \<in> set ds then None else cnd ?a x)"
    using Cons.IH [of ?a] Cons.prems(2) by auto
  have "a_wake d (a_type d TL_UNLOCK a) = Some ?a" using c by (simp add: a_wake_def a_type_def)
  then show ?case using a' unfolding f by (intro exI [of _ a']) (auto simp: fun_eq_iff)
qed (simp add: fun_eq_iff)

text \<open>All waiting instances leave their queues and are marked as aborted.\<close>

lemma safe_abort:
  assumes s: "safe cs a H W" and f: "q a' = (q a)(Read_wait := [], Write_wait := [])" "own a' = own a" "rnwc a' = rnwc a"
    and t: "\<And>x. x \<in> set (q a Read_wait @ q a Write_wait) \<Longrightarrow> ty a' x = TL_UNLOCK \<and> cnd a' x = None"
      "\<And>x. x \<notin> set (q a Read_wait @ q a Write_wait) \<Longrightarrow> ty a' x = ty a x \<and> cnd a' x = cnd a x"
  shows "safe cs a' H W"
proof -
  note dq = safeD(1,2) [OF s] and fo = fieldsD [OF safeD(3) [OF s]] and p = placedD [OF safeD(6) [OF s]]
  have e: "ty a' x = ty a x" "cnd a' x = cnd a x" if "x \<in> set (q a Read) \<or> x \<in> set (q a Write)" for x
    using t(2) [of x] dq(2) [of Read Read_wait] dq(2) [of Read Write_wait] dq(2) [of Write Read_wait] dq(2) [of Write Write_wait] that by auto
  have "compatible (own a') (ty a') (q a' Read) (q a' Write)"
    using safeD(5) [OF s] unfolding f(1) by (subst compatible_eq [of _ _ _ "ty a" _ "own a"]) (use e f in auto)
  moreover have "filter (\<lambda>x. ty a' x = TL_READ_NO_INSERT) (q a Read) = filter (\<lambda>x. ty a x = TL_READ_NO_INSERT) (q a Read)"
    by (intro filter_cong) (use e in auto)
  moreover have "fields_ok cs a'" using fo(2,4) unfolding fields_ok_def f(1) by (auto simp: e)
  moreover have "disjoint_queues a'" using dq unfolding disjoint_queues_def f(1) by auto
  moreover have "placed a' H W" unfolding placed_def
  proof (intro conjI allI ballI impI)
    fix L x assume "x \<in> set (q a' L)"
    then have "x \<in> set (q a L)" using f(1) by (auto split: if_splits)
    then show "x \<in> H \<or> W x \<noteq> None" "x < 2147483648" using p(2,3) [of x L] by auto
  next
    fix x assume x: "(x \<in> H \<or> W x \<noteq> None) \<and> (\<forall>L. x \<notin> set (q a' L))"
    have "(\<forall>L. x \<notin> set (q a L)) \<or> x \<in> set (q a Read_wait @ q a Write_wait)" using x unfolding all_lname f(1) by auto
    then show "ty a' x = TL_UNLOCK" "cnd a' x = None" using t(1,2) [of x] p(4) [of x] x by (cases "x \<in> set (q a Read_wait @ q a Write_wait)"; auto)+
  qed (use p f in auto)
  ultimately show ?thesis using safeD(4) [OF s] unfolding safe_def counted_def f by simp
qed

text \<open>An active write lock gets another type.\<close>

lemma safe_retype:
  assumes s: "safe cs a H W" and d: "d \<in> set (q a Write)" and t: "TL_READ_NO_INSERT < t"
    and c: "compatible (own a) ((ty a)(d := t)) (q a Read) (q a Write)"
  shows "safe cs (a_type d t a) H W"
proof -
  note dq = safeD(1,2) [OF s] and p = placedD [OF safeD(6) [OF s]]
  have n: "x \<in> set (q a L) \<Longrightarrow> L \<noteq> Write \<Longrightarrow> x \<noteq> d" for x L using dq(2) [of L Write] d by auto
  have "filter (\<lambda>x. ((ty a)(d := t)) x = TL_READ_NO_INSERT) (q a Read) = filter (\<lambda>x. ty a x = TL_READ_NO_INSERT) (q a Read)"
    by (intro filter_cong) (use n [of _ Read] in auto)
  moreover have "fields_ok cs (a_type d t a)"
    using safeD(3) [OF s] n [of _ Read] n [of _ Read_wait] n [of _ Write_wait] t unfolding fields_ok_def by auto
  moreover have "placed (a_type d t a) H W"
    unfolding placed_def q_unchanged
  proof (intro conjI allI ballI impI)
    fix x assume x: "(x \<in> H \<or> W x \<noteq> None) \<and> (\<forall>L. x \<notin> set (q a L))"
    then have "x \<noteq> d" using d by blast
    then show "ty (a_type d t a) x = TL_UNLOCK" "cnd (a_type d t a) x = None" using p(4) [of x] x by auto
  next
    fix x assume "x \<in> set (q a Write_wait)"
    then show "if x \<in> H then ty (a_type d t a) x = TL_WRITE_DELAYED else (\<exists>b. W x = Some (Write_wait, b))"
      using p(6) [of x] n [of x Write_wait] by auto
  next
    fix L x assume "x \<in> set (q a L)" then show "x \<in> H \<or> W x \<noteq> None" "x < 2147483648" using p(2,3) [of x L] by auto
  qed (use p(1,5) in auto)
  ultimately show ?thesis using s c unfolding safe_def disjoint_queues_def counted_def by simp
qed

text \<open>The first active write lock is made exclusive for ever.\<close>

lemma safe_write_only:
  assumes s: "safe cs a H W" and w: "q a Write = d # ds"
  shows "safe cs (a_type d TL_WRITE_ONLY a) H W"
proof (rule safe_retype [OF s])
  have n: "x \<in> set (q a Read) \<Longrightarrow> x \<noteq> d" for x using safeD(2) [OF s, of Read Write] w by auto
  have d: "d \<notin> set ds" using safeD(1) [OF s, of Write] w by simp
  have c: "compatible (own a) (ty a) (q a Read) (d # ds)" using safeD(5) [OF s] w by simp
  have "sorted_wrt (\<lambda>x y. may_follow (((ty a)(d := TL_WRITE_ONLY)) x) (((ty a)(d := TL_WRITE_ONLY)) y)) ds =
      sorted_wrt (\<lambda>x y. may_follow (ty a x) (ty a y)) ds" by (rule sorted_wrt_eq) (use d in auto)
  moreover have "may_follow TL_WRITE_ONLY t" for t by (cases t) (auto simp: may_follow_def type_order)
  ultimately show "compatible (own a) ((ty a)(d := TL_WRITE_ONLY)) (q a Read) (q a Write)"
    using c d n unfolding compatible_def w by auto
qed (use w in \<open>simp_all add: type_order\<close>)

lemma a_abort_inv:
  assumes i: "lock_inv cs a H W"
  shows "\<exists>a'. a_abort a = Some a' \<and> lock_inv cs a' H W"
proof -
  have s: "safe cs a H W" using i by (simp add: lock_inv_def)
  note dq = safeD(1,2) [OF s] and fo = fieldsD [OF safeD(3) [OF s]]
  obtain a1 where a1: "a_abort_loop (q a Read_wait) a = Some a1" "q a1 = q a" "own a1 = own a" "rnwc a1 = rnwc a"
    "ty a1 = (\<lambda>x. if x \<in> set (q a Read_wait) then TL_UNLOCK else ty a x)" "cnd a1 = (\<lambda>x. if x \<in> set (q a Read_wait) then None else cnd a x)"
    using a_abort_loop_effect [of "q a Read_wait" a] fo(1) dq(1) by auto
  have "\<forall>x\<in>set (q a1 Write_wait). cnd a1 x \<noteq> None" using fo(3) dq(2) [of Read_wait Write_wait] a1 by auto
  then obtain a2 where a2: "a_abort_loop (q a1 Write_wait) a1 = Some a2" "q a2 = q a1" "own a2 = own a1" "rnwc a2 = rnwc a1"
    "ty a2 = (\<lambda>x. if x \<in> set (q a1 Write_wait) then TL_UNLOCK else ty a1 x)" "cnd a2 = (\<lambda>x. if x \<in> set (q a1 Write_wait) then None else cnd a1 x)"
    using a_abort_loop_effect [of "q a1 Write_wait" a1] dq(1) a1(2) by auto
  let ?a = "a2\<lparr>q := (q a2)(Read_wait := [], Write_wait := [])\<rparr>"
  have s': "safe cs ?a H W" by (rule safe_abort [OF s]) (use a1 a2 in auto)
  have "safe cs (case q ?a Write of [] \<Rightarrow> ?a | w # _ \<Rightarrow> a_type w TL_WRITE_ONLY ?a) H W"
    using s' safe_write_only [OF s'] by (auto split: list.split)
  then show ?thesis unfolding a_abort_def a1(1) a2(1) Let_def
    by (auto simp: a1(1) a2(1) Let_def lock_inv_def no_lost_wakeup_def split: list.splits)
qed

lemma a_abort_thread_loop_inv:
  assumes "lock_inv cs a H W" "L = Read_wait \<or> L = Write_wait" "set ds \<subseteq> set (q a L)" "distinct ds"
  shows "\<exists>f a'. a_abort_thread_loop env thread L ds found a = Some (f, a') \<and> lock_inv cs a' H W"
  using assms
proof (induction ds arbitrary: a found)
  case (Cons d ds)
  show ?case
  proof (cases "owner_info env (own a d) = thread")
    case False
    then show ?thesis using Cons by simp
  next
    case True
    have s: "safe cs a H W" using Cons.prems(1) by (simp add: lock_inv_def)
    have dL: "d \<in> set (q a L)" using Cons.prems by simp
    then obtain c where c: "cnd a d = Some c" using Cons.prems(2) fieldsD(1,3) [OF safeD(3) [OF s], of d] by auto
    let ?a = "a_emit (Signal c) (a_cond d None (a_type d TL_UNLOCK a))"
    let ?b = "a_remove L d ?a"
    have w: "a_wake d (a_type d TL_UNLOCK a) = Some ?a" using c by (simp add: a_wake_def)
    have f: "q ?b = (q a)(L := remove1 d (q a L))" "own ?b = own a" "rnwc ?b = rnwc a" "ty ?b = (ty a)(d := TL_UNLOCK)" "cnd ?b = (cnd a)(d := None)"
      by (simp_all add: a_defs)
    have "safe cs ?b H W"
      by (rule safe_drop [OF s dL f(1,2,4)]) (use f placedD(1) [OF safeD(6) [OF s]] Cons.prems(2) in auto)
    moreover have "no_lost_wakeup ?b" using Cons.prems(1,2) by (auto simp: lock_inv_def no_lost_wakeup_def f)
    moreover have "set ds \<subseteq> set (q ?b L)" using Cons.prems(3,4) safeD(1) [OF s, of L] by (auto simp: f)
    ultimately show ?thesis using Cons.IH [of ?b True] Cons.prems True w by (auto simp: lock_inv_def)
  qed
qed simp

lemma a_abort_thread_inv:
  assumes "lock_inv cs a H W"
  shows "\<exists>f a'. a_abort_thread env thread a = Some (f, a') \<and> lock_inv cs a' H W"
proof -
  obtain f a1 where "a_abort_thread_loop env thread Read_wait (q a Read_wait) False a = Some (f, a1)" "lock_inv cs a1 H W"
    using a_abort_thread_loop_inv [OF assms, of Read_wait "q a Read_wait" env thread False] assms safeD(1) by (auto simp: lock_inv_def)
  moreover obtain f' a2 where "a_abort_thread_loop env thread Write_wait (q a1 Write_wait) f a1 = Some (f', a2)" "lock_inv cs a2 H W"
    using a_abort_thread_loop_inv [OF \<open>lock_inv cs a1 H W\<close>, of Write_wait "q a1 Write_wait" env thread f] \<open>lock_inv cs a1 H W\<close> safeD(1)
    by (auto simp: lock_inv_def)
  ultimately show ?thesis by (simp add: a_abort_thread_def)
qed

section \<open>Delayed inserts\<close>

text \<open>The thread of a delayed insert has one lock instance.\<close>

definition alone :: "alock \<Rightarrow> nat \<Rightarrow> nat set \<Rightarrow> waiters \<Rightarrow> bool" where
  "alone a d H W \<longleftrightarrow> d \<in> H \<and> (\<forall>x. (x \<in> H \<or> W x \<noteq> None) \<and> own a x = own a d \<longrightarrow> x = d)"

lemma alone_write:
  assumes s: "safe cs a H W" and al: "alone a d H W" and d: "d \<in> set (q a Write)" "ty a d \<notin> {TL_WRITE_ALLOW_WRITE, TL_WRITE_ONLY}"
  shows "q a Write = [d]"
proof -
  have "x = d" if "x \<in> set (q a Write)" for x
  proof -
    have "own a x = own a d" using safeD(5) [OF s] that d unfolding compatible_def by metis
    then show ?thesis using al placedD(2) [OF safeD(6) [OF s] that] by (auto simp: alone_def)
  qed
  then have "set (q a Write) = {d}" using d(1) by blast
  then have "length (q a Write) = 1" using distinct_card [OF safeD(1) [OF s, of Write]] by simp
  then show ?thesis using d(1) by (auto simp: length_Suc_conv)
qed

text \<open>The lock goes back to the front of the queue.\<close>

lemma safe_to_front:
  assumes s: "safe cs a H W" and d: "d \<in> H" "d < 2147483648" and w: "q a Write = [d]"
    and f: "q a' = (q a)(Write := [], Write_wait := d # q a Write_wait)" "own a' = own a" "rnwc a' = rnwc a"
      "\<And>x. x \<noteq> d \<Longrightarrow> ty a' x = ty a x \<and> cnd a' x = cnd a x"
    and t: "TL_READ_NO_INSERT < ty a' d" "ty a' d \<noteq> TL_WRITE_ONLY" "ty a' d \<noteq> TL_WRITE_CONCURRENT_INSERT" "cnd a' d \<noteq> None"
    and HW: "H' = H \<and> W' = W \<and> ty a' d = TL_WRITE_DELAYED \<or> H' = H - {d} \<and> W' = W(d := Some (Write_wait, True))"
  shows "safe cs a' H' W'"
proof -
  let ?a = "a_type d TL_UNLOCK (a_remove Write d a)"
  have g: "q ?a = (q a)(Write := [])" "own ?a = own a" "rnwc ?a = rnwc a" "ty ?a = (ty a)(d := TL_UNLOCK)" "cnd ?a = cnd a"
    using w by (simp_all add: a_defs)
  have dw: "d \<in> set (q a Write)" using w by simp
  have Wd: "W d = None" using placedD(1) [OF safeD(6) [OF s] d(1)] .
  have s': "safe cs ?a (H - {d}) W"
    by (rule safe_drop [OF s dw]) (use Wd g w in auto)
  have n: "d \<notin> set (q ?a L)" for L using placedD(2) [OF safeD(6) [OF s'], of d L] Wd by auto
  have c: "compatible (own a') (ty a') (q a' Read) (q a' Write)" using f by (simp add: compatible_def)
  have q': "q a' = (q ?a)(Write_wait := d # q ?a Write_wait)" using f g by auto
  show ?thesis
    by (rule safe_add [OF s' n d(2) q']) (use f g t c HW Wd d in \<open>auto simp: enters_def\<close>)
qed

lemma a_upgrade_inv:
  assumes i: "lock_inv cs a H W" and al: "alone a d H W"
    and t: "ty a d = TL_UNLOCK \<or> ty a d = TL_WRITE_DELAYED \<or> TL_WRITE_LOW_PRIORITY \<le> ty a d"
  shows "(case a_upgrade env cv d a of
      (Inl _, a') \<Rightarrow> lock_inv cs a' H W
    | (Inr L, a') \<Rightarrow> L = Write_wait \<and> lock_inv cs a' (H - {d}) (W(d := Some (Write_wait, True))))"
    "cnd a d = None \<Longrightarrow> ty a d = TL_WRITE_DELAYED \<Longrightarrow> d \<in> set (q a Write)"
proof -
  have s: "safe cs a H W" using i by (simp add: lock_inv_def)
  have dH: "d \<in> H" using al by (simp add: alone_def)
  have Wd: "W d = None" using placedD(1) [OF safeD(6) [OF s] dH] .
  have l: "d \<in> set (q a (if cnd a d = None then Write else Write_wait))" if "ty a d = TL_WRITE_DELAYED"
    using held_listed [OF s dH] that by (auto simp: a_unlock_list_def type_order)
  show dw: "d \<in> set (q a Write)" if "cnd a d = None" "ty a d = TL_WRITE_DELAYED" using l that by simp
  have d: "d < 2147483648" if "ty a d = TL_WRITE_DELAYED" using placedD(3) [OF safeD(6) [OF s] l [OF that]] .
  consider (no) "ty a d = TL_UNLOCK \<or> TL_WRITE_LOW_PRIORITY \<le> ty a d"
    | (held) "ty a d = TL_WRITE_DELAYED" "cnd a d = None" "q a Read = []"
    | (busy) "ty a d = TL_WRITE_DELAYED" "cnd a d = None" "q a Read \<noteq> []"
    | (queued) "ty a d = TL_WRITE_DELAYED" "cnd a d \<noteq> None" using t by blast
  then show "case a_upgrade env cv d a of
      (Inl _, a') \<Rightarrow> lock_inv cs a' H W
    | (Inr L, a') \<Rightarrow> L = Write_wait \<and> lock_inv cs a' (H - {d}) (W(d := Some (Write_wait, True)))"
  proof cases
    case no
    then show ?thesis using i by (simp add: a_upgrade_def)
  next
    case held
    have w: "q a Write = [d]" by (rule alone_write [OF s al dw [OF held(2,1)]]) (simp add: held)
    let ?a = "a_type d TL_WRITE a"
    have "safe cs ?a H W"
      by (rule safe_retype [OF s]) (use w held in \<open>simp_all add: type_order compatible_def\<close>)
    then show ?thesis using held i w by (simp add: a_upgrade_def Let_def type_order lock_inv_def no_lost_wakeup_def a_get_status_def)
  next
    case busy
    have w: "q a Write = [d]" by (rule alone_write [OF s al dw [OF busy(2,1)]]) (simp add: busy)
    let ?a = "a_cond d (Some cv) (a_push Write_wait d (a_remove Write d (a_type d TL_WRITE a)))"
    have "safe cs ?a (H - {d}) (W(d := Some (Write_wait, True)))"
      by (rule safe_to_front [OF s dH d [OF busy(1)] w]) (use w in \<open>auto simp: a_defs type_order\<close>)
    moreover have "no_lost_wakeup ?a" using busy by (simp add: no_lost_wakeup_def a_defs)
    ultimately show ?thesis using busy by (simp add: a_upgrade_def Let_def type_order lock_inv_def)
  next
    case queued
    let ?a = "a_cond d (Some cv) (a_type d TL_WRITE a)"
    have "d \<in> set (q a Write_wait)" using l queued by simp
    then have "safe cs ?a (H - {d}) (W(d := Some (Write_wait, True)))"
      by (rule safe_requeue [OF s, where b = True]) (auto simp: a_defs)
    moreover have "no_lost_wakeup ?a" using i by (simp add: lock_inv_def no_lost_wakeup_def)
    ultimately show ?thesis using queued by (auto simp: a_upgrade_def Let_def type_order lock_inv_def)
  qed
qed

lemma a_reschedule_inv:
  assumes i: "lock_inv cs a H W" and al: "alone a d H W" and t: "ty a d = TL_WRITE"
  shows "\<exists>b a'. a_reschedule env cv d a = Some (b, a') \<and> lock_inv cs a' H W \<and> (b \<longrightarrow> ty a' d = TL_WRITE_DELAYED)"
    "d \<in> set (q a Write)"
proof -
  have s: "safe cs a H W" using i by (simp add: lock_inv_def)
  have dH: "d \<in> H" using al by (simp add: alone_def)
  show dw: "d \<in> set (q a Write)" using held_listed [OF s dH] t by (simp add: a_unlock_list_def type_order)
  have w: "q a Write = [d]" by (rule alone_write [OF s al dw]) (simp add: t)
  show "\<exists>b a'. a_reschedule env cv d a = Some (b, a') \<and> lock_inv cs a' H W \<and> (b \<longrightarrow> ty a' d = TL_WRITE_DELAYED)"
  proof (cases "q a Read_wait = []")
    case True
    then show ?thesis using i by (auto simp: a_reschedule_def)
  next
    case False
    let ?a = "a_cond d (Some cv) (a_push Write_wait d (a_remove Write d (a_update_status env d (a_type d TL_WRITE_DELAYED a))))"
    have f: "q ?a = (q a)(Write := [], Write_wait := d # q a Write_wait)" "own ?a = own a" "rnwc ?a = rnwc a"
      "ty ?a = (ty a)(d := TL_WRITE_DELAYED)" "cnd ?a = (cnd a)(d := Some cv)" using w by (simp_all add: a_defs fun_upd_twist)
    have "safe cs ?a H W"
      by (rule safe_to_front [OF s dH placedD(3) [OF safeD(6) [OF s] dw] w f(1-3)]) (simp_all add: f type_order)
    from a_free_waiting_inv [OF this, of False] obtain a' where "a_free_waiting False ?a = Some a'" "safe cs a' H W" "ty a' = ty ?a" "q a' Read \<noteq> []"
      using f False by auto
    then show ?thesis using False f by (auto simp: a_reschedule_def Let_def a_free_all_waiting lock_inv_def no_lost_wakeup_def)
  qed
qed

end
