(* ===== verification/Thr_Lock_System.thy ===== *)
theory Thr_Lock_System
  imports Thr_Lock_Request
begin

text \<open>
  Many threads at one table lock.

  A state is the lock together with what the threads know: \<open>held\<close>, the instances whose last call
  succeeded and that were not unlocked yet, and \<open>waiting\<close>, the instances whose thread is inside
  \<open>wait_for_lock\<close>.  Each step is one stretch of code that runs under the mutex, so that the
  steps of different threads interleave as the mutex allows.  The environment (whether
  \<open>check_status\<close> finds the table fit for concurrent inserts, the limit for write locks in a row)
  may change from step to step.

  The rules demand of the clients what the SQL layer guarantees: instances are not locked twice,
  further write locks of one owner on the same table come in descending order (which the sorting of
  \<open>thr_multi_lock\<close> ensures), and \<open>thr_upgrade_write_delay_lock\<close> and \<open>thr_reschedule_write_lock\<close> are
  called by the thread of a delayed insert, which has one lock.
\<close>

record lock_system =
  lk :: THR_LOCK
  held :: "nat set"
  waiting :: waiters

text \<open>The demands, in terms of the fields of the instances.\<close>

definition may_request :: "thr_env \<Rightarrow> nat \<Rightarrow> nat \<Rightarrow> thr_lock_type \<Rightarrow> lock_system \<Rightarrow> bool" where
  "may_request env d o' t s \<longleftrightarrow>
     d \<notin> held s \<and> waiting s d = None \<and> d < 2147483648 \<and> TL_UNLOCK < t \<and> t \<noteq> TL_WRITE_ONLY \<and>
     (\<forall>x. (x \<in> held s \<or> waiting s x \<noteq> None) \<and> owner_of (lk s) x = o' \<and> TL_READ_NO_INSERT < type_of (lk s) x \<longrightarrow>
        may_follow (type_of (lk s) x) (effective env t))"

definition only_lock :: "nat \<Rightarrow> lock_system \<Rightarrow> bool" where
  "only_lock d s \<longleftrightarrow> d \<in> held s \<and> (\<forall>x. (x \<in> held s \<or> waiting s x \<noteq> None) \<and> owner_of (lk s) x = owner_of (lk s) d \<longrightarrow> x = d)"

inductive lock_step :: "bool \<Rightarrow> lock_system \<Rightarrow> lock_system \<Rightarrow> bool" for cs where
  lock_done:
    "good_env cs env \<Longrightarrow> may_request env d o' t s \<Longrightarrow> thr_lock env cv d o' t (lk s) = Some (Finish res, l) \<Longrightarrow>
     lock_step cs s (s\<lparr>lk := l, held := if res = THR_LOCK_SUCCESS then insert d (held s) else held s\<rparr>)"
| lock_wait:
    "good_env cs env \<Longrightarrow> may_request env d o' t s \<Longrightarrow> thr_lock env cv d o' t (lk s) = Some (Queue L, l) \<Longrightarrow>
     lock_step cs s (s\<lparr>lk := l, waiting := (waiting s)(d := Some (L, False))\<rparr>)"
| wait_end:
    "waiting s d = Some (L, b) \<Longrightarrow> wait_ends b can_deadlock abort timed_out (cond_of (lk s) d) \<Longrightarrow>
     wait_leave env L timed_out d (lk s) = (res, l) \<Longrightarrow>
     lock_step cs s (s\<lparr>lk := l, held := if res = THR_LOCK_SUCCESS then insert d (held s) else held s,
       waiting := (waiting s)(d := None)\<rparr>)"
| unlock:
    "good_env cs env \<Longrightarrow> d \<in> held s \<Longrightarrow> type_of (lk s) d \<noteq> TL_UNLOCK \<Longrightarrow> thr_unlock env d (lk s) = Some l \<Longrightarrow>
     lock_step cs s (s\<lparr>lk := l, held := held s - {d}\<rparr>)"
| unlock_aborted:
    "d \<in> held s \<Longrightarrow> type_of (lk s) d = TL_UNLOCK \<Longrightarrow> lock_step cs s (s\<lparr>held := held s - {d}\<rparr>)"
| abort_all:
    "thr_abort_locks (lk s) = Some l \<Longrightarrow> lock_step cs s (s\<lparr>lk := l\<rparr>)"
| abort_thread:
    "thr_abort_locks_for_thread env thread (lk s) = Some (found, l) \<Longrightarrow> lock_step cs s (s\<lparr>lk := l\<rparr>)"
| upgrade_done:
    "only_lock d s \<Longrightarrow> type_of (lk s) d \<in> {TL_UNLOCK, TL_WRITE_DELAYED, TL_WRITE_LOW_PRIORITY, TL_WRITE, TL_WRITE_ONLY} \<Longrightarrow>
     thr_upgrade_write_delay_lock env cv d (lk s) = (Inl aborted, l) \<Longrightarrow> lock_step cs s (s\<lparr>lk := l\<rparr>)"
| upgrade_wait:
    "only_lock d s \<Longrightarrow> type_of (lk s) d \<in> {TL_UNLOCK, TL_WRITE_DELAYED, TL_WRITE_LOW_PRIORITY, TL_WRITE, TL_WRITE_ONLY} \<Longrightarrow>
     thr_upgrade_write_delay_lock env cv d (lk s) = (Inr L, l) \<Longrightarrow>
     lock_step cs s (s\<lparr>lk := l, held := held s - {d}, waiting := (waiting s)(d := Some (L, True))\<rparr>)"
| reschedule:
    "only_lock d s \<Longrightarrow> type_of (lk s) d = TL_WRITE \<Longrightarrow> thr_reschedule_write_lock env cv d (lk s) = Some (upgrade, l) \<Longrightarrow>
     lock_step cs s (s\<lparr>lk := l\<rparr>)"

text \<open>The states that are reached from an initialised lock.\<close>

inductive reachable :: "bool \<Rightarrow> lock_system \<Rightarrow> bool" for cs where
  init: "reachable cs \<lparr>lk = thr_lock_init m, held = {}, waiting = (\<lambda>_. None)\<rparr>"
| step: "reachable cs s \<Longrightarrow> lock_step cs s s' \<Longrightarrow> reachable cs s'"

inductive_cases lock_stepE: "lock_step cs s s'"

section \<open>The invariant holds in all reachable states\<close>

definition sys_inv :: "bool \<Rightarrow> lock_system \<Rightarrow> alock \<Rightarrow> bool" where
  "sys_inv cs s a \<longleftrightarrow> represents (lk s) a \<and> lock_inv cs a (held s) (waiting s)"

text \<open>The state right after \<open>thr_lock_init\<close>.\<close>

definition empty_lock :: "(nat \<Rightarrow> THR_LOCK_DATA) \<Rightarrow> alock" where
  "empty_lock m = \<lparr>q = (\<lambda>_. []), own = (\<lambda>d. owner (m d)), ty = (\<lambda>d. lock_type (m d)), cnd = (\<lambda>d. cond (m d)),
     par = (\<lambda>d. status_param (m d)), wlc = 0, rnwc = 0, evs = []\<rparr>"

lemma init_inv: "sys_inv cs \<lparr>lk = thr_lock_init m, held = {}, waiting = (\<lambda>_. None)\<rparr> (empty_lock m)"
  by (auto simp: sys_inv_def lock_inv_def safe_defs no_lost_wakeup_def represents_def linked_def same_fields_def empty_lock_def
      thr_lock_init_def deref_def prv_of_def last_of_def owner_of_def type_of_def cond_of_def param_of_def fun_eq_iff)

lemma good_request_iff:
  assumes "represents (lk s) a" "may_request env d o' t s"
  shows "good_request env d o' t a (held s) (waiting s)"
  using assms by (simp add: may_request_def good_request_def represents_fields)

text \<open>A request returns or waits; the result keeps the invariant.\<close>

lemma thr_lock_inv:
  assumes i: "sys_inv cs s a" and g: "good_env cs env" "may_request env d o' t s"
  shows "\<exists>r l a'. thr_lock env cv d o' t (lk s) = Some (r, l) \<and> represents l a' \<and> lock_result cs d (held s) (waiting s) (r, a')"
proof -
  have r: "represents (lk s) a" and li: "lock_inv cs a (held s) (waiting s)" using i by (auto simp: sys_inv_def)
  have gr: "good_request env d o' t a (held s) (waiting s)" by (rule good_request_iff [OF r g(2)])
  have n: "d \<notin> set (q a L)" for L
    using placedD(2) [OF safeD(6), of cs a "held s" "waiting s" d L] li g(2) by (auto simp: lock_inv_def may_request_def)
  obtain r' a' where "a_lock env cv d o' t a = Some (r', a')" "lock_result cs d (held s) (waiting s) (r', a')"
    using a_lock_inv [OF li gr g(1), of cv] by auto
  with thr_lock_refines [OF r n, of env cv o' t] show ?thesis by (auto simp: option_rel_Some2)
qed

lemma thr_unlock_inv:
  assumes i: "sys_inv cs s a" and g: "good_env cs env" "d \<in> held s" "type_of (lk s) d \<noteq> TL_UNLOCK"
  shows "\<exists>l a'. thr_unlock env d (lk s) = Some l \<and> a_unlock env d a = Some a' \<and> represents l a' \<and> lock_inv cs a' (held s - {d}) (waiting s)"
proof -
  have r: "represents (lk s) a" and li: "lock_inv cs a (held s) (waiting s)" using i by (auto simp: sys_inv_def)
  have t: "ty a d \<noteq> TL_UNLOCK" using g(3) represents_fields(2) [OF r] by simp
  have l: "d \<in> set (q a (a_unlock_list a d))" using held_listed [OF _ g(2) t] li by (auto simp: lock_inv_def)
  obtain a' where "a_unlock env d a = Some a'" "lock_inv cs a' (held s - {d}) (waiting s)"
    using a_unlock_inv [OF li g(2) t] g(1) by (auto simp: good_env_def)
  with thr_unlock_refines [OF r l, of env] show ?thesis by (auto simp: option_rel_Some2)
qed

lemma only_lock_alone: "represents (lk s) a \<Longrightarrow> only_lock d s \<Longrightarrow> alone a d (held s) (waiting s)"
  by (simp add: only_lock_def alone_def represents_fields)

lemma thr_upgrade_inv:
  assumes i: "sys_inv cs s a" and o: "only_lock d s"
    and t: "type_of (lk s) d \<in> {TL_UNLOCK, TL_WRITE_DELAYED, TL_WRITE_LOW_PRIORITY, TL_WRITE, TL_WRITE_ONLY}"
    and u: "thr_upgrade_write_delay_lock env cv d (lk s) = (res, l)"
  shows "\<exists>a'. represents l a' \<and> (case res of
      Inl _ \<Rightarrow> lock_inv cs a' (held s) (waiting s)
    | Inr L \<Rightarrow> L = Write_wait \<and> lock_inv cs a' (held s - {d}) ((waiting s)(d := Some (L, True))))"
proof -
  have r: "represents (lk s) a" and li: "lock_inv cs a (held s) (waiting s)" using i by (auto simp: sys_inv_def)
  have t': "ty a d = TL_UNLOCK \<or> ty a d = TL_WRITE_DELAYED \<or> TL_WRITE_LOW_PRIORITY \<le> ty a d" "ty a d < TL_WRITE_LOW_PRIORITY \<Longrightarrow> ty a d \<noteq> TL_UNLOCK \<Longrightarrow> ty a d = TL_WRITE_DELAYED"
    using t represents_fields(2) [OF r] by (auto simp: type_order)
  note up = a_upgrade_inv [OF li only_lock_alone [OF r o] t'(1)]
  have "rel_prod (=) represents (thr_upgrade_write_delay_lock env cv d (lk s)) (a_upgrade env cv d a)"
    by (rule thr_upgrade_refines [OF r]) (use up(2) t'(2) in auto)
  then obtain a' where "a_upgrade env cv d a = (res, a')" "represents l a'" using u by (cases "a_upgrade env cv d a") auto
  then show ?thesis using up(1) [of env cv] by (auto split: sum.splits)
qed

lemma step_inv: "lock_step cs s s' \<Longrightarrow> sys_inv cs s a \<Longrightarrow> \<exists>a'. sys_inv cs s' a'"
proof (induction rule: lock_step.induct)
  case (lock_done env d o' t s cv res l)
  then show ?case using thr_lock_inv [OF lock_done(4,1,2), of cv] by (auto simp: sys_inv_def lock_result_def)
next
  case (lock_wait env d o' t s cv L l)
  then show ?case using thr_lock_inv [OF lock_wait(4,1,2), of cv] by (auto simp: sys_inv_def lock_result_def)
next
  case (wait_end s d L b can_deadlock abort timed_out env res l)
  have r: "represents (lk s) a" and li: "lock_inv cs a (held s) (waiting s)" using wait_end(4) by (auto simp: sys_inv_def)
  obtain res' a' where a': "a_wait_leave env L timed_out d a = (res', a')" by force
  note w = a_wait_leave_inv [OF li wait_end(1) a']
  have "rel_prod (=) represents (res, l) (res', a')"
    using wait_leave_refines [OF r w(2), of env timed_out] unfolding wait_end(3) a' by simp
  then show ?case using w(1) by (auto simp: sys_inv_def)
next
  case (unlock env d s l)
  then show ?case using thr_unlock_inv [OF unlock(5,1-3)] by (auto simp: sys_inv_def)
next
  case (unlock_aborted d s)
  have r: "represents (lk s) a" and li: "lock_inv cs a (held s) (waiting s)" using unlock_aborted(3) by (auto simp: sys_inv_def)
  have sf: "safe cs a (held s) (waiting s)" using li by (simp add: lock_inv_def)
  have t: "ty a d = TL_UNLOCK" using unlock_aborted(2) represents_fields(2) [OF r] by simp
  have n: "d \<notin> set (q a L)" for L using fieldsD [OF safeD(3) [OF sf], of d] t by (cases L) (auto simp: type_order)
  have "placed a (held s - {d}) (waiting s)"
    by (rule placed_upd [OF safeD(6) [OF sf], of d]) (use n placedD(1) [OF safeD(6) [OF sf] unlock_aborted(1)] in auto)
  then show ?case using r li by (auto simp: sys_inv_def lock_inv_def safe_def)
next
  case (abort_all s l)
  then show ?case using a_abort_inv [of cs a "held s" "waiting s"] thr_abort_locks_refines [of "lk s" a] by (auto simp: sys_inv_def option_rel_Some1)
next
  case (abort_thread env thread s found l)
  then show ?case using a_abort_thread_inv [of cs a "held s" "waiting s" env thread] thr_abort_locks_for_thread_refines [of "lk s" a env thread]
    by (auto simp: sys_inv_def option_rel_Some1)
next
  case (upgrade_done d s env cv aborted l)
  then show ?case using thr_upgrade_inv [OF upgrade_done(4,1,2,3)] by (auto simp: sys_inv_def)
next
  case (upgrade_wait d s env cv L l)
  then show ?case using thr_upgrade_inv [OF upgrade_wait(4,1,2,3)] by (auto simp: sys_inv_def)
next
  case (reschedule d s env cv upgrade l)
  have r: "represents (lk s) a" and li: "lock_inv cs a (held s) (waiting s)" using reschedule(4) by (auto simp: sys_inv_def)
  have t: "ty a d = TL_WRITE" using reschedule(2) represents_fields(2) [OF r] by simp
  note re = a_reschedule_inv [OF li only_lock_alone [OF r reschedule(1)] t]
  show ?case using re(1) [of env cv] thr_reschedule_refines [OF r re(2), of env cv] reschedule(3) by (auto simp: sys_inv_def option_rel_Some1)
qed

lemma reachable_inv: "reachable cs s \<Longrightarrow> \<exists>a. sys_inv cs s a"
  by (induction rule: reachable.induct) (use init_inv step_inv in blast)+

end
