(* ===== verification/Thr_Lock_Live.thy ===== *)
theory Thr_Lock_Live
  imports Thr_Lock_System
begin

text \<open>
  What the table locks promise, for every reachable state: which locks are active together, that
  no waiting thread is forgotten, that permitted calls return, and that the lock drains when its
  holders release it.  The statements speak of the links of the model (\<open>on_list\<close>) and of the
  fields of the instances only.
\<close>

section \<open>The elements of a list\<close>

inductive on_list :: "THR_LOCK \<Rightarrow> lname \<Rightarrow> nat \<Rightarrow> bool" for l L where
  head: "first l L = Some d \<Longrightarrow> on_list l L d"
| later: "on_list l L d \<Longrightarrow> nxt (mem l d) = Some n \<Longrightarrow> on_list l L n"

lemma on_list_queue:
  assumes r: "represents l a"
  shows "on_list l L d \<longleftrightarrow> d \<in> set (q a L)"
proof
  have lk: "linked {} (deref l) (prv_of l) (last_of l) (q a)" using r by (simp add: represents_def)
  have nx: "nxt (mem l x) = (case ys of [] \<Rightarrow> None | y # _ \<Rightarrow> Some y)" if "q a L = xs @ x # ys" for x xs ys
    using linked_split(2) [OF lk that] by (simp add: fields_of_links)
  show "on_list l L d \<Longrightarrow> d \<in> set (q a L)"
  proof (induction rule: on_list.induct)
    case (head d)
    then show ?case using represents_first [OF r, of L] by (auto simp: a_first_def split: list.splits)
  next
    case (later d n)
    obtain xs ys where s: "q a L = xs @ d # ys" using later.IH by (auto dest: split_list)
    then show ?case using nx [OF s] later.hyps(2) by (auto split: list.splits)
  qed
  have "on_list l L x" if "q a L = xs @ x # ys" for x xs ys using that
  proof (induction xs arbitrary: x ys rule: rev_induct)
    case Nil
    then show ?case using represents_first [OF r, of L] by (auto simp: a_first_def intro: on_list.head)
  next
    case (snoc y xs)
    then have "on_list l L y" "nxt (mem l y) = Some x" using nx [of xs y "x # ys"] by simp_all
    then show ?case by (rule on_list.later)
  qed
  then show "d \<in> set (q a L) \<Longrightarrow> on_list l L d" by (auto dest: split_list)
qed

lemma reachableD:
  assumes "reachable cs s"
  obtains a where "represents (lk s) a" "safe cs a (held s) (waiting s)" "no_lost_wakeup a"
    "\<And>L d. on_list (lk s) L d \<longleftrightarrow> d \<in> set (q a L)" "\<And>L. first (lk s) L = None \<longleftrightarrow> q a L = []"
    "own a = owner_of (lk s)" "ty a = type_of (lk s)" "cnd a = cond_of (lk s)"
proof -
  obtain a where "sys_inv cs s a" using reachable_inv [OF assms] by blast
  then have r: "represents (lk s) a" and "safe cs a (held s) (waiting s)" "no_lost_wakeup a"
    by (auto simp: sys_inv_def lock_inv_def)
  moreover have "first (lk s) L = None \<longleftrightarrow> q a L = []" for L
    using represents_first [OF r, of L] by (auto simp: a_first_def split: list.splits)
  moreover have "own a = owner_of (lk s)" "ty a = type_of (lk s)" "cnd a = cond_of (lk s)"
    using r by (auto simp: represents_def same_fields_def)
  ultimately show thesis using that on_list_queue [OF r] by blast
qed

section \<open>Draining\<close>

text \<open>The steps that release: a holder unlocks, or a thread that was woken leaves \<open>wait_for_lock\<close>.\<close>

inductive drain_step :: "thr_env \<Rightarrow> lock_system \<Rightarrow> lock_system \<Rightarrow> bool" for env where
  wakes:
    "waiting s d = Some (L, b) \<Longrightarrow> cond_of (lk s) d = None \<Longrightarrow> wait_leave env L False d (lk s) = (res, l) \<Longrightarrow>
     drain_step env s (s\<lparr>lk := l, held := if res = THR_LOCK_SUCCESS then insert d (held s) else held s,
       waiting := (waiting s)(d := None)\<rparr>)"
| unlocks:
    "d \<in> held s \<Longrightarrow> type_of (lk s) d \<noteq> TL_UNLOCK \<Longrightarrow> thr_unlock env d (lk s) = Some l \<Longrightarrow>
     drain_step env s (s\<lparr>lk := l, held := held s - {d}\<rparr>)"
| drops:
    "d \<in> held s \<Longrightarrow> type_of (lk s) d = TL_UNLOCK \<Longrightarrow> drain_step env s (s\<lparr>held := held s - {d}\<rparr>)"

lemma drain_is_step:
  assumes "drain_step env s s'" "good_env cs env"
  shows "lock_step cs s s'"
  using assms(1)
proof cases
  case (wakes d L b res l)
  then show ?thesis using lock_step.wait_end [of s d L b False False False env res l cs] by (simp add: wait_ends_def)
next
  case (unlocks d l)
  then show ?thesis using lock_step.unlock [OF assms(2)] by simp
next
  case (drops d)
  then show ?thesis using lock_step.unlock_aborted by simp
qed

lemma drain_reachable: "(drain_step env)\<^sup>*\<^sup>* s s' \<Longrightarrow> good_env cs env \<Longrightarrow> reachable cs s \<Longrightarrow> reachable cs s'"
  by (induction rule: rtranclp_induct) (auto intro: reachable.step drain_is_step)

text \<open>Only finitely many instances are used.\<close>

abbreviation waiters_of :: "lock_system \<Rightarrow> nat set" where
  "waiters_of s \<equiv> dom (waiting s)"

lemma step_finite: "lock_step cs s s' \<Longrightarrow> finite (held s) \<and> finite (waiters_of s) \<Longrightarrow> finite (held s') \<and> finite (waiters_of s')"
  by (induction rule: lock_step.induct) auto

lemma reachable_finite: "reachable cs s \<Longrightarrow> finite (held s) \<and> finite (waiters_of s)"
  by (induction rule: reachable.induct) (use step_finite in \<open>force, blast\<close>)

definition work :: "lock_system \<Rightarrow> nat" where
  "work s = 2 * card (waiters_of s) + card (held s)"

lemma drain_decreases:
  assumes "drain_step env s s'" "finite (held s)" "finite (waiters_of s)"
  shows "work s' < work s"
  using assms(1)
proof cases
  case (wakes d L b res l)
  have "waiters_of s' = waiters_of s - {d}" using wakes by auto
  moreover have "d \<in> waiters_of s" using wakes by auto
  ultimately have "card (waiters_of s') < card (waiters_of s)" using card_Diff1_less [OF assms(3)] by simp
  moreover have "card (held s') \<le> card (held s) + 1" using wakes assms(2) by (simp add: card_insert_if)
  ultimately show ?thesis unfolding work_def by linarith
next
  case (unlocks d l)
  then show ?thesis using card_Diff1_less [OF assms(2)] by (simp add: work_def)
next
  case (drops d)
  then show ?thesis using card_Diff1_less [OF assms(2)] by (simp add: work_def)
qed

text \<open>A thread whose instance is active, or in no list, has been woken.\<close>

lemma woken:
  assumes "safe cs a H W" "W d \<noteq> None" "d \<notin> set (q a Read_wait)" "d \<notin> set (q a Write_wait)"
  shows "cnd a d = None"
proof (cases "d \<in> set (q a Read) \<or> d \<in> set (q a Write)")
  case True
  then show ?thesis using fieldsD(2,4) [OF safeD(3) [OF assms(1)], of d] by blast
next
  case False
  then have "d \<notin> set (q a L)" for L using assms(3,4) by (cases L) auto
  then show ?thesis using placedD(4) [OF safeD(6) [OF assms(1)], of d] assms(2) by blast
qed

lemma drain_progress:
  assumes r: "reachable cs s" and e: "good_env cs env" and n: "held s \<noteq> {} \<or> waiters_of s \<noteq> {}"
  shows "\<exists>s'. drain_step env s s'"
proof (cases "held s = {}")
  case False
  then obtain d where d: "d \<in> held s" by blast
  obtain a where "sys_inv cs s a" using reachable_inv [OF r] by blast
  then show ?thesis using thr_unlock_inv [OF _ e d] drain_step.unlocks [OF d] drain_step.drops [OF d]
    by (cases "type_of (lk s) d = TL_UNLOCK") blast+
next
  case True
  then obtain w where "w \<in> dom (waiting s)" using n by blast
  then have w: "waiting s w \<noteq> None" by auto
  obtain a where a: "safe cs a (held s) (waiting s)" "no_lost_wakeup a" "cnd a = cond_of (lk s)" by (rule reachableD [OF r])
  have "\<exists>d. waiting s d \<noteq> None \<and> cnd a d = None"
  proof (cases "q a Read = [] \<and> q a Write = []")
    case True
    then show ?thesis using a(2) woken [OF a(1) w] w by (auto simp: no_lost_wakeup_def)
  next
    case F: False
    then obtain x where x: "x \<in> set (q a Read) \<or> x \<in> set (q a Write)" by (metis list.set_intros(1) neq_Nil_conv)
    then have "waiting s x \<noteq> None" using placedD(2) [OF safeD(6) [OF a(1)]] True by blast
    then show ?thesis using x fieldsD(2,4) [OF safeD(3) [OF a(1)], of x] by blast
  qed
  then obtain d L b where "waiting s d = Some (L, b)" "cond_of (lk s) d = None" using a(3) by auto
  moreover obtain res l where "wait_leave env L False d (lk s) = (res, l)" by force
  ultimately show ?thesis using drain_step.wakes by blast
qed

section \<open>An example\<close>

lemma distinct_set_singleton:
  assumes "distinct xs" "set xs = {x}"
  shows "xs = [x]"
proof -
  have "length xs = card {x}" unfolding assms(2) [symmetric] by (rule distinct_card [OF assms(1), symmetric])
  then obtain y where "xs = [y]" by (auto simp: length_Suc_conv)
  then show ?thesis using assms(2) by simp
qed

text \<open>Owner 1 has a write lock (instance 0), owner 2 waits for a read lock (instance 1).\<close>

definition unused :: "nat \<Rightarrow> THR_LOCK_DATA" where
  "unused d = \<lparr>owner = 0, nxt = None, prv = Data_of Read, cond = None, lock_type = TL_UNLOCK, status_param = d\<rparr>"

definition plain_env :: thr_env where
  "plain_env = \<lparr>get_status = True, update_status = True, copy_status = False, check_status = Some (\<lambda>_. False),
     max_write_lock_count = 100, thr_upgraded_concurrent_insert_lock = TL_WRITE, owner_info = (\<lambda>x. x)\<rparr>"

lemma plain_env_good: "good_env True plain_env"
  by (simp add: good_env_def plain_env_def)

lemmas lock_eval = thr_lock_init_def unused_def plain_env_def thr_lock_def read_request_def write_request_def delayed_queued_def
  write_decide_def write_free_def grant_read_def grant_write_def own_deadlock_def wait_enter_def append_lock_def remove_lock_def
  push_lock_def set_last_def set_prev_def assign_def upd_def upd_list_def deref_def first_def type_of_def owner_of_def cond_of_def
  set_type_def set_cond_def emit_def call_get_status_def call_update_status_def call_check_status_def count_no_insert_def wake_def
  have_old_read_lock.simps have_specific_lock.simps type_order Let_def

lemmas request_eval = may_request_def effective_def may_follow_def lock_eval

text \<open>The lock after a call by the owner \<open>o'\<close> of the instance \<open>d\<close>.\<close>

definition after_lock :: "nat \<Rightarrow> nat \<Rightarrow> thr_lock_type \<Rightarrow> THR_LOCK \<Rightarrow> THR_LOCK" where
  "after_lock d o' t l = (case thr_lock plain_env 7 d o' t l of Some (_, l') \<Rightarrow> l' | None \<Rightarrow> l)"

lemma reachable_lock:
  assumes "reachable True s" "may_request plain_env d o' t s" "map_option fst (thr_lock plain_env 7 d o' t (lk s)) = Some r"
  shows "r = Finish THR_LOCK_SUCCESS \<Longrightarrow> reachable True (s\<lparr>lk := after_lock d o' t (lk s), held := insert d (held s)\<rparr>)"
    and "r = Queue L \<Longrightarrow> reachable True (s\<lparr>lk := after_lock d o' t (lk s), waiting := (waiting s)(d := Some (L, False))\<rparr>)"
proof -
  have c: "thr_lock plain_env 7 d o' t (lk s) = Some (r, after_lock d o' t (lk s))"
    using assms(3) by (cases "thr_lock plain_env 7 d o' t (lk s)") (auto simp: after_lock_def)
  show "r = Finish THR_LOCK_SUCCESS \<Longrightarrow> reachable True (s\<lparr>lk := after_lock d o' t (lk s), held := insert d (held s)\<rparr>)"
    using reachable.step [OF assms(1) lock_step.lock_done [OF plain_env_good assms(2)]] c by force
  show "r = Queue L \<Longrightarrow> reachable True (s\<lparr>lk := after_lock d o' t (lk s), waiting := (waiting s)(d := Some (L, False))\<rparr>)"
    using reachable.step [OF assms(1) lock_step.lock_wait [OF plain_env_good assms(2)]] c by force
qed

definition writer :: lock_system where
  "writer = \<lparr>lk = after_lock 0 1 TL_WRITE (thr_lock_init unused), held = {0}, waiting = (\<lambda>_. None)\<rparr>"

definition writer_reader :: lock_system where
  "writer_reader = \<lparr>lk = after_lock 1 2 TL_READ (lk writer), held = {0}, waiting = [1 \<mapsto> (Read_wait, False)]\<rparr>"

lemma writer_reachable: "reachable True writer"
  using reachable_lock(1) [OF reachable.init [of True unused], of 0 1 TL_WRITE] by (simp add: writer_def request_eval)

lemma writer_reader_reachable: "reachable True writer_reader"
  using reachable_lock(2) [OF writer_reachable, of 1 2 TL_READ _ Read_wait]
  by (simp add: writer_reader_def writer_def after_lock_def request_eval)

text \<open>The waiting thread is aborted, and the write lock is released before that thread runs again.\<close>

lemma aborted_reachable:
  obtains l where "reachable True \<lparr>lk = l, held = {}, waiting = [1 \<mapsto> (Read_wait, False)]\<rparr>" "first l Read = None" "first l Write = None"
proof -
  obtain l where l: "thr_abort_locks (lk writer_reader) = Some l"
    "\<exists>l'. thr_unlock plain_env 0 l = Some l' \<and> first l' Read = None \<and> first l' Write = None" "type_of l 0 \<noteq> TL_UNLOCK"
    by (simp add: writer_reader_def writer_def after_lock_def thr_abort_locks_def abort_loop.simps thr_unlock_def unlock_list_def
        schedule_idle_def free_waiting_reads_def lock_eval)
  have 1: "reachable True (writer_reader\<lparr>lk := l\<rparr>)"
    by (rule reachable.step [OF writer_reader_reachable lock_step.abort_all]) (rule l(1))
  obtain l' where l': "thr_unlock plain_env 0 l = Some l'" "first l' Read = None" "first l' Write = None" using l(2) by blast
  have "lock_step True (writer_reader\<lparr>lk := l\<rparr>) (writer_reader\<lparr>lk := l', held := {}\<rparr>)"
    using lock_step.unlock [OF plain_env_good, of 0 "writer_reader\<lparr>lk := l\<rparr>" l'] l'(1) l(3) by (simp add: writer_reader_def)
  then have "reachable True (writer_reader\<lparr>lk := l', held := {}\<rparr>)" by (rule reachable.step [OF 1])
  then show thesis using that l' by (simp add: writer_reader_def)
qed

text \<open>Owner 1 has a lock that allows other writers, owner 2 one that forbids inserts.\<close>

definition sharing :: lock_system where
  "sharing = \<lparr>lk = after_lock 1 2 TL_READ_NO_INSERT (after_lock 0 1 TL_WRITE_ALLOW_WRITE (thr_lock_init unused)), held = {0, 1}, waiting = (\<lambda>_. None)\<rparr>"

lemma sharing_reachable: "reachable True sharing"
proof -
  have "reachable True \<lparr>lk = after_lock 0 1 TL_WRITE_ALLOW_WRITE (thr_lock_init unused), held = {0}, waiting = (\<lambda>_. None)\<rparr>"
    using reachable_lock(1) [OF reachable.init [of True unused], of 0 1 TL_WRITE_ALLOW_WRITE] by (simp add: request_eval)
  from reachable_lock(1) [OF this, of 1 2 TL_READ_NO_INSERT] show ?thesis
    by (simp add: sharing_def after_lock_def request_eval insert_commute)
qed

section \<open>Properties\<close>

text \<open>C1 Safety of the table locks, in every state that any interleaving of calls by any number of
  threads reaches.  While a \<open>TL_WRITE\<close> or \<open>TL_WRITE_LOW_PRIORITY\<close> lock is active, all active locks
  of the table belong to its owner.  Write locks of different owners are only active together if both
  allow it (\<open>TL_WRITE_ALLOW_WRITE\<close>, or \<open>TL_WRITE_ONLY\<close> set by an abort).  A concurrent insert and a
  \<open>TL_READ_NO_INSERT\<close> lock of different owners are never active together.\<close>

theorem table_lock_exclusion:
  assumes "reachable cs s" "on_list (lk s) Write w" "on_list (lk s) L x" "L = Read \<or> L = Write"
    and "owner_of (lk s) x \<noteq> owner_of (lk s) w"
  shows "type_of (lk s) w \<notin> {TL_WRITE, TL_WRITE_LOW_PRIORITY} \<and>
    (L = Write \<longrightarrow> {type_of (lk s) w, type_of (lk s) x} \<subseteq> {TL_WRITE_ALLOW_WRITE, TL_WRITE_ONLY}) \<and>
    (L = Read \<longrightarrow> \<not> (type_of (lk s) w = TL_WRITE_CONCURRENT_INSERT \<and> type_of (lk s) x = TL_READ_NO_INSERT))"
proof -
  obtain a where a: "safe cs a (held s) (waiting s)" "\<And>L d. on_list (lk s) L d \<longleftrightarrow> d \<in> set (q a L)"
    "own a = owner_of (lk s)" "ty a = type_of (lk s)" by (rule reachableD [OF assms(1)]) blast
  have w: "w \<in> set (q a Write)" "x \<in> set (q a L)" using assms(2,3) a(2) by simp_all
  note c = safeD(5) [OF a(1), unfolded compatible_def a(3,4)]
  have ww: "type_of (lk s) w \<in> {TL_WRITE_ALLOW_WRITE, TL_WRITE_ONLY} \<and> type_of (lk s) x \<in> {TL_WRITE_ALLOW_WRITE, TL_WRITE_ONLY}" if "L = Write"
    using c w assms(5) unfolding that by metis
  have wr: "\<not> exclusive (type_of (lk s) w)" "\<not> (type_of (lk s) w = TL_WRITE_CONCURRENT_INSERT \<and> type_of (lk s) x = TL_READ_NO_INSERT)" if "L = Read"
    using c w assms(5) unfolding that by metis+
  show ?thesis using ww wr assms(4) by auto
qed

theorem table_lock_exclusion_witness:
  "\<exists>s. reachable True s \<and> on_list (lk s) Write 0 \<and> on_list (lk s) Read 1 \<and> owner_of (lk s) 1 \<noteq> owner_of (lk s) 0 \<and>
    type_of (lk s) 0 \<notin> {TL_WRITE, TL_WRITE_LOW_PRIORITY}"
proof -
  have f: "first (lk sharing) Write = Some 0" "first (lk sharing) Read = Some 1" "owner_of (lk sharing) 1 \<noteq> owner_of (lk sharing) 0"
    by (simp_all add: sharing_def after_lock_def lock_eval)
  then show ?thesis using table_lock_exclusion [OF sharing_reachable on_list.head on_list.head, of 0 Read 1] sharing_reachable
    by (auto intro: on_list.head)
qed

text \<open>C3 No lost wakeup: while no lock of the table is active, both queues are empty and every thread
  that is still inside \<open>wait_for_lock\<close> has been woken (its condition is reset), in every reachable state.\<close>

theorem no_thread_left_waiting:
  assumes "reachable cs s" "first (lk s) Read = None" "first (lk s) Write = None"
  shows "first (lk s) Read_wait = None \<and> first (lk s) Write_wait = None \<and> (\<forall>d\<in>dom (waiting s). cond_of (lk s) d = None)"
proof -
  obtain a where a: "safe cs a (held s) (waiting s)" "no_lost_wakeup a" "\<And>L. first (lk s) L = None \<longleftrightarrow> q a L = []"
    "cnd a = cond_of (lk s)" by (rule reachableD [OF assms(1)]) blast
  have e: "q a Read_wait = []" "q a Write_wait = []" using a(2,3) assms(2,3) by (auto simp: no_lost_wakeup_def)
  then show ?thesis using a(3) woken [OF a(1)] a(4) by auto
qed

theorem no_thread_left_waiting_witness:
  "\<exists>s. reachable True s \<and> first (lk s) Read = None \<and> first (lk s) Write = None \<and> 1 \<in> dom (waiting s) \<and> cond_of (lk s) 1 = None"
proof -
  obtain l where l: "reachable True \<lparr>lk = l, held = {}, waiting = [1 \<mapsto> (Read_wait, False)]\<rparr>" "first l Read = None" "first l Write = None"
    by (rule aborted_reachable)
  then show ?thesis using no_thread_left_waiting [OF l(1)] by (intro exI [of _ "\<lparr>lk = l, held = {}, waiting = [1 \<mapsto> (Read_wait, False)]\<rparr>"]) simp
qed

text \<open>C15 Every permitted call returns or waits: in a reachable state \<open>thr_lock\<close> of an unused instance
  and \<open>thr_unlock\<close> of a lock that is held have a result (no null function or condition is used
  and the walks along the links end).\<close>

theorem lock_calls_return:
  assumes "reachable cs s" "good_env cs env"
  shows "(may_request env d o' t s \<longrightarrow> (\<exists>r l. thr_lock env cv d o' t (lk s) = Some (r, l))) \<and>
    (d' \<in> held s \<and> type_of (lk s) d' \<noteq> TL_UNLOCK \<longrightarrow> (\<exists>l. thr_unlock env d' (lk s) = Some l))"
proof -
  obtain a where a: "sys_inv cs s a" using reachable_inv [OF assms(1)] by blast
  show ?thesis using thr_lock_inv [OF a assms(2)] thr_unlock_inv [OF a assms(2)] by blast
qed

theorem lock_calls_return_witness:
  "(\<exists>r l. thr_lock plain_env 9 1 2 TL_READ (lk writer) = Some (r, l)) \<and> (\<exists>l. thr_unlock plain_env 0 (lk writer) = Some l)"
  using lock_calls_return [OF writer_reachable plain_env_good, of 1 2 TL_READ 9 0]
  by (simp add: writer_def after_lock_def request_eval)

text \<open>C2 Liveness: when no further requests come, the lock drains.  From every reachable state, holders
  that unlock and woken threads that continue, in any order, make at most twice as many steps
  as there are threads waiting plus the number of holders, and as long as somebody has or waits for a
  lock, one of them can go on; at the end everybody had their turn and all four lists are empty.\<close>

theorem lock_drains:
  assumes "reachable cs s" "good_env cs env"
  shows "(\<forall>k s'. (drain_step env ^^ k) s s' \<longrightarrow> k \<le> 2 * card (dom (waiting s)) + card (held s)) \<and>
    (\<forall>s'. (drain_step env)\<^sup>*\<^sup>* s s' \<longrightarrow>
       (\<exists>s''. drain_step env s' s'') \<or> held s' = {} \<and> waiting s' = (\<lambda>_. None) \<and> (\<forall>L. first (lk s') L = None))"
proof (intro conjI allI impI)
  fix k s' assume "(drain_step env ^^ k) s s'"
  then have "k + work s' \<le> work s"
  proof (induction k arbitrary: s')
    case (Suc k)
    then obtain t where t: "(drain_step env ^^ k) s t" "drain_step env t s'" by auto
    have "reachable cs t" using drain_reachable [OF _ assms(2,1)] t(1) by (simp add: relpowp_imp_rtranclp)
    then have "work s' < work t" using drain_decreases [OF t(2)] reachable_finite by blast
    then show ?case using Suc.IH [OF t(1)] by simp
  qed simp
  then show "k \<le> 2 * card (dom (waiting s)) + card (held s)" by (simp add: work_def)
next
  fix s' assume "(drain_step env)\<^sup>*\<^sup>* s s'"
  then have r: "reachable cs s'" by (rule drain_reachable [OF _ assms(2,1)])
  obtain a where a: "safe cs a (held s') (waiting s')" "\<And>L. first (lk s') L = None \<longleftrightarrow> q a L = []" by (rule reachableD [OF r]) blast
  have "first (lk s') L = None" if "held s' = {}" "waiting s' = (\<lambda>_. None)" for L
    using placedD(2) [OF safeD(6) [OF a(1)], of _ L] that a(2) by (metis empty_iff list.set_intros(1) neq_Nil_conv)
  then show "(\<exists>s''. drain_step env s' s'') \<or> held s' = {} \<and> waiting s' = (\<lambda>_. None) \<and> (\<forall>L. first (lk s') L = None)"
    using drain_progress [OF r assms(2)] by (auto simp: dom_eq_empty_conv)
qed

theorem lock_drains_witness:
  "reachable True writer_reader \<and> waiting writer_reader 1 \<noteq> None \<and> (\<exists>s'. drain_step plain_env writer_reader s') \<and>
   \<not> (\<exists>s'. (drain_step plain_env ^^ 4) writer_reader s')"
proof -
  note d = lock_drains [OF writer_reader_reachable plain_env_good]
  have c: "2 * card (dom (waiting writer_reader)) + card (held writer_reader) = 3" "waiting writer_reader 1 \<noteq> None"
    by (simp_all add: writer_reader_def)
  have "\<not> (drain_step plain_env ^^ 4) writer_reader s'" for s' using d [THEN conjunct1, rule_format, of 4 s'] c(1) by linarith
  moreover have "\<exists>s'. drain_step plain_env writer_reader s'" using d [THEN conjunct2, rule_format, OF rtranclp.rtrancl_refl] c(2) by auto
  ultimately show ?thesis using writer_reader_reachable c(2) by blast
qed

text \<open>C4 Refinement: the code on doubly linked lists implements the operations on queues.  If the
  links represent four queues, then \<open>thr_lock\<close> of an instance that is in none of them, \<open>thr_unlock\<close>
  of one that is in the list its type names, and \<open>thr_abort_locks\<close> have a result exactly if the operation on queues
  has one; the results agree and the new links represent the new queues.\<close>

theorem links_implement_queues:
  assumes "represents l a" "\<And>L. d \<notin> set (q a L)" "x \<in> set (q a (a_unlock_list a x))"
  shows "rel_option (rel_prod (=) represents) (thr_lock env cv d o' t l) (a_lock env cv d o' t a) \<and>
    rel_option represents (thr_unlock env x l) (a_unlock env x a) \<and>
    rel_option represents (thr_abort_locks l) (a_abort a)"
  using thr_lock_refines [OF assms(1,2)] thr_unlock_refines [OF assms(1,3)] thr_abort_locks_refines [OF assms(1)] by blast

theorem links_implement_queues_witness:
  "\<exists>a. represents (lk writer) a \<and> q a Write = [0] \<and>
    rel_option (rel_prod (=) represents) (thr_lock plain_env 9 1 2 TL_READ (lk writer)) (a_lock plain_env 9 1 2 TL_READ a) \<and>
    rel_option represents (thr_unlock plain_env 0 (lk writer)) (a_unlock plain_env 0 a)"
proof -
  obtain a where a: "represents (lk writer) a" "safe True a (held writer) (waiting writer)" "ty a = type_of (lk writer)"
    "\<And>L. first (lk writer) L = None \<longleftrightarrow> q a L = []" by (rule reachableD [OF writer_reachable]) blast
  have o: "x = 0" if "x \<in> set (q a L)" for x L using placedD(2) [OF safeD(6) [OF a(2)] that] by (simp add: writer_def)
  have t: "type_of (lk writer) 0 = TL_WRITE" "first (lk writer) Write \<noteq> None" by (simp_all add: writer_def after_lock_def lock_eval)
  then have "q a Write \<noteq> []" using a(4) by metis
  then have "set (q a Write) = {0}" using o by (metis equals0I is_singletonI' is_singleton_the_elem set_empty singletonD singletonI)
  then have w: "q a Write = [0]" by (rule distinct_set_singleton [OF safeD(1) [OF a(2)]])
  have n: "1 \<notin> set (q a L)" for L using o [of 1 L] by auto
  have "a_unlock_list a 0 = Write" using t a(3) by (simp add: a_unlock_list_def type_order)
  then have "0 \<in> set (q a (a_unlock_list a 0))" using w by simp
  from links_implement_queues [OF a(1) n this] show ?thesis using w a(1) by blast
qed

section \<open>Deviations from the comments\<close>

text \<open>A comment in \<open>thr_lock\<close> says that beside a \<open>TL_WRITE_ALLOW_WRITE\<close> lock of another owner only reads other than
  \<open>TL_READ_NO_INSERT\<close> are allowed.  The code tests for \<open>TL_WRITE_ALLOW_READ\<close> instead.\<close>

lemma no_insert_beside_allow_write:
  "first (lk sharing) Write = Some 0 \<and> type_of (lk sharing) 0 = TL_WRITE_ALLOW_WRITE \<and>
   first (lk sharing) Read = Some 1 \<and> type_of (lk sharing) 1 = TL_READ_NO_INSERT \<and> owner_of (lk sharing) 0 \<noteq> owner_of (lk sharing) 1"
  by (simp add: sharing_def after_lock_def lock_eval)

text \<open>A reader queues behind a waiting \<open>TL_WRITE\<close> request.  When that request times out, \<open>wait_for_lock\<close> removes it from
  its queue but does not look at the readers behind it: they sleep on, although no write lock is
  active or waiting, until some active read lock is released.\<close>

lemma reader_sleeps_after_timeout:
  "\<exists>s. reachable True s \<and> waiting s 2 = Some (Read_wait, False) \<and> cond_of (lk s) 2 \<noteq> None \<and>
     first (lk s) Write = None \<and> first (lk s) Write_wait = None"
proof -
  let ?l0 = "after_lock 0 1 TL_READ (thr_lock_init unused)"
  let ?l1 = "after_lock 1 2 TL_WRITE ?l0"
  let ?l2 = "after_lock 2 3 TL_READ ?l1"
  have 0: "reachable True \<lparr>lk = ?l0, held = {0}, waiting = (\<lambda>_. None)\<rparr>"
    using reachable_lock(1) [OF reachable.init [of True unused], of 0 1 TL_READ] by (simp add: request_eval)
  have 1: "reachable True \<lparr>lk = ?l1, held = {0}, waiting = [1 \<mapsto> (Write_wait, False)]\<rparr>"
    using reachable_lock(2) [OF 0, of 1 2 TL_WRITE _ Write_wait] by (simp add: after_lock_def request_eval)
  have 2: "reachable True \<lparr>lk = ?l2, held = {0}, waiting = [1 \<mapsto> (Write_wait, False), 2 \<mapsto> (Read_wait, False)]\<rparr>" (is "reachable True ?s")
    using reachable_lock(2) [OF 1, of 2 3 TL_READ _ Read_wait] by (simp add: after_lock_def request_eval)
  obtain l where l: "wait_leave plain_env Write_wait True 1 ?l2 = (THR_LOCK_WAIT_TIMEOUT, l)"
    "cond_of l 2 \<noteq> None \<and> first l Write = None \<and> first l Write_wait = None"
    by (simp add: wait_leave_def after_lock_def lock_eval)
  have "lock_step True ?s \<lparr>lk = l, held = {0}, waiting = [2 \<mapsto> (Read_wait, False)]\<rparr>"
    using lock_step.wait_end [of ?s 1 Write_wait False True False True plain_env THR_LOCK_WAIT_TIMEOUT l True] l(1)
    by (simp add: wait_ends_def fun_upd_twist)
  then show ?thesis using reachable.step [OF 2] l(2) by (intro exI [of _ "\<lparr>lk = l, held = {0}, waiting = [2 \<mapsto> (Read_wait, False)]\<rparr>"]) auto
qed

end
