(* ===== verification/Thr_Multi.thy ===== *)
theory Thr_Multi
  imports Thr_Lock_Live
begin

text \<open>
  Locking several tables at once (\<open>sort_locks\<close>, \<open>thr_multi_lock\<close> and \<open>thr_multi_unlock\<close> of
  \<open>mysys/thr_lock.c\<close>).

  The locks of all tables are a store that maps the address of a lock to the lock; \<open>at d\<close> is the
  field \<open>lock\<close> of the instance \<open>d\<close>.  While a thread waits for one of its locks, other threads run: what
  they do is the parameter \<open>others\<close>, which also says whether the wait ended with a timeout.
\<close>

type_synonym store = "nat \<Rightarrow> THR_LOCK"

section \<open>Sorting\<close>

text \<open>The two sides of \<open>LOCK_CMP\<close>: the type is converted to an unsigned number and subtracted from the address.\<close>

definition lock_key :: "(nat \<Rightarrow> nat) \<Rightarrow> store \<Rightarrow> nat \<Rightarrow> int" where
  "lock_key at st d = int (at d) - type_nr (type_of (st (at d)) d) mod 4294967296"

text \<open>The inner loop, entered with \<open>prev\<close> behind an instance that is greater than \<open>tmp\<close>, and the assignment after it.\<close>

fun shift_loop :: "(nat \<Rightarrow> int) \<Rightarrow> nat \<Rightarrow> nat \<Rightarrow> nat list \<Rightarrow> nat list option" where
  "shift_loop key tmp 0 data = None"
| "shift_loop key tmp (Suc p) data = do {
     x \<leftarrow> rd data p;
     data \<leftarrow> wr data (Suc p) x;
     again \<leftarrow> (if p = 0 then Some False else do { y \<leftarrow> rd data (p - 1); Some (key tmp < key y) });
     if again then shift_loop key tmp p data else wr data p tmp
   }"

fun sort_loop :: "(nat \<Rightarrow> int) \<Rightarrow> nat \<Rightarrow> nat \<Rightarrow> nat list \<Rightarrow> nat list option" where
  "sort_loop key 0 pos data = Some data"
| "sort_loop key (Suc n) pos data = do {
     tmp \<leftarrow> rd data pos;
     y \<leftarrow> rd data (pos - 1);
     data \<leftarrow> (if key tmp < key y then shift_loop key tmp pos data else Some data);
     sort_loop key n (pos + 1) data
   }"

definition sort_locks :: "(nat \<Rightarrow> nat) \<Rightarrow> store \<Rightarrow> nat \<Rightarrow> nat list \<Rightarrow> nat list option" where
  "sort_locks at st cnt data = sort_loop (lock_key at st) (cnt - 1) 1 data"

section \<open>Unlocking\<close>

fun multi_unlock_loop :: "thr_env \<Rightarrow> (nat \<Rightarrow> nat) \<Rightarrow> nat list \<Rightarrow> store \<Rightarrow> store option" where
  "multi_unlock_loop env at [] st = Some st"
| "multi_unlock_loop env at (d # ds) st =
     (if type_of (st (at d)) d \<noteq> TL_UNLOCK then do {
        l \<leftarrow> thr_unlock env d (st (at d));
        multi_unlock_loop env at ds (st(at d := l))
      }
      else multi_unlock_loop env at ds st)"

definition thr_multi_unlock :: "thr_env \<Rightarrow> (nat \<Rightarrow> nat) \<Rightarrow> nat list \<Rightarrow> nat \<Rightarrow> store \<Rightarrow> store option" where
  "thr_multi_unlock env at data cnt st = multi_unlock_loop env at (take cnt data) st"

section \<open>Locking\<close>

text \<open>The whole of \<open>thr_lock\<close>: a request that has to wait sleeps in \<open>wait_for_lock\<close> while the others run.\<close>

definition lock_one ::
  "thr_env \<Rightarrow> (nat \<Rightarrow> lname \<Rightarrow> store \<Rightarrow> bool \<times> store) \<Rightarrow> (nat \<Rightarrow> nat) \<Rightarrow> nat \<Rightarrow> nat \<Rightarrow> nat \<Rightarrow> store \<Rightarrow>
   (enum_thr_lock_result \<times> store) option" where
  "lock_one env others at cv o' d st = do {
     (r, l) \<leftarrow> thr_lock env cv d o' (type_of (st (at d)) d) (st (at d));
     case r of
       Finish res \<Rightarrow> Some (res, st(at d := l))
     | Queue L \<Rightarrow>
         let (timed_out, st) = others d L (st(at d := l));
             (res, l) = wait_leave env L timed_out d (st (at d))
         in Some (res, st(at d := l))
   }"

text \<open>The loop that locks everything; on a failure it unlocks what it got, \<open>got\<close>.\<close>

fun multi_lock_loop ::
  "thr_env \<Rightarrow> (nat \<Rightarrow> lname \<Rightarrow> store \<Rightarrow> bool \<times> store) \<Rightarrow> (nat \<Rightarrow> nat) \<Rightarrow> nat \<Rightarrow> nat \<Rightarrow> nat list \<Rightarrow> nat list \<Rightarrow> store \<Rightarrow>
   (enum_thr_lock_result \<times> store) option" where
  "multi_lock_loop env others at cv o' got [] st = Some (THR_LOCK_SUCCESS, st)"
| "multi_lock_loop env others at cv o' got (d # ds) st = do {
     (res, st) \<leftarrow> lock_one env others at cv o' d st;
     if res \<noteq> THR_LOCK_SUCCESS then do {
       st \<leftarrow> multi_unlock_loop env at got st;
       Some (res, st)
     }
     else multi_lock_loop env others at cv o' (got @ [d]) ds st
   }"

text \<open>Copying the status between locks of the same table: \<open>last\<close> and \<open>pos\<close> are indices.\<close>

definition call_copy_status :: "(nat \<Rightarrow> nat) \<Rightarrow> nat \<Rightarrow> nat \<Rightarrow> store \<Rightarrow> store" where
  "call_copy_status at d s st =
     st(at d := emit (Copy_status (status_param (mem (st (at d)) d)) (status_param (mem (st (at s)) s))) (st (at d)))"

fun to_write_loop :: "(nat \<Rightarrow> nat) \<Rightarrow> store \<Rightarrow> nat list \<Rightarrow> nat \<Rightarrow> nat option" where
  "to_write_loop at st data 0 = map_option (\<lambda>_. 0) (rd data 0)"
| "to_write_loop at st data (Suc p) = do {
     d \<leftarrow> rd data (Suc p);
     e \<leftarrow> rd data p;
     if type_of (st (at d)) d \<le> TL_READ_NO_INSERT \<and> at e = at d then to_write_loop at st data p else Some (Suc p)
   }"

lemma to_write_loop_le: "to_write_loop at st data p = Some w \<Longrightarrow> w \<le> p"
  by (induction p) (auto split: bind_splits if_splits)

function copy_reads :: "(nat \<Rightarrow> nat) \<Rightarrow> nat list \<Rightarrow> nat \<Rightarrow> nat \<Rightarrow> nat \<Rightarrow> store \<Rightarrow> store option" where
  "copy_reads at data src last_lock read_lock st = do {
     r \<leftarrow> rd data read_lock;
     let st = call_copy_status at r src st;
     if r = last_lock then Some st else copy_reads at data src last_lock (read_lock + 1) st
   }"
  by pat_completeness auto
termination by (relation "measure (\<lambda>(at, data, src, last_lock, read_lock, st). length data - read_lock)") (auto simp: rd_Some_iff)

function same_status :: "thr_env \<Rightarrow> (nat \<Rightarrow> nat) \<Rightarrow> nat list \<Rightarrow> nat \<Rightarrow> nat \<Rightarrow> store \<Rightarrow> store option" where
  "same_status env at data last_lock pos st =
     (if pos = 0 then Some st
      else do {
        let pos = pos - 1;
        d \<leftarrow> rd data pos;
        if at last_lock = at d \<and> copy_status env then
          if type_of (st (at last_lock)) last_lock \<le> TL_READ_NO_INSERT then do {
            w \<leftarrow> to_write_loop at st data pos;
            d' \<leftarrow> rd data w;
            st \<leftarrow> copy_reads at data d' last_lock (w + 1) st;
            same_status env at data d' w st
          }
          else same_status env at data last_lock pos (call_copy_status at d last_lock st)
        else same_status env at data d pos st
      })"
  by pat_completeness auto
termination by (relation "measure (\<lambda>(env, at, data, last_lock, pos, st). pos)") (auto dest!: to_write_loop_le)

definition thr_multi_lock ::
  "thr_env \<Rightarrow> (nat \<Rightarrow> lname \<Rightarrow> store \<Rightarrow> bool \<times> store) \<Rightarrow> (nat \<Rightarrow> nat) \<Rightarrow> nat \<Rightarrow> nat \<Rightarrow> nat list \<Rightarrow> nat \<Rightarrow> store \<Rightarrow>
   (enum_thr_lock_result \<times> nat list \<times> store) option" where
  "thr_multi_lock env others at cv o' data cnt st = do {
     data \<leftarrow> (if 1 < cnt then sort_locks at st cnt data else Some data);
     (res, st) \<leftarrow> multi_lock_loop env others at cv o' [] (take cnt data) st;
     if res \<noteq> THR_LOCK_SUCCESS then Some (res, data, st)
     else do {
       st \<leftarrow> (if 1 < cnt then do { last_lock \<leftarrow> rd data (cnt - 1); same_status env at data last_lock (cnt - 1) st } else Some st);
       Some (THR_LOCK_SUCCESS, data, st)
     }
   }"

section \<open>The order of the locks\<close>

lemma shift_loop_ok:
  assumes "p < length data" "0 < p" "key tmp < key (data ! (p - 1))"
  shows "\<exists>k<p. shift_loop key tmp p data = Some (take k data @ tmp # drop k (take p data) @ drop (Suc p) data) \<and>
    (k = 0 \<or> key (data ! (k - 1)) \<le> key tmp) \<and> (\<forall>i. k \<le> i \<and> i < p \<longrightarrow> key tmp < key (data ! i))"
  using assms
proof (induction p arbitrary: data)
  case (Suc p)
  let ?d = "data[Suc p := data ! p]"
  have l: "p < length data" "Suc p < length data" using Suc.prems by simp_all
  show ?case
  proof (cases "p = 0 \<or> key (data ! (p - 1)) \<le> key tmp")
    case True
    then have "shift_loop key tmp (Suc p) data = Some (?d[p := tmp])" using l by (auto simp: wr_def)
    also have "?d[p := tmp] = take p data @ tmp # drop p (take (Suc p) data) @ drop (Suc (Suc p)) data"
      by (rule nth_equalityI) (use l in \<open>auto simp: nth_append nth_list_update nth_Cons' min_def Suc_diff_Suc numeral_2_eq_2\<close>)
    finally show ?thesis using True Suc.prems by (intro exI [of _ p]) (auto simp: less_Suc_eq_le)
  next
    case False
    then have "shift_loop key tmp (Suc p) data = shift_loop key tmp p ?d" using l by auto
    moreover obtain k where k: "k < p" "shift_loop key tmp p ?d = Some (take k ?d @ tmp # drop k (take p ?d) @ drop (Suc p) ?d)"
      "k = 0 \<or> key (?d ! (k - 1)) \<le> key tmp" "\<And>i. k \<le> i \<Longrightarrow> i < p \<Longrightarrow> key tmp < key (?d ! i)"
      using Suc.IH [of ?d] False l by auto
    moreover have "take k ?d @ tmp # drop k (take p ?d) @ drop (Suc p) ?d = take k data @ tmp # drop k (take (Suc p) data) @ drop (Suc (Suc p)) data"
    proof -
      have "take k ?d = take k data" "take p ?d = take p data" "drop (Suc p) ?d = data ! p # drop (Suc (Suc p)) data"
        using l k(1) by (simp_all add: Cons_nth_drop_Suc [symmetric])
      moreover have "drop k (take (Suc p) data) = drop k (take p data) @ [data ! p]"
        using l k(1) by (simp add: take_Suc_conv_app_nth)
      ultimately show ?thesis by simp
    qed
    ultimately show ?thesis using Suc.prems by (intro exI [of _ k]) (auto simp: less_Suc_eq)
  qed
qed simp

lemma take_sorted_step:
  assumes "p < length data" "k < p" "sorted (map key (take p data))"
    and "k = 0 \<or> key (data ! (k - 1)) \<le> key tmp" "\<And>i. k \<le> i \<Longrightarrow> i < p \<Longrightarrow> key tmp < key (data ! i)"
  shows "sorted (map key (take k data @ tmp # drop k (take p data)))"
proof -
  have s: "key (data ! i) \<le> key (data ! j)" if "i \<le> j" "j < p" for i j
    using sorted_nth_mono [OF assms(3), of i j] that assms(1) by simp
  have 1: "key x \<le> key tmp" if x: "x \<in> set (take k data)" for x
  proof -
    obtain i where "i < k" "x = data ! i" using x assms(1,2) by (auto simp: in_set_conv_nth)
    then have "key x \<le> key (data ! (k - 1))" "k \<noteq> 0" using s [of i "k - 1"] assms(2) by auto
    then show ?thesis using assms(4) by auto
  qed
  have 2: "key tmp \<le> key x" if x: "x \<in> set (drop k (take p data))" for x
  proof -
    obtain i where "i < p - k" "x = data ! (k + i)" using x assms(1,2) by (auto simp: in_set_conv_nth)
    moreover from this have "k + i < p" by linarith
    ultimately show ?thesis using assms(5) [of "k + i"] by simp
  qed
  have "sorted (map key (take k data))" "sorted (map key (drop k (take p data)))"
    using sorted_wrt_take [OF assms(3), of k] sorted_wrt_drop [OF assms(3), of k] assms(1,2)
    by (simp_all add: take_map drop_map min_def)
  then show ?thesis using 1 2 by (fastforce simp: sorted_append)
qed

lemma sort_loop_ok:
  assumes "pos + n = length data" "0 < pos" "sorted (map key (take pos data))"
  shows "\<exists>data'. sort_loop key n pos data = Some data' \<and> mset data' = mset data \<and> sorted (map key data')"
  using assms
proof (induction n arbitrary: pos data)
  case (Suc n)
  let ?t = "data ! pos"
  have p: "pos < length data" using Suc.prems by simp
  have ts: "take (Suc pos) data = take pos data @ [?t]" by (rule take_Suc_conv_app_nth [OF p])
  have d: "data = take pos data @ ?t # drop (Suc pos) data" by (rule id_take_nth_drop [OF p])
  have "\<exists>data1. (if key ?t < key (data ! (pos - 1)) then shift_loop key ?t pos data else Some data) = Some data1 \<and>
    mset data1 = mset data \<and> length data1 = length data \<and> sorted (map key (take (Suc pos) data1))"
  proof (cases "key ?t < key (data ! (pos - 1))")
    case True
    from shift_loop_ok [OF p Suc.prems(2) True] obtain k where k: "k < pos" "shift_loop key ?t pos data = Some (take k data @ ?t # drop k (take pos data) @ drop (Suc pos) data)"
      "k = 0 \<or> key (data ! (k - 1)) \<le> key ?t" "\<forall>i. k \<le> i \<and> i < pos \<longrightarrow> key ?t < key (data ! i)"
      by (elim exE conjE)
    let ?d = "take k data @ ?t # drop k (take pos data)"
    have l: "length ?d = Suc pos" using k(1) p by simp
    have "mset (take pos data) = mset (take k data) + mset (drop k (take pos data))"
      using k(1) by (metis append_take_drop_id less_imp_le min_def mset_append take_take)
    moreover have "mset data = mset (take pos data @ ?t # drop (Suc pos) data)" by (rule arg_cong [OF d])
    ultimately have "mset (?d @ drop (Suc pos) data) = mset data" by simp
    moreover have "length (?d @ drop (Suc pos) data) = length data" using l p by simp
    moreover have "take (Suc pos) (?d @ drop (Suc pos) data) = ?d" using l by (metis append_eq_conv_conj)
    ultimately show ?thesis using True k(2) take_sorted_step [OF p k(1) Suc.prems(3) k(3)] k(4) by auto
  next
    case False
    have "key x \<le> key ?t" if "x \<in> set (take pos data)" for x
    proof -
      obtain i where "i < pos" "x = data ! i" using \<open>x \<in> _\<close> p by (auto simp: in_set_conv_nth)
      moreover from this have "i \<le> pos - 1" by linarith
      ultimately show ?thesis using sorted_nth_mono [OF Suc.prems(3), of i "pos - 1"] False p Suc.prems(2) by simp
    qed
    then show ?thesis using False Suc.prems(3) ts by (auto simp: sorted_append)
  qed
  then obtain data1 where d1: "(if key ?t < key (data ! (pos - 1)) then shift_loop key ?t pos data else Some data) = Some data1"
    "mset data1 = mset data" "length data1 = length data" "sorted (map key (take (Suc pos) data1))" by blast
  obtain data' where "sort_loop key n (pos + 1) data1 = Some data'" "mset data' = mset data1" "sorted (map key data')"
    using Suc.IH [of "pos + 1" data1] Suc.prems(1) d1(3,4) by auto
  then show ?case using d1(1,2) p Suc.prems(2) by auto
qed simp

lemma lock_key_order:
  assumes "lock_key at st x \<le> lock_key at st y" "TL_UNLOCK \<le> type_of (st (at x)) x" "TL_UNLOCK \<le> type_of (st (at y)) y"
    and "at x \<noteq> at y \<Longrightarrow> at x + 12 \<le> at y \<or> at y + 12 \<le> at x"
  shows "at x < at y \<or> at x = at y \<and> type_of (st (at y)) y \<le> type_of (st (at x)) x"
proof -
  have "0 \<le> type_nr t \<and> type_nr t \<le> 11" if "TL_UNLOCK \<le> t" for t using that by (cases t) (simp_all add: type_order)
  then have b: "0 \<le> type_nr (type_of (st (at x)) x)" "type_nr (type_of (st (at x)) x) \<le> 11"
    "0 \<le> type_nr (type_of (st (at y)) y)" "type_nr (type_of (st (at y)) y) \<le> 11" using assms(2,3) by blast+
  then have "lock_key at st x = int (at x) - type_nr (type_of (st (at x)) x)" "lock_key at st y = int (at y) - type_nr (type_of (st (at y)) y)"
    by (simp_all add: lock_key_def)
  then have "at x < at y \<or> at x = at y \<and> type_nr (type_of (st (at y)) y) \<le> type_nr (type_of (st (at x)) x)"
    using assms(1,4) b by linarith
  then show ?thesis by (simp add: less_eq_thr_lock_type_def)
qed

section \<open>What is unlocked stays unlocked\<close>

text \<open>No instance other than a waiting concurrent insert gets another type when locks are handed on.\<close>

definition still_free :: "THR_LOCK \<Rightarrow> THR_LOCK \<Rightarrow> bool" where
  "still_free l l' \<longleftrightarrow> (\<forall>x. type_of l x = TL_UNLOCK \<longrightarrow> type_of l' x = TL_UNLOCK)"

lemma still_free_trans: "still_free l l' \<Longrightarrow> still_free l' l'' \<Longrightarrow> still_free l l''"
  by (simp add: still_free_def)

lemma type_of_records [simp]:
  "type_of (l\<lparr>write_lock_count := n\<rparr>) = type_of l" "type_of (l\<lparr>read_no_write_count := n\<rparr>) = type_of l" "type_of (emit e l) = type_of l"
  by (simp_all add: fun_eq_iff type_of_def emit_def)

lemma type_of_upd: "(\<And>x. lock_type (f x) = lock_type x) \<Longrightarrow> type_of (upd d f l) = type_of l" "type_of (upd_list L g l) = type_of l"
  by (simp_all add: fun_eq_iff type_of_def upd_def upd_list_def)

lemma type_of_assigns [simp]:
  "type_of (assign s v l) = type_of l" "type_of (set_prev d s l) = type_of l" "type_of (set_last L s l) = type_of l"
  "type_of (set_cond d c l) = type_of l"
  by (cases s) (simp_all add: assign_def set_prev_def set_last_def set_cond_def type_of_upd)

lemma type_of_moves [simp]:
  "type_of (append_lock L d l) = type_of l" "type_of (remove_lock L d l) = type_of l" "type_of (move_write d l) = type_of l"
proof -
  show r: "type_of (remove_lock L d l) = type_of l" for L d l by (simp add: remove_lock_def Let_def split: option.split)
  show "type_of (append_lock L d l) = type_of l" by (simp add: append_lock_def Let_def)
  show "type_of (move_write d l) = type_of l" by (simp add: move_write_def Let_def r)
qed

lemma type_of_calls [simp]:
  "type_of (count_no_insert t l) = type_of l" "type_of (call_update_status env d l) = type_of l" "type_of (call_get_status env d b l) = type_of l"
  by (simp_all add: count_no_insert_def call_update_status_def call_get_status_def)

lemma type_of_set_type [simp]: "type_of (set_type d t l) = (type_of l)(d := t)"
  by (auto simp: fun_eq_iff type_of_def set_type_def upd_def)

lemma wake_type: "wake d l = Some l' \<Longrightarrow> type_of l' = type_of l"
  by (auto simp: wake_def split: option.splits)

lemma free_read_loop_type:
  assumes "free_read_loop ci d l = Some l'"
  shows "type_of l' = type_of l"
proof (rule free_read_loop.raw_induct [OF _ assms, where P = "\<lambda>ci d l l'. type_of l' = type_of l"], goal_cases)
  case (1 f ci d l l')
  then show ?case by (fastforce split: bind_splits if_splits option.splits dest: wake_type)
qed

lemma free_all_type:
  assumes "free_all_read_locks ci l = Some l'"
  shows "type_of l' = type_of l"
proof -
  obtain d where d: "first l Read_wait = Some d" using assms by (auto simp: free_all_read_locks_def bind_eq_Some_conv)
  define l1 where "l1 = set_last Read_wait (Data_of Read_wait)
     (set_last Read (lst (lists (set_prev d (lst (lists l Read)) (assign (lst (lists l Read)) (Some d) l)) Read_wait))
       (set_prev d (lst (lists l Read)) (assign (lst (lists l Read)) (Some d) l)))"
  obtain l2 where l2: "free_read_loop ci d l1 = Some l2"
    and l': "Some l' = (let l2 = assign (lst (lists l2 Read_wait)) None l2 in Some (if first l2 Read_wait = None then l2\<lparr>write_lock_count := 0\<rparr> else l2))"
    using assms unfolding free_all_read_locks_def Let_def d option.simps bind.bind_lunit l1_def [symmetric]
    by (cases "free_read_loop ci d l1") simp_all
  have "type_of l1 = type_of l" unfolding l1_def by simp
  moreover have "type_of l' = type_of l2" using l' by (simp add: Let_def)
  ultimately show ?thesis using free_read_loop_type [OF l2] by simp
qed

lemma free_waiting_type: "free_waiting_reads ci l = Some l' \<Longrightarrow> type_of l' = type_of l"
  by (auto simp: free_waiting_reads_def split: if_splits dest: free_all_type)

lemmas free_type = free_all_type free_waiting_type

lemma start_write_loop_type:
  assumes "start_write_loop t d l = Some l'"
  shows "type_of l' = type_of l"
proof (rule start_write_loop.raw_induct [OF _ assms, where P = "\<lambda>t d l l'. type_of l' = type_of l"], goal_cases)
  case (1 f t d l l')
  then show ?case by (fastforce split: bind_splits if_splits option.splits dest: wake_type)
qed

lemma give_write_loop_free:
  assumes "give_write_loop env d l = Some (d', l')"
  shows "still_free l l'"
proof -
  have "still_free l (snd (d', l'))"
  proof (rule give_write_loop.raw_induct [OF _ assms, where P = "\<lambda>env d l r. still_free l (snd r)"], goal_cases)
    case (1 f env d l r)
    then obtain up l1 where u: "(if type_of (move_write d l) d = TL_WRITE_CONCURRENT_INSERT then call_check_status env d (move_write d l) else Some False) = Some up"
      "wake d (if up then set_type d TL_WRITE (move_write d l) else move_write d l) = Some l1"
      and r: "(case first l1 Write_wait of None \<Rightarrow> Some (d, l1) | Some n \<Rightarrow>
         if type_of l1 d \<noteq> TL_WRITE_ALLOW_WRITE \<or> type_of l1 n \<noteq> TL_WRITE_ALLOW_WRITE then Some (d, l1) else f env n l1) = Some r"
      by (auto simp: Let_def split: bind_splits)
    have "still_free l l1" using u wake_type [OF u(2)] by (auto simp: still_free_def split: if_splits)
    moreover have "still_free l1 (snd r)" using r 1(1) by (auto simp: still_free_def split: option.splits if_splits)
    ultimately show ?case by (rule still_free_trans)
  qed
  then show ?thesis by simp
qed

lemma still_free_type: "type_of l' = type_of l \<Longrightarrow> still_free l l'"
  by (simp add: still_free_def)

lemma schedule_idle_free:
  assumes "schedule_idle env l = Some l'"
  shows "still_free l l'"
proof (cases "first l Write_wait")
  case None
  then have "free_waiting_reads False l = Some l'" using assms by (simp add: schedule_idle_def)
  then show ?thesis by (rule still_free_type [OF free_waiting_type])
next
  case (Some d)
  define l1 where "l1 = (let l1 = l\<lparr>write_lock_count := (write_lock_count l + 1) mod ULONG_RANGE\<rparr>
     in if max_write_lock_count env < write_lock_count l then l1\<lparr>write_lock_count := 0\<rparr> else l1)"
  have t: "type_of l1 = type_of l" by (simp add: l1_def Let_def)
  consider c where "free_waiting_reads c l = Some l'" | "free_all_read_locks False l1 = Some l'" |
    d' l2 where "give_write_loop env d l1 = Some (d', l2)"
      "l' = l2 \<or> (\<exists>c. free_waiting_reads c l2 = Some l')"
    using assms Some unfolding schedule_idle_def Let_def l1_def [unfolded Let_def, symmetric]
    by (simp split: if_splits add: bind_eq_Some_conv) blast+
  then show ?thesis
  proof cases
    case (3 d' l2)
    then show ?thesis using give_write_loop_free [OF 3(1)] free_type t by (auto simp: still_free_def)
  qed (use free_type t in \<open>auto intro!: still_free_type\<close>)
qed

lemma schedule_reading_free:
  assumes "schedule_reading env l = Some l'"
  shows "still_free l l'"
proof (cases "first l Write_wait")
  case None
  then have "free_waiting_reads False l = Some l'" using assms by (simp add: schedule_reading_def)
  then show ?thesis by (rule still_free_type [OF free_waiting_type])
next
  case (Some d)
  show ?thesis
  proof (cases "type_of l d \<le> TL_WRITE_DELAYED \<and> (\<not> excludes_no_insert (type_of l d) \<or> read_no_write_count l = 0)")
    case True
    then obtain up where up: "(if type_of l d = TL_WRITE_CONCURRENT_INSERT then call_check_status env d l else Some False) = Some up"
      and r: "(if up then free_waiting_reads False (set_type d TL_WRITE l)
        else start_write_loop (type_of l d) d l \<bind> free_waiting_reads (excludes_no_insert (type_of l d))) = Some l'"
      using assms Some by (auto simp: schedule_reading_def Let_def bind_eq_Some_conv simp del: bind_split)
    show ?thesis
    proof (cases up)
      case True
      then have "free_waiting_reads False (set_type d TL_WRITE l) = Some l'" "type_of l d = TL_WRITE_CONCURRENT_INSERT"
        using r up by (simp_all split: if_splits)
      then show ?thesis using free_waiting_type [of False "set_type d TL_WRITE l" l'] by (simp add: still_free_def)
    next
      case False
      then obtain l2 where "start_write_loop (type_of l d) d l = Some l2" "free_waiting_reads (excludes_no_insert (type_of l d)) l2 = Some l'"
        using r by (auto simp: bind_eq_Some_conv)
      then have "type_of l' = type_of l" using start_write_loop_type free_waiting_type by metis
      then show ?thesis by (rule still_free_type)
    qed
  next
    case False
    then have "l' = l" using assms Some by (simp add: schedule_reading_def Let_def split: if_splits)
    then show ?thesis by (simp add: still_free_def)
  qed
qed

lemmas schedule_free = schedule_idle_free schedule_reading_free

lemma thr_unlock_free:
  assumes "thr_unlock env d l = Some l'"
  shows "still_free l l'" "type_of l' d = TL_UNLOCK"
proof -
  have "\<exists>l1. (if first l1 Write \<noteq> None then Some l1 else if first l1 Read = None then schedule_idle env l1 else schedule_reading env l1) = Some l' \<and>
    type_of l1 = (type_of l)(d := TL_UNLOCK)"
    by (rule exI, rule conjI, rule assms [unfolded thr_unlock_def Let_def]) simp
  then obtain l1 where l1: "type_of l1 = (type_of l)(d := TL_UNLOCK)"
    "(if first l1 Write \<noteq> None then Some l1 else if first l1 Read = None then schedule_idle env l1 else schedule_reading env l1) = Some l'" by blast
  have "still_free l1 l'" using l1(2) schedule_free by (auto simp: still_free_def split: if_splits)
  then show "still_free l l'" "type_of l' d = TL_UNLOCK" using l1(1) by (auto simp: still_free_def)
qed

text \<open>A failed request leaves its instance unlocked, except after a deadlock.\<close>

lemma decide_failed:
  "read_request env d o' t l = Some (Finish res, l') \<Longrightarrow> res \<noteq> THR_LOCK_SUCCESS \<Longrightarrow> type_of l' d = TL_UNLOCK"
  "write_decide env d o' t l = Some (Finish res, l') \<Longrightarrow> res \<noteq> THR_LOCK_SUCCESS \<Longrightarrow> type_of l' d = TL_UNLOCK"
  by (simp_all add: read_request_def write_decide_def write_free_def Let_def bind_eq_Some_conv split: option.splits if_splits prod.splits)
    (auto split: if_splits)

lemma thr_lock_failed:
  assumes "thr_lock env cv d o' t l = Some (Finish res, l')" "res \<noteq> THR_LOCK_SUCCESS" "res \<noteq> THR_LOCK_DEADLOCK"
  shows "type_of l' d = TL_UNLOCK"
proof -
  define l1 where "l1 = upd d (\<lambda>x. x\<lparr>nxt := None, cond := None, lock_type := t, owner := o'\<rparr>) l"
  have r: "(if t \<le> TL_READ_NO_INSERT then read_request env d o' t l1 else write_request env cv d o' t l1) = Some (Finish res, l')"
  proof -
    obtain o'' l2 where o: "(if t \<le> TL_READ_NO_INSERT then read_request env d o' t l1 else write_request env cv d o' t l1) = Some (o'', l2)"
      "(case o'' of Finish res \<Rightarrow> Some (Finish res, l2)
        | Queue L \<Rightarrow> if own_deadlock env o' l2 then Some (Finish THR_LOCK_DEADLOCK, l2) else Some (Queue L, wait_enter L cv False d l2)) = Some (Finish res, l')"
      using assms(1) unfolding thr_lock_def Let_def l1_def [symmetric] bind_eq_Some_conv by auto
    then show ?thesis using assms(3) by (cases o'') (auto split: if_splits)
  qed
  show ?thesis
  proof (cases "t \<le> TL_READ_NO_INSERT")
    case True
    then show ?thesis using r decide_failed(1) assms(2) by simp
  next
    case False
    then show ?thesis using r decide_failed(2) assms(2)
      by (auto simp: write_request_def Let_def bind_eq_Some_conv split: if_splits)
  qed
qed

lemma lock_one_failed:
  assumes "lock_one env others at cv o' d st = Some (res, st')" "res \<noteq> THR_LOCK_SUCCESS" "res \<noteq> THR_LOCK_DEADLOCK"
  shows "type_of (st' (at d)) d = TL_UNLOCK"
  using assms
  by (auto simp: lock_one_def wait_leave_def Let_def split: bind_splits outcome.splits prod.splits if_splits dest: thr_lock_failed)

lemma multi_unlock_free:
  assumes "multi_unlock_loop env at ds st = Some st'"
  shows "(\<forall>a. still_free (st a) (st' a)) \<and> (\<forall>d\<in>set ds. type_of (st' (at d)) d = TL_UNLOCK)"
  using assms
proof (induction ds arbitrary: st)
  case (Cons d ds)
  show ?case
  proof (cases "type_of (st (at d)) d = TL_UNLOCK")
    case True
    then show ?thesis using Cons by (auto simp: still_free_def)
  next
    case False
    then obtain l where l: "thr_unlock env d (st (at d)) = Some l" "multi_unlock_loop env at ds (st(at d := l)) = Some st'"
      using Cons.prems by (auto split: bind_splits)
    have f: "still_free ((st(at d := l)) a) (st' a)" "\<forall>x\<in>set ds. type_of (st' (at x)) x = TL_UNLOCK" for a
      using Cons.IH [OF l(2)] by blast+
    have "still_free (st a) ((st(at d := l)) a)" for a using thr_unlock_free(1) [OF l(1)] by (simp add: still_free_def)
    then have "still_free (st a) (st' a)" for a using f(1) still_free_trans by blast
    moreover have "type_of (st' (at d)) d = TL_UNLOCK" using f(1) [of "at d"] thr_unlock_free(2) [OF l(1)] by (simp add: still_free_def)
    ultimately show ?thesis using f(2) by simp
  qed
qed (simp add: still_free_def)

text \<open>The position of the failure.\<close>

lemma multi_lock_failed:
  assumes "multi_lock_loop env others at cv o' got ds st = Some (res, st')" "res \<noteq> THR_LOCK_SUCCESS"
  shows "\<exists>k<length ds. \<exists>st1 st2. multi_lock_loop env others at cv o' got (take k ds) st = Some (THR_LOCK_SUCCESS, st1) \<and>
    lock_one env others at cv o' (ds ! k) st1 = Some (res, st2) \<and> multi_unlock_loop env at (got @ take k ds) st2 = Some st'"
  using assms
proof (induction ds arbitrary: got st)
  case (Cons d ds)
  then obtain r st1 where r: "lock_one env others at cv o' d st = Some (r, st1)" by (auto split: bind_splits)
  show ?case
  proof (cases "r = THR_LOCK_SUCCESS")
    case True
    then have "multi_lock_loop env others at cv o' (got @ [d]) ds st1 = Some (res, st')" using Cons.prems(1) r by simp
    from Cons.IH [OF this Cons.prems(2)] obtain k st2 st3 where "k < length ds"
      "multi_lock_loop env others at cv o' (got @ [d]) (take k ds) st1 = Some (THR_LOCK_SUCCESS, st2)"
      "lock_one env others at cv o' (ds ! k) st2 = Some (res, st3)" "multi_unlock_loop env at ((got @ [d]) @ take k ds) st3 = Some st'" by blast
    then show ?thesis using r True by (intro exI [of _ "Suc k"] conjI exI [of _ st2] exI [of _ st3]) auto
  next
    case False
    then show ?thesis using Cons.prems(1) r by (intro exI [of _ 0]) (auto split: bind_splits)
  qed
qed simp

section \<open>Properties\<close>

text \<open>C11 \<open>sort_locks\<close> sorts: it returns the same instances in the order in which every thread takes
  its locks, by the address of the lock and, for one lock, the strongest type first (write locks before
  read locks), provided that different locks are at least 12 bytes apart and every type is a real one.\<close>

theorem sort_locks_order:
  assumes "\<forall>x\<in>set data. \<forall>y\<in>set data. at x \<noteq> at y \<longrightarrow> at x + 12 \<le> at y \<or> at y + 12 \<le> at x"
    and "\<forall>x\<in>set data. TL_UNLOCK \<le> type_of (st (at x)) x"
  shows "\<exists>data'. sort_locks at st (length data) data = Some data' \<and> mset data' = mset data \<and>
    sorted_wrt (\<lambda>x y. at x < at y \<or> at x = at y \<and> type_of (st (at y)) y \<le> type_of (st (at x)) x) data'"
proof (cases data)
  case Nil
  then show ?thesis by (simp add: sort_locks_def)
next
  case (Cons d ds)
  then have "1 + (length data - 1) = length data" "sorted (map (lock_key at st) (take 1 data))" by simp_all
  then obtain data' where d: "sort_locks at st (length data) data = Some data'" "mset data' = mset data" "sorted (map (lock_key at st) data')"
    using sort_loop_ok [of 1 "length data - 1" data "lock_key at st"] by (auto simp: sort_locks_def)
  have "set data' = set data" using mset_eq_setD [OF d(2)] .
  then have "sorted_wrt (\<lambda>x y. at x < at y \<or> at x = at y \<and> type_of (st (at y)) y \<le> type_of (st (at x)) x) data'"
    using d(3) assms lock_key_order [of at st] unfolding sorted_map by (intro sorted_wrt_mono_rel [OF _ d(3) [unfolded sorted_map]]) blast
  then show ?thesis using d by blast
qed

definition two_tables :: store where
  "two_tables a = (thr_lock_init unused)\<lparr>mem := (\<lambda>d. (unused d)\<lparr>lock_type := if d = 2 then TL_WRITE else TL_READ\<rparr>)\<rparr>"

theorem sort_locks_order_witness:
  "\<exists>data'. sort_locks (\<lambda>d. if d = 0 then 500 else 100) two_tables 3 [0, 1, 2] = Some data' \<and> data' = [2, 1, 0] \<and>
    sorted_wrt (\<lambda>x y. (if x = 0 then 500 else 100 :: nat) < (if y = 0 then 500 else 100) \<or> (x = 0) = (y = 0) \<and>
      type_of (two_tables 0) y \<le> type_of (two_tables 0) x) data'"
  using sort_locks_order [of "[0, 1, 2]" "\<lambda>d. if d = 0 then 500 else 100" two_tables]
  by (simp add: sort_locks_def numeral_3_eq_3 numeral_2_eq_2 lock_key_def two_tables_def type_of_def type_order rd_def wr_def)


text \<open>The table at 500 has been closed for new locks by \<open>thr_abort_locks\<close>.\<close>

definition aborted_table :: store where
  "aborted_table a =
     (let l = thr_lock_init (\<lambda>d. (unused d)\<lparr>lock_type := TL_WRITE\<rparr>)
      in if a = 100 then l else set_type 9 TL_WRITE_ONLY (after_lock 9 3 TL_WRITE l))"

definition two_at :: "nat \<Rightarrow> nat" where
  "two_at d = (if d = 0 then 100 else 500)"

lemma aborted_table_fails:
  "\<exists>st'. thr_multi_lock plain_env (\<lambda>_ _ st. (True, st)) two_at 7 1 [1, 0] 2 aborted_table = Some (THR_LOCK_ABORTED, [0, 1], st')"
  by (simp add: thr_multi_lock_def sort_locks_def lock_key_def shift_loop.simps numeral_2_eq_2 rd_def wr_def two_at_def aborted_table_def
      after_lock_def lock_one_def thr_unlock_def unlock_list_def schedule_idle_def free_waiting_reads_def lock_eval)


end
