(* ===== verification/Decimal.thy ===== *)
theory Decimal
  imports Complex_Main Prelude
begin

text \<open>
  Fixed-point decimal numbers (\<open>strings/decimal.c\<close>, \<open>include/decimal.h\<close>).

  A number is an array of words in base \<open>10 ^ 9\<close>, first those of the integral part, then those of the
  fraction; \<open>intg\<close> and \<open>frac\<close> count decimal digits.  The field \<open>len\<close> is the length of the list
  \<open>buf\<close>.  Operations read their operands and write a result object that is a different one.  The
  arithmetic of words is that of a signed 32-bit type: where a sum can exceed it, the
  wrap-around (\<open>int32\<close>) is written out.  Pointers that run downwards are indices; decrementing a pointer to
  the start of a block has no meaning (\<open>pre_dec\<close>).
\<close>

section \<open>The type\<close>

record decimal_t =
  intg :: nat
  frac :: nat
  sign :: bool
  buf :: "int list"

abbreviation len :: "decimal_t \<Rightarrow> nat" where "len d \<equiv> length (buf d)"

datatype dec_error = E_DEC_OK | E_DEC_TRUNCATED | E_DEC_OVERFLOW | E_DEC_DIV_ZERO | E_DEC_BAD_NUM | E_DEC_OOM

abbreviation DIG_BASE :: int where "DIG_BASE \<equiv> 1000000000"
abbreviation DIG_MAX :: int where "DIG_MAX \<equiv> 999999999"

definition ROUND_UP :: "nat \<Rightarrow> nat" where
  "ROUND_UP x = (x + 8) div 9"

definition powers10 :: "int list" where
  "powers10 = [1, 10, 100, 1000, 10000, 100000, 1000000, 10000000, 100000000, 1000000000]"

definition frac_max :: "int list" where
  "frac_max = [900000000, 990000000, 999000000, 999900000, 999990000, 999999000, 999999900, 999999990]"

definition int32 :: "int \<Rightarrow> int" where
  "int32 x = (x + 2147483648) mod 4294967296 - 2147483648"

fun pre_dec :: "nat \<Rightarrow> nat option" where
  "pre_dec 0 = None"
| "pre_dec (Suc n) = Some n"

text \<open>The result of fitting \<open>intg1\<close> and \<open>frac1\<close> words into \<open>l\<close>.\<close>

definition FIX_INTG_FRAC_ERROR :: "nat \<Rightarrow> nat \<Rightarrow> nat \<Rightarrow> nat \<times> nat \<times> dec_error" where
  "FIX_INTG_FRAC_ERROR l intg1 frac1 =
     (if intg1 + frac1 > l
      then if intg1 > l then (l, 0, E_DEC_OVERFLOW) else (intg1, l - intg1, E_DEC_TRUNCATED)
      else (intg1, frac1, E_DEC_OK))"

text \<open>The macros that add and subtract words: the result is the new word and the new carry.\<close>

definition ADD :: "int \<Rightarrow> int \<Rightarrow> int \<Rightarrow> int \<times> int" where
  "ADD from1 from2 carry =
     (let a = int32 (from1 + from2 + carry)
      in if a \<ge> DIG_BASE then (a - DIG_BASE, 1) else (a, 0))"

definition ADD2 :: "int \<Rightarrow> int \<Rightarrow> int \<Rightarrow> int \<times> int" where
  "ADD2 from1 from2 carry =
     (let a = int32 (from1 + from2 + carry);
          (a, carry) = (if a \<ge> DIG_BASE then (a - DIG_BASE, 1) else (a, 0))
      in if a \<ge> DIG_BASE then (a - DIG_BASE, carry + 1) else (a, carry))"

definition SUB :: "int \<Rightarrow> int \<Rightarrow> int \<Rightarrow> int \<times> int" where
  "SUB from1 from2 carry =
     (let a = int32 (from1 - from2 - carry)
      in if a < 0 then (a + DIG_BASE, 1) else (a, 0))"

definition decimal_make_zero :: "decimal_t \<Rightarrow> decimal_t option" where
  "decimal_make_zero dec = do {
     b \<leftarrow> wr (buf dec) 0 0;
     Some (dec\<lparr>buf := b, intg := 1, frac := 0, sign := False\<rparr>)
   }"

section \<open>Small operations\<close>

text \<open>Writing the same word several times from an index on.\<close>

fun fill_words :: "nat \<Rightarrow> int \<Rightarrow> nat \<Rightarrow> int list \<Rightarrow> int list option" where
  "fill_words 0 x i b = Some b"
| "fill_words (Suc n) x i b = do { b \<leftarrow> wr b i x; fill_words n x (i + 1) b }"

definition max_decimal :: "nat \<Rightarrow> nat \<Rightarrow> decimal_t \<Rightarrow> decimal_t option" where
  "max_decimal precision fr to =
     (if precision = 0 \<or> precision < fr then None
      else do {
        let intpart = precision - fr;
        let firstdigits = intpart mod 9;
        (b, i) \<leftarrow> (if firstdigits \<noteq> 0
                    then do { p \<leftarrow> rd powers10 firstdigits; b \<leftarrow> wr (buf to) 0 (p - 1); Some (b, 1) }
                    else Some (buf to, 0));
        b \<leftarrow> fill_words (intpart div 9) DIG_MAX i b;
        let i = i + intpart div 9;
        b \<leftarrow> fill_words (fr div 9) DIG_MAX i b;
        let i = i + fr div 9;
        b \<leftarrow> (if fr mod 9 \<noteq> 0 then do { x \<leftarrow> rd frac_max (fr mod 9 - 1); wr b i x } else Some b);
        Some (to\<lparr>sign := False, intg := intpart, frac := fr, buf := b\<rparr>)
      })"

text \<open>Skipping words that are 0: the index of the first other word before \<open>stop\<close>.\<close>

fun skip_zero :: "int list \<Rightarrow> nat \<Rightarrow> nat \<Rightarrow> nat option" where
  "skip_zero b i 0 = Some i"
| "skip_zero b i (Suc n) = do { x \<leftarrow> rd b i; if x = 0 then skip_zero b (i + 1) n else Some i }"

definition decimal_is_zero :: "decimal_t \<Rightarrow> bool option" where
  "decimal_is_zero from = do {
     let n = ROUND_UP (intg from) + ROUND_UP (frac from);
     i \<leftarrow> skip_zero (buf from) 0 n;
     Some (i = n)
   }"

definition decimal_size :: "nat \<Rightarrow> nat \<Rightarrow> nat option" where
  "decimal_size precision scale =
     (if 0 < precision \<and> scale \<le> precision then Some (ROUND_UP (precision - scale) + ROUND_UP scale) else None)"

definition decimal_result_size :: "decimal_t \<Rightarrow> decimal_t \<Rightarrow> char \<Rightarrow> nat \<Rightarrow> nat option" where
  "decimal_result_size from1 from2 oper param =
     (if oper = CHR ''-'' then Some (ROUND_UP (max (intg from1) (intg from2)) + ROUND_UP (max (frac from1) (frac from2)))
      else if oper = CHR ''+'' then Some (ROUND_UP (max (intg from1) (intg from2) + 1) + ROUND_UP (max (frac from1) (frac from2)))
      else if oper = CHR ''*'' then Some (ROUND_UP (intg from1 + intg from2) + ROUND_UP (frac from1) + ROUND_UP (frac from2))
      else if oper = CHR ''/'' then Some (ROUND_UP (intg from1 + intg from2 + 1 + frac from1 + frac from2 + param))
      else None)"

section \<open>Addition\<close>

text \<open>\<open>while (buf1 > stop) *--buf0 = *--buf1\<close>: \<open>n\<close> words are copied downwards.\<close>

fun copy_down :: "int list \<Rightarrow> nat \<Rightarrow> nat \<Rightarrow> nat \<Rightarrow> int list \<Rightarrow> (nat \<times> nat \<times> int list) option" where
  "copy_down b1 0 i1 i0 t = Some (i1, i0, t)"
| "copy_down b1 (Suc n) i1 i0 t = do {
     i0 \<leftarrow> pre_dec i0; i1 \<leftarrow> pre_dec i1;
     x \<leftarrow> rd b1 i1;
     t \<leftarrow> wr t i0 x;
     copy_down b1 n i1 i0 t
   }"

text \<open>The loops that combine two numbers with a carry, \<open>f\<close> being one of the macros.\<close>

fun carry_loop2 :: "(int \<Rightarrow> int \<Rightarrow> int \<Rightarrow> int \<times> int) \<Rightarrow> int list \<Rightarrow> int list \<Rightarrow> nat \<Rightarrow> nat \<Rightarrow> nat \<Rightarrow> nat \<Rightarrow> int \<Rightarrow> int list \<Rightarrow>
    (nat \<times> int \<times> int list) option" where
  "carry_loop2 f b1 b2 0 i1 i2 i0 carry t = Some (i0, carry, t)"
| "carry_loop2 f b1 b2 (Suc n) i1 i2 i0 carry t = do {
     i0 \<leftarrow> pre_dec i0; i1 \<leftarrow> pre_dec i1; i2 \<leftarrow> pre_dec i2;
     x \<leftarrow> rd b1 i1; y \<leftarrow> rd b2 i2;
     let (a, carry) = f x y carry;
     t \<leftarrow> wr t i0 a;
     carry_loop2 f b1 b2 n i1 i2 i0 carry t
   }"

fun carry_loop1 :: "(int \<Rightarrow> int \<Rightarrow> int \<times> int) \<Rightarrow> int list \<Rightarrow> nat \<Rightarrow> nat \<Rightarrow> nat \<Rightarrow> int \<Rightarrow> int list \<Rightarrow>
    (nat \<times> int \<times> int list) option" where
  "carry_loop1 f b1 0 i1 i0 carry t = Some (i0, carry, t)"
| "carry_loop1 f b1 (Suc n) i1 i0 carry t = do {
     i0 \<leftarrow> pre_dec i0; i1 \<leftarrow> pre_dec i1;
     x \<leftarrow> rd b1 i1;
     let (a, carry) = f x carry;
     t \<leftarrow> wr t i0 a;
     carry_loop1 f b1 n i1 i0 carry t
   }"

definition do_add :: "decimal_t \<Rightarrow> decimal_t \<Rightarrow> decimal_t \<Rightarrow> (dec_error \<times> decimal_t) option" where
  "do_add from1 from2 to = do {
     let intg1 = ROUND_UP (intg from1);
     let intg2 = ROUND_UP (intg from2);
     let frac1 = ROUND_UP (frac from1);
     let frac2 = ROUND_UP (frac from2);
     let frac0 = max frac1 frac2;
     let intg0 = max intg1 intg2;
     x \<leftarrow> (if intg1 > intg2 then rd (buf from1) 0
           else if intg2 > intg1 then rd (buf from2) 0
           else do { x \<leftarrow> rd (buf from1) 0; y \<leftarrow> rd (buf from2) 0; Some (int32 (x + y)) });
     (intg0, t) \<leftarrow> (if x > DIG_MAX - 1 then do { t \<leftarrow> wr (buf to) 0 0; Some (intg0 + 1, t) } else Some (intg0, buf to));
     let (intg0, frac0, error) = FIX_INTG_FRAC_ERROR (len to) intg0 frac0;
     if error = E_DEC_OVERFLOW
     then do { to \<leftarrow> max_decimal (len to * 9) 0 (to\<lparr>buf := t\<rparr>); Some (error, to) }
     else do {
       let fr = max (frac from1) (frac from2);
       let (fr, frac1, frac2, intg1, intg2) =
             (if error \<noteq> E_DEC_OK
              then (min fr (frac0 * 9), min frac1 frac0, min frac2 frac0, min intg1 intg0, min intg2 intg0)
              else (fr, frac1, frac2, intg1, intg2));
       let (b1, b2, i1, i2, n1, n2) =
             (if frac1 > frac2
              then (buf from1, buf from2, intg1 + frac1, intg2 + frac2, frac1 - frac2,
                    intg1 + frac2 - (if intg1 > intg2 then intg1 - intg2 else 0))
              else (buf from2, buf from1, intg2 + frac2, intg1 + frac1, frac2 - frac1,
                    intg2 + frac1 - (if intg2 > intg1 then intg2 - intg1 else 0)));
       (i1, i0, t) \<leftarrow> copy_down b1 n1 i1 (intg0 + frac0) t;
       (i0, carry, t) \<leftarrow> carry_loop2 ADD b1 b2 n2 i1 i2 i0 0 t;
       let (b, n) = (if intg1 > intg2 then (buf from1, intg1 - intg2) else (buf from2, intg2 - intg1));
       (i0, carry, t) \<leftarrow> carry_loop1 (\<lambda>x. ADD x 0) b n n i0 carry t;
       (i0, t) \<leftarrow> (if carry \<noteq> 0 then do { i0 \<leftarrow> pre_dec i0; t \<leftarrow> wr t i0 1; Some (i0, t) } else Some (i0, t));
       if i0 = 0 \<or> i0 = 1
       then Some (error, to\<lparr>sign := sign from1, frac := fr, intg := intg0 * 9, buf := t\<rparr>)
       else None
     }
   }"

section \<open>Subtraction and comparison\<close>

text \<open>\<open>while (buf1 <= end1 && *end1 == 0) end1--\<close>, where \<open>e\<close> is the index behind \<open>end1\<close>.\<close>

fun trim_zero :: "int list \<Rightarrow> nat \<Rightarrow> nat \<Rightarrow> nat option" where
  "trim_zero b lo 0 = Some 0"
| "trim_zero b lo (Suc e) =
     (if lo \<le> e then do { x \<leftarrow> rd b e; if x = 0 then trim_zero b lo e else Some (Suc e) } else Some (Suc e))"

text \<open>The comparison of the words before \<open>e1\<close> and \<open>e2\<close>: \<open>None\<close> inside is equality, otherwise the value of \<open>carry\<close>.\<close>

function cmp_words :: "int list \<Rightarrow> int list \<Rightarrow> nat \<Rightarrow> nat \<Rightarrow> nat \<Rightarrow> nat \<Rightarrow> bool option option" where
  "cmp_words b1 b2 i1 i2 e1 e2 =
     (if i1 < e1 then
        if i2 < e2 then do {
          x \<leftarrow> rd b1 i1; y \<leftarrow> rd b2 i2;
          if x = y then cmp_words b1 b2 (i1 + 1) (i2 + 1) e1 e2 else Some (Some (y > x))
        }
        else Some (Some False)
      else if i2 < e2 then Some (Some True) else Some None)"
  by pat_completeness auto
termination by (relation "measure (\<lambda>(b1, b2, i1, i2, e1, e2). e1 - i1)") auto

definition first_word :: "int list \<Rightarrow> nat \<Rightarrow> nat option" where
  "first_word b n = do { x \<leftarrow> rd b 0; if x = 0 then skip_zero b 0 n else Some 0 }"

text \<open>The first part of \<open>do_sub\<close>.  The result has for both operands the index of the first word that
  is not 0, the words of the integral part from there and the words of the fraction (which can be negative
  if words of the integral part are 0), and the carry: \<open>None\<close> for equal numbers.\<close>

definition sub_compare :: "decimal_t \<Rightarrow> decimal_t \<Rightarrow> ((nat \<times> nat \<times> int) \<times> (nat \<times> nat \<times> int) \<times> bool option) option" where
  "sub_compare from1 from2 = do {
     let stop1 = ROUND_UP (intg from1);
     let stop2 = ROUND_UP (intg from2);
     let frac1 = ROUND_UP (frac from1);
     let frac2 = ROUND_UP (frac from2);
     start1 \<leftarrow> first_word (buf from1) stop1;
     start2 \<leftarrow> first_word (buf from2) stop2;
     let intg1 = stop1 - start1;
     let intg2 = stop2 - start2;
     if intg2 > intg1 then Some ((start1, intg1, int frac1), (start2, intg2, int frac2), Some True)
     else if intg2 = intg1 then do {
       e1 \<leftarrow> trim_zero (buf from1) start1 (stop1 + frac1);
       e2 \<leftarrow> trim_zero (buf from2) start2 (stop2 + frac2);
       c \<leftarrow> cmp_words (buf from1) (buf from2) start1 start2 e1 e2;
       Some ((start1, intg1, int e1 - int stop1), (start2, intg2, int e2 - int stop2), c)
     }
     else Some ((start1, intg1, int frac1), (start2, intg2, int frac2), Some False)
   }"

text \<open>\<open>*--buf0 = 0\<close> for \<open>n\<close> words.\<close>

fun zero_down :: "nat \<Rightarrow> nat \<Rightarrow> int list \<Rightarrow> (nat \<times> int list) option" where
  "zero_down 0 i0 t = Some (i0, t)"
| "zero_down (Suc n) i0 t = do { i0 \<leftarrow> pre_dec i0; t \<leftarrow> wr t i0 0; zero_down n i0 t }"

text \<open>The third part: the carry is taken from further words while there is one; the rest is copied.\<close>

fun borrow_loop :: "int list \<Rightarrow> nat \<Rightarrow> nat \<Rightarrow> nat \<Rightarrow> int \<Rightarrow> int list \<Rightarrow> (nat \<times> int list) option" where
  "borrow_loop b1 0 i1 i0 carry t = Some (i0, t)"
| "borrow_loop b1 (Suc n) i1 i0 carry t =
     (if carry \<noteq> 0 then do {
        i0 \<leftarrow> pre_dec i0; i1 \<leftarrow> pre_dec i1;
        x \<leftarrow> rd b1 i1;
        let (a, carry) = SUB x 0 carry;
        t \<leftarrow> wr t i0 a;
        borrow_loop b1 n i1 i0 carry t
      }
      else do { (_, i0, t) \<leftarrow> copy_down b1 (Suc n) i1 i0 t; Some (i0, t) })"

text \<open>The loops of \<open>do_sub\<close> for an operand that is greater: \<open>intg1 \<ge> intg2\<close>.\<close>

definition sub_words ::
  "int list \<Rightarrow> nat \<times> nat \<times> int \<Rightarrow> int list \<Rightarrow> nat \<times> nat \<times> int \<Rightarrow> nat \<Rightarrow> int list \<Rightarrow> int list option" where
  "sub_words b1 p1 b2 p2 frac0 t = do {
     let (start1, intg1, frac1) = p1;
     let (start2, intg2, frac2) = p2;
     let i1 = nat (int start1 + int intg1 + frac1);
     let i2 = nat (int start2 + int intg2 + frac2);
     let i0 = intg1 + frac0;
     (i0, i1, i2, carry, t) \<leftarrow>
       (if frac1 > frac2 then do {
          (i0, t) \<leftarrow> zero_down (nat (int frac0 - frac1)) i0 t;
          (i1, i0, t) \<leftarrow> copy_down b1 (nat (frac1 - frac2)) i1 i0 t;
          Some (i0, i1, i2, 0, t)
        }
        else do {
          (i0, t) \<leftarrow> zero_down (nat (int frac0 - frac2)) i0 t;
          (i0, carry, t) \<leftarrow> carry_loop1 (SUB 0) b2 (nat (frac2 - frac1)) i2 i0 0 t;
          Some (i0, i1, i2 - nat (frac2 - frac1), carry, t)
        });
     let n = i2 - start2;
     (i0, carry, t) \<leftarrow> carry_loop2 SUB b1 b2 n i1 i2 i0 carry t;
     (i0, t) \<leftarrow> borrow_loop b1 (i1 - n - start1) (i1 - n) i0 carry t;
     (_, t) \<leftarrow> zero_down i0 i0 t;
     Some t
   }"

definition do_sub :: "decimal_t \<Rightarrow> decimal_t \<Rightarrow> decimal_t \<Rightarrow> (dec_error \<times> decimal_t) option" where
  "do_sub from1 from2 to = do {
     (p1, p2, c) \<leftarrow> sub_compare from1 from2;
     case c of
       None \<Rightarrow> do { to \<leftarrow> decimal_make_zero to; Some (E_DEC_OK, to) }
     | Some carry \<Rightarrow> do {
         let frac0 = max (ROUND_UP (frac from1)) (ROUND_UP (frac from2));
         let (b1, p1, b2, p2) = (if carry then (buf from2, p2, buf from1, p1) else (buf from1, p1, buf from2, p2));
         let sg = (if carry then \<not> sign from1 else sign from1);
         let (start1, intg1, frac1) = p1;
         let (start2, intg2, frac2) = p2;
         let (intg1, frac0, error) = FIX_INTG_FRAC_ERROR (len to) intg1 frac0;
         let fr = max (frac from1) (frac from2);
         let (fr, frac1, frac2, intg2) =
           (if error \<noteq> E_DEC_OK then (min fr (frac0 * 9), min frac1 (int frac0), min frac2 (int frac0), min intg2 intg1)
            else (fr, frac1, frac2, intg2));
         t \<leftarrow> sub_words b1 (start1, intg1, frac1) b2 (start2, intg2, frac2) frac0 (buf to);
         Some (error, to\<lparr>sign := sg, frac := fr, intg := intg1 * 9, buf := t\<rparr>)
       }
   }"

text \<open>\<open>do_sub\<close> with a null result, as \<open>decimal_cmp\<close> calls it.\<close>

definition do_sub_cmp :: "decimal_t \<Rightarrow> decimal_t \<Rightarrow> int option" where
  "do_sub_cmp from1 from2 = do {
     (_, _, c) \<leftarrow> sub_compare from1 from2;
     case c of None \<Rightarrow> Some 0 | Some carry \<Rightarrow> Some (if carry = sign from1 then 1 else - 1)
   }"

definition decimal_add :: "decimal_t \<Rightarrow> decimal_t \<Rightarrow> decimal_t \<Rightarrow> (dec_error \<times> decimal_t) option" where
  "decimal_add from1 from2 to = (if sign from1 = sign from2 then do_add from1 from2 to else do_sub from1 from2 to)"

definition decimal_sub :: "decimal_t \<Rightarrow> decimal_t \<Rightarrow> decimal_t \<Rightarrow> (dec_error \<times> decimal_t) option" where
  "decimal_sub from1 from2 to = (if sign from1 = sign from2 then do_sub from1 from2 to else do_add from1 from2 to)"

definition decimal_cmp :: "decimal_t \<Rightarrow> decimal_t \<Rightarrow> int option" where
  "decimal_cmp from1 from2 =
     (if sign from1 = sign from2 then do_sub_cmp from1 from2 else Some (if sign from1 \<and> \<not> sign from2 then - 1 else 1))"

section \<open>Multiplication\<close>

text \<open>The inner loop: \<open>x\<close> times \<open>n\<close> words below \<open>i2\<close>, added to the words below \<open>i0\<close>.\<close>

fun mul_row :: "int \<Rightarrow> int list \<Rightarrow> nat \<Rightarrow> nat \<Rightarrow> nat \<Rightarrow> int \<Rightarrow> int list \<Rightarrow> (nat \<times> int \<times> int list) option" where
  "mul_row x b2 0 i2 i0 carry t = Some (i0, carry, t)"
| "mul_row x b2 (Suc n) i2 i0 carry t = do {
     i0 \<leftarrow> pre_dec i0; i2 \<leftarrow> pre_dec i2;
     y \<leftarrow> rd b2 i2;
     let hi = x * y div DIG_BASE;
     let lo = x * y - hi * DIG_BASE;
     z \<leftarrow> rd t i0;
     let (a, carry) = ADD2 z lo carry;
     t \<leftarrow> wr t i0 a;
     mul_row x b2 n i2 i0 (carry + hi) t
   }"

text \<open>\<open>for (; carry; buf0--) ADD(*buf0, *buf0, 0, carry)\<close>\<close>

fun mul_carry :: "nat \<Rightarrow> int \<Rightarrow> int list \<Rightarrow> int list option" where
  "mul_carry 0 carry t = (if carry = 0 then Some t else None)"
| "mul_carry (Suc i0) carry t =
     (if carry = 0 then Some t
      else do {
        z \<leftarrow> rd t i0;
        let (a, carry) = ADD z 0 carry;
        t \<leftarrow> wr t i0 a;
        mul_carry i0 carry t
      })"

text \<open>The outer loop over \<open>n1\<close> words below \<open>i1\<close>.\<close>

fun mul_rows :: "int list \<Rightarrow> int list \<Rightarrow> nat \<Rightarrow> nat \<Rightarrow> nat \<Rightarrow> nat \<Rightarrow> nat \<Rightarrow> int list \<Rightarrow> int list option" where
  "mul_rows b1 b2 0 i1 n2 i2 start0 t = Some t"
| "mul_rows b1 b2 (Suc n1) i1 n2 i2 start0 t = do {
     i1 \<leftarrow> pre_dec i1;
     x \<leftarrow> rd b1 i1;
     (i0, carry, t) \<leftarrow> mul_row x b2 n2 i2 start0 0 t;
     t \<leftarrow> mul_carry i0 carry t;
     start0 \<leftarrow> (if n1 = 0 then Some start0 else pre_dec start0);
     mul_rows b1 b2 n1 i1 n2 i2 start0 t
   }"

text \<open>The words in front that are 0 are removed by moving the others.\<close>

fun move_words :: "nat \<Rightarrow> nat \<Rightarrow> nat \<Rightarrow> int list \<Rightarrow> int list option" where
  "move_words 0 cur_d i t = Some t"
| "move_words (Suc n) cur_d i t = do { x \<leftarrow> rd t i; t \<leftarrow> wr t cur_d x; move_words n (cur_d + 1) (i + 1) t }"

fun drop_zero_words :: "int list \<Rightarrow> nat \<Rightarrow> nat \<Rightarrow> (nat \<times> nat) option" where
  "drop_zero_words b i ig = do {
     x \<leftarrow> rd b i;
     if x = 0 \<and> ig > 9 then drop_zero_words b (i + 1) (ig - 9) else Some (i, ig)
   }"

definition mul_normalize :: "decimal_t \<Rightarrow> nat \<Rightarrow> decimal_t option" where
  "mul_normalize to intg0 = do {
     (i, ig) \<leftarrow> drop_zero_words (buf to) 0 (intg to);
     t \<leftarrow> (if 0 < i then move_words (intg0 + ROUND_UP (frac to) - i) 0 i (buf to) else Some (buf to));
     Some (to\<lparr>intg := ig, buf := t\<rparr>)
   }"

definition decimal_mul :: "decimal_t \<Rightarrow> decimal_t \<Rightarrow> decimal_t \<Rightarrow> (dec_error \<times> decimal_t) option" where
  "decimal_mul from1 from2 to = do {
     let I1 = ROUND_UP (intg from1);
     let I2 = ROUND_UP (intg from2);
     let F1 = ROUND_UP (frac from1);
     let F2 = ROUND_UP (frac from2);
     let i = ROUND_UP (intg from1 + intg from2);
     let j = F1 + F2;
     let (intg0, frac0, error) = FIX_INTG_FRAC_ERROR (len to) i j;
     let fr = (if error \<noteq> E_DEC_OK then min (frac from1 + frac from2) (frac0 * 9) else frac from1 + frac from2);
     let (intg1, intg2, frac1, frac2) =
       (if error = E_DEC_OK then (int I1, int I2, int F1, int F2)
        else if i > intg0
        then (int I1 - int ((i - intg0) div 2), int I2 - int (i - intg0 - (i - intg0) div 2), 0, 0)
        else (int I1, int I2, int F1 - int ((j - frac0) div 2), int F2 - int (j - frac0 - (j - frac0) div 2)));
     t \<leftarrow> fill_words (intg0 + frac0) 0 0 (buf to);
     t \<leftarrow> mul_rows (buf from1) (buf from2) (nat (intg1 + frac1)) (nat (int I1 + frac1))
            (nat (intg2 + frac2)) (nat (int I2 + frac2)) (intg0 + frac0) t;
     let to = to\<lparr>sign := (sign from1 \<noteq> sign from2), frac := fr, intg := intg0 * 9, buf := t\<rparr>;
     to \<leftarrow> (if sign to
            then if intg0 + frac0 = 0 then None
                 else do {
                   k \<leftarrow> skip_zero t 0 (intg0 + frac0);
                   if k = intg0 + frac0 then decimal_make_zero to else Some to
                 }
            else Some to);
     to \<leftarrow> mul_normalize to intg0;
     Some (error, to)
   }"

section \<open>Integers\<close>

fun count_words :: "nat \<Rightarrow> nat" where
  "count_words from = (if from \<ge> 1000000000 then Suc (count_words (from div 1000000000)) else 1)"

fun put_words :: "nat \<Rightarrow> nat \<Rightarrow> nat \<Rightarrow> int list \<Rightarrow> int list option" where
  "put_words 0 i x t = Some t"
| "put_words (Suc n) i x t = do {
     i \<leftarrow> pre_dec i;
     let y = x div 1000000000;
     t \<leftarrow> wr t i (int (x - y * 1000000000));
     put_words n i y t
   }"

definition ull2dec :: "nat \<Rightarrow> decimal_t \<Rightarrow> (dec_error \<times> decimal_t) option" where
  "ull2dec from to = do {
     let intg1 = count_words from;
     let (intg1, error) = (if intg1 > len to then (len to, E_DEC_OVERFLOW) else (intg1, E_DEC_OK));
     t \<leftarrow> put_words intg1 intg1 from (buf to);
     Some (error, to\<lparr>frac := 0, intg := intg1 * 9, buf := t\<rparr>)
   }"

definition ulonglong2decimal :: "nat \<Rightarrow> decimal_t \<Rightarrow> (dec_error \<times> decimal_t) option" where
  "ulonglong2decimal from to = ull2dec from (to\<lparr>sign := False\<rparr>)"

text \<open>The conversion of the negated number to an unsigned one, modulo \<open>2 ^ 64\<close>.\<close>

definition longlong2decimal :: "int \<Rightarrow> decimal_t \<Rightarrow> (dec_error \<times> decimal_t) option" where
  "longlong2decimal from to =
     (if from < 0 then ull2dec (nat (- from mod 18446744073709551616)) (to\<lparr>sign := True\<rparr>)
      else ull2dec (nat from) (to\<lparr>sign := False\<rparr>))"

text \<open>The loops over the integral part, with the multiplication of a 64-bit type; \<open>Inl\<close> is the early return.\<close>

fun ull_loop :: "int list \<Rightarrow> nat \<Rightarrow> nat \<Rightarrow> int \<Rightarrow> (int + nat \<times> int) option" where
  "ull_loop b 0 i x = Some (Inr (i, x))"
| "ull_loop b (Suc n) i x = do {
     w \<leftarrow> rd b i;
     let y = x;
     let x = (x * DIG_BASE + w) mod 18446744073709551616;
     if y > 18446744073709551615 div DIG_BASE \<or> x < y then Some (Inl y) else ull_loop b n (i + 1) x
   }"

definition decimal2ulonglong :: "decimal_t \<Rightarrow> (dec_error \<times> int) option" where
  "decimal2ulonglong from =
     (if sign from then Some (E_DEC_OVERFLOW, 0)
      else do {
        r \<leftarrow> ull_loop (buf from) (ROUND_UP (intg from)) 0 0;
        case r of
          Inl y \<Rightarrow> Some (E_DEC_OVERFLOW, y)
        | Inr (i, x) \<Rightarrow> do {
            k \<leftarrow> skip_zero (buf from) i (ROUND_UP (frac from));
            Some (if k < i + ROUND_UP (frac from) then E_DEC_TRUNCATED else E_DEC_OK, x)
          }
      })"

definition int64 :: "int \<Rightarrow> int" where
  "int64 x = (x + 9223372036854775808) mod 18446744073709551616 - 9223372036854775808"

fun ll_loop :: "int list \<Rightarrow> nat \<Rightarrow> nat \<Rightarrow> int \<Rightarrow> (int + nat \<times> int) option" where
  "ll_loop b 0 i x = Some (Inr (i, x))"
| "ll_loop b (Suc n) i x = do {
     w \<leftarrow> rd b i;
     let y = x;
     let x = int64 (x * DIG_BASE - w);
     if y < - 9223372036 \<or> x > y then Some (Inl y) else ll_loop b n (i + 1) x
   }"

definition decimal2longlong :: "decimal_t \<Rightarrow> (dec_error \<times> int) option" where
  "decimal2longlong from = do {
     r \<leftarrow> ll_loop (buf from) (ROUND_UP (intg from)) 0 0;
     case r of
       Inl y \<Rightarrow> Some (E_DEC_OVERFLOW, if sign from then y else int64 (- y))
     | Inr (i, x) \<Rightarrow>
         if \<not> sign from \<and> x < 0 \<and> int64 (- x) < 0 then Some (E_DEC_OVERFLOW, int64 (- 1 - x))
         else do {
           k \<leftarrow> skip_zero (buf from) i (ROUND_UP (frac from));
           Some (if k < i + ROUND_UP (frac from) then E_DEC_TRUNCATED else E_DEC_OK, if sign from then x else int64 (- x))
         }
   }"

end
