(* ===== verification/Decimal_Val.thy ===== *)
theory Decimal_Val
  imports Decimal
begin

text \<open>
  The value of a sequence of words in base \<open>10 ^ 9\<close>, the value of a decimal number as a rational, and what the
  loops of \<open>Decimal\<close> do to sequences of words.
\<close>

section \<open>Sequences of words\<close>

fun wval :: "int list \<Rightarrow> int" where
  "wval [] = 0"
| "wval (x # xs) = x * DIG_BASE ^ length xs + wval xs"

definition words_ok :: "int list \<Rightarrow> bool" where
  "words_ok xs \<longleftrightarrow> (\<forall>x\<in>set xs. 0 \<le> x \<and> x < DIG_BASE)"

lemma words_ok_simps [simp]:
  "words_ok []" "words_ok (x # xs) \<longleftrightarrow> 0 \<le> x \<and> x < DIG_BASE \<and> words_ok xs" "words_ok (xs @ ys) \<longleftrightarrow> words_ok xs \<and> words_ok ys"
  by (auto simp: words_ok_def)

lemma words_ok_sub [intro]: "words_ok xs \<Longrightarrow> words_ok (take n xs)" "words_ok xs \<Longrightarrow> words_ok (drop n xs)"
  by (auto simp: words_ok_def dest: in_set_takeD in_set_dropD)

lemma words_ok_nth: "words_ok xs \<Longrightarrow> i < length xs \<Longrightarrow> 0 \<le> xs ! i \<and> xs ! i < DIG_BASE"
  by (simp add: words_ok_def)

lemma words_ok_replicate [simp]: "words_ok (replicate n x) \<longleftrightarrow> n = 0 \<or> 0 \<le> x \<and> x < DIG_BASE"
  by (auto simp: words_ok_def)

lemma wval_append [simp]: "wval (xs @ ys) = wval xs * DIG_BASE ^ length ys + wval ys"
  by (induction xs) (simp_all add: algebra_simps power_add)

lemma wval_zeros [simp]: "wval (replicate n 0) = 0"
  by (induction n) simp_all

lemma wval_bounds: "words_ok xs \<Longrightarrow> 0 \<le> wval xs \<and> wval xs < DIG_BASE ^ length xs"
proof (induction xs)
  case (Cons x xs)
  then have "0 \<le> wval xs" "wval xs < DIG_BASE ^ length xs" "0 \<le> x" "x \<le> DIG_MAX" by simp_all
  moreover from this have "x * DIG_BASE ^ length xs \<le> DIG_MAX * DIG_BASE ^ length xs"
    by (intro mult_right_mono) simp_all
  moreover have "0 \<le> x * DIG_BASE ^ length xs" using \<open>0 \<le> x\<close> by simp
  moreover have "DIG_BASE ^ length (x # xs) = DIG_BASE * DIG_BASE ^ length xs" by simp
  ultimately show ?case unfolding wval.simps by (intro conjI) linarith+
qed simp

lemma wval_eq_0: "words_ok xs \<Longrightarrow> wval xs = 0 \<longleftrightarrow> (\<forall>x\<in>set xs. x = 0)"
proof (induction xs)
  case (Cons x xs)
  then have "0 \<le> x" "0 \<le> wval xs" using wval_bounds by simp_all
  then have "wval (x # xs) = 0 \<longleftrightarrow> x = 0 \<and> wval xs = 0" by (simp add: add_nonneg_eq_0_iff)
  then show ?case using Cons by simp
qed simp

text \<open>Comparing words of equal number is comparing the first difference.\<close>

lemma wval_less:
  assumes "words_ok (x # xs)" "words_ok (y # ys)" "length xs = length ys" "x < y"
  shows "wval (x # xs) < wval (y # ys)"
proof -
  have "wval xs < DIG_BASE ^ length xs" "0 \<le> wval ys" using assms wval_bounds by (meson words_ok_simps(2))+
  moreover have "(x + 1) * DIG_BASE ^ length xs \<le> y * DIG_BASE ^ length xs"
    using assms(4) by (intro mult_right_mono) simp_all
  then have "x * DIG_BASE ^ length xs + DIG_BASE ^ length xs \<le> y * DIG_BASE ^ length xs" by (simp add: distrib_right)
  ultimately show ?thesis unfolding wval.simps assms(3) [symmetric] by linarith
qed

lemma wval_inj: "words_ok xs \<Longrightarrow> words_ok ys \<Longrightarrow> length xs = length ys \<Longrightarrow> wval xs = wval ys \<Longrightarrow> xs = ys"
proof (induction xs arbitrary: ys)
  case (Cons x xs)
  then obtain y ys' where y: "ys = y # ys'" by (cases ys) auto
  have "\<not> x < y" "\<not> y < x" using wval_less [of x xs y ys'] wval_less [of y ys' x xs] Cons.prems y by auto
  then show ?case using Cons y by auto
qed simp

section \<open>Parts of a block\<close>

definition part :: "'a list \<Rightarrow> nat \<Rightarrow> nat \<Rightarrow> 'a list" where
  "part xs i n = take n (drop i xs)"

definition patch :: "'a list \<Rightarrow> nat \<Rightarrow> 'a list \<Rightarrow> 'a list" where
  "patch xs i ys = take i xs @ ys @ drop (i + length ys) xs"

lemma length_part [simp]: "i + n \<le> length xs \<Longrightarrow> length (part xs i n) = n"
  by (simp add: part_def)

lemma length_patch [simp]: "i + length ys \<le> length xs \<Longrightarrow> length (patch xs i ys) = length xs"
  by (simp add: patch_def)

lemma part_ok [intro]: "words_ok xs \<Longrightarrow> words_ok (part xs i n)"
  by (auto simp: part_def)

lemma part_0 [simp]: "part xs i 0 = []"
  by (simp add: part_def)

lemma part_Suc: "i + n < length xs \<Longrightarrow> part xs i (Suc n) = part xs i n @ [xs ! (i + n)]"
  by (simp add: part_def take_Suc_conv_app_nth)

lemma part_Cons: "i < length xs \<Longrightarrow> part xs i (Suc n) = xs ! i # part xs (Suc i) n"
  by (simp add: part_def Cons_nth_drop_Suc [symmetric])

lemma part_add: "part xs i (m + n) = part xs i m @ part xs (i + m) n"
  by (simp add: part_def take_add add.commute)

lemma patch_Nil [simp]: "patch xs i [] = xs"
  by (simp add: patch_def)

lemma patch_patch_down:
  "i + length ys + length zs \<le> length xs \<Longrightarrow> patch (patch xs (i + length ys) zs) i ys = patch xs i (ys @ zs)"
  by (simp add: patch_def min_def add.assoc)

lemma patch_update: "i < length xs \<Longrightarrow> xs[i := v] = patch xs i [v]"
  by (simp add: patch_def upd_conv_take_nth_drop)

lemma patch_Cons_down: "Suc i + length zs \<le> length xs \<Longrightarrow> (patch xs (Suc i) zs)[i := v] = patch xs i (v # zs)"
  using patch_patch_down [of i "[v]" zs xs] by (simp add: patch_update)

lemma part_patch: "i + length ys \<le> length xs \<Longrightarrow> part (patch xs i ys) i (length ys) = ys"
  by (simp add: part_def patch_def)

lemma take_patch [simp]: "k \<le> i \<Longrightarrow> i \<le> length xs \<Longrightarrow> take k (patch xs i ys) = take k xs"
  by (simp add: patch_def min_def)

section \<open>The loops\<close>

lemma copy_down_ok:
  assumes "n \<le> i1" "n \<le> i0" "i1 \<le> length b1" "i0 \<le> length t"
  shows "copy_down b1 n i1 i0 t = Some (i1 - n, i0 - n, patch t (i0 - n) (part b1 (i1 - n) n))"
  using assms
proof (induction n arbitrary: i1 i0 t)
  case (Suc n)
  obtain j1 j0 where j: "i1 = Suc j1" "i0 = Suc j0" using Suc.prems by (meson Suc_le_D)
  let ?t = "t[j0 := b1 ! j1]"
  have "copy_down b1 (Suc n) i1 i0 t = copy_down b1 n j1 j0 ?t" using Suc.prems j by simp
  also have "\<dots> = Some (j1 - n, j0 - n, patch ?t (j0 - n) (part b1 (j1 - n) n))"
    by (rule Suc.IH) (use Suc.prems j in simp_all)
  also have "patch ?t (j0 - n) (part b1 (j1 - n) n) = patch t (j0 - n) (part b1 (j1 - n) n @ [b1 ! j1])"
    using patch_patch_down [of "j0 - n" "part b1 (j1 - n) n" "[b1 ! j1]" t] Suc.prems j by (simp add: patch_update)
  also have "part b1 (j1 - n) n @ [b1 ! j1] = part b1 (j1 - n) (Suc n)" using Suc.prems j by (simp add: part_Suc)
  finally show ?case using j by simp
qed simp

text \<open>What a macro does with two words and a carry: \<open>s\<close> is 1 for addition and -1 for subtraction.\<close>

definition carries :: "int \<Rightarrow> (int \<Rightarrow> int \<Rightarrow> int \<Rightarrow> int \<times> int) \<Rightarrow> bool" where
  "carries s f \<longleftrightarrow> (\<forall>x y c. 0 \<le> x \<longrightarrow> x < DIG_BASE \<longrightarrow> 0 \<le> y \<longrightarrow> y < DIG_BASE \<longrightarrow> c \<in> {0, 1} \<longrightarrow>
     (case f x y c of (a, c') \<Rightarrow> 0 \<le> a \<and> a < DIG_BASE \<and> c' \<in> {0, 1} \<and> a + s * c' * DIG_BASE = x + s * y + s * c))"

lemma int32_id [simp]: "- 2147483648 \<le> x \<Longrightarrow> x < 2147483648 \<Longrightarrow> int32 x = x"
  by (simp add: int32_def)

lemma carries_ADD: "carries 1 ADD"
  by (auto simp: carries_def ADD_def Let_def)

lemma carries_SUB: "carries (- 1) SUB"
  by (auto simp: carries_def SUB_def Let_def)

lemma carry_loop2_ok:
  assumes f: "carries s f"
    and "n \<le> i1" "n \<le> i2" "n \<le> i0" "i1 \<le> length b1" "i2 \<le> length b2" "i0 \<le> length t" "c \<in> {0, 1}"
      "words_ok (take i1 b1)" "words_ok (take i2 b2)"
  shows "\<exists>ws c'. carry_loop2 f b1 b2 n i1 i2 i0 c t = Some (i0 - n, c', patch t (i0 - n) ws) \<and> length ws = n \<and> words_ok ws \<and>
    c' \<in> {0, 1} \<and> wval ws + s * c' * DIG_BASE ^ n = wval (part b1 (i1 - n) n) + s * wval (part b2 (i2 - n) n) + s * c"
  using assms(2-)
proof (induction n arbitrary: i1 i2 i0 t c)
  case (Suc n)
  obtain j1 j2 j0 where j: "i1 = Suc j1" "i2 = Suc j2" "i0 = Suc j0" using Suc.prems by (meson Suc_le_D)
  obtain a c1 where a: "f (b1 ! j1) (b2 ! j2) c = (a, c1)" by force
  have x: "0 \<le> b1 ! j1" "b1 ! j1 < DIG_BASE" "0 \<le> b2 ! j2" "b2 ! j2 < DIG_BASE"
    using words_ok_nth [OF Suc.prems(8), of j1] words_ok_nth [OF Suc.prems(9), of j2] Suc.prems j by auto
  have ok: "words_ok (take j1 b1)" "words_ok (take j2 b2)"
    using words_ok_sub(1) [OF Suc.prems(8), of j1] words_ok_sub(1) [OF Suc.prems(9), of j2] j by (simp_all add: min_def)
  have a1: "0 \<le> a" "a < DIG_BASE" "c1 \<in> {0, 1}" "a + s * c1 * DIG_BASE = b1 ! j1 + s * b2 ! j2 + s * c"
    using f [unfolded carries_def, rule_format, OF x Suc.prems(7)] a by auto
  obtain ws c' where w: "carry_loop2 f b1 b2 n j1 j2 j0 c1 (t[j0 := a]) = Some (j0 - n, c', patch (t[j0 := a]) (j0 - n) ws)" "length ws = n"
    "words_ok ws" "c' \<in> {0, 1}" "wval ws + s * c' * DIG_BASE ^ n = wval (part b1 (j1 - n) n) + s * wval (part b2 (j2 - n) n) + s * c1"
    using Suc.IH [of j1 j2 j0 "t[j0 := a]" c1] Suc.prems j a1(3) ok by auto
  have "carry_loop2 f b1 b2 (Suc n) i1 i2 i0 c t = Some (j0 - n, c', patch t (j0 - n) (ws @ [a]))"
    using Suc.prems j a w(1,2) patch_patch_down [of "j0 - n" ws "[a]" t] by (simp add: patch_update)
  moreover have "wval (ws @ [a]) + s * c' * DIG_BASE ^ Suc n =
      wval (part b1 (j1 - n) (Suc n)) + s * wval (part b2 (j2 - n) (Suc n)) + s * c"
  proof -
    have "wval (ws @ [a]) + s * c' * DIG_BASE ^ Suc n = (wval ws + s * c' * DIG_BASE ^ n) * DIG_BASE + a"
      by (simp add: algebra_simps)
    also have "\<dots> = (wval (part b1 (j1 - n) n) + s * wval (part b2 (j2 - n) n)) * DIG_BASE + (a + s * c1 * DIG_BASE)"
      unfolding w(5) by (simp add: algebra_simps)
    also have "\<dots> = wval (part b1 (j1 - n) (Suc n)) + s * wval (part b2 (j2 - n) (Suc n)) + s * c"
      unfolding a1(4) using Suc.prems j by (simp add: part_Suc algebra_simps)
    finally show ?thesis .
  qed
  ultimately show ?case using j a1(1,2) w(2,3,4) by (intro exI [of _ "ws @ [a]"] exI [of _ c']) simp
qed simp

lemma carry_loop1_as_2:
  "n \<le> i1 \<Longrightarrow> n \<le> i0 \<Longrightarrow> i1 \<le> length b1 \<Longrightarrow> i0 \<le> length t \<Longrightarrow>
   carry_loop1 (\<lambda>x. f x 0) b1 n i1 i0 c t = carry_loop2 f b1 (replicate (n + k) 0) n i1 n i0 c t"
proof (induction n arbitrary: i1 i0 c t k)
  case (Suc n)
  obtain j1 j0 where j: "i1 = Suc j1" "i0 = Suc j0" using Suc.prems by (meson Suc_le_D)
  have "carry_loop1 (\<lambda>x. f x 0) b1 n j1 j0 c' t' = carry_loop2 f b1 (replicate (Suc n + k) 0) n j1 n j0 c' t'" if "length t' = length t" for c' t'
    using Suc.IH [of j1 j0 t' c' "Suc k"] Suc.prems j that by simp
  then show ?case using Suc.prems j by (simp add: nth_Cons' split: prod.split)
qed simp

lemma carry_loop1_second:
  "n \<le> i1 \<Longrightarrow> n \<le> i0 \<Longrightarrow> i1 \<le> length b1 \<Longrightarrow> i0 \<le> length t \<Longrightarrow>
   carry_loop1 (f 0) b1 n i1 i0 c t = carry_loop2 f (replicate (n + k) 0) b1 n n i1 i0 c t"
proof (induction n arbitrary: i1 i0 c t k)
  case (Suc n)
  obtain j1 j0 where j: "i1 = Suc j1" "i0 = Suc j0" using Suc.prems by (meson Suc_le_D)
  have "carry_loop1 (f 0) b1 n j1 j0 c' t' = carry_loop2 f (replicate (Suc n + k) 0) b1 n n j1 j0 c' t'" if "length t' = length t" for c' t'
    using Suc.IH [of j1 j0 t' c' "Suc k"] Suc.prems j that by simp
  then show ?case using Suc.prems j by (simp add: nth_Cons' split: prod.split)
qed simp

lemma take_zeros [simp]: "take m (replicate n x) = replicate (min m n) x" "part (replicate n x) 0 m = replicate (min m n) x"
  by (simp_all add: part_def)

text \<open>The loops with one operand, as the loop with two of which one is 0.\<close>

lemma carry_loop1_ok:
  assumes "carries s f" "n \<le> i1" "n \<le> i0" "i1 \<le> length b1" "i0 \<le> length t" "c \<in> {0, 1}" "words_ok (take i1 b1)"
  shows "\<exists>ws c'. carry_loop1 (\<lambda>x. f x 0) b1 n i1 i0 c t = Some (i0 - n, c', patch t (i0 - n) ws) \<and> length ws = n \<and> words_ok ws \<and>
      c' \<in> {0, 1} \<and> wval ws + s * c' * DIG_BASE ^ n = wval (part b1 (i1 - n) n) + s * c"
    and "\<exists>ws c'. carry_loop1 (f 0) b1 n i1 i0 c t = Some (i0 - n, c', patch t (i0 - n) ws) \<and> length ws = n \<and> words_ok ws \<and>
      c' \<in> {0, 1} \<and> wval ws + s * c' * DIG_BASE ^ n = s * wval (part b1 (i1 - n) n) + s * c"
  using carry_loop2_ok [of s f n i1 n i0 b1 "replicate n 0" t c] carry_loop2_ok [of s f n n i1 i0 "replicate n 0" b1 t c] assms
    carry_loop1_as_2 [of n i1 i0 b1 t f c 0] carry_loop1_second [of n i1 i0 b1 t f c 0] by auto

lemma zero_down_ok: "n \<le> i0 \<Longrightarrow> i0 \<le> length t \<Longrightarrow> zero_down n i0 t = Some (i0 - n, patch t (i0 - n) (replicate n 0))"
proof (induction n arbitrary: i0 t)
  case (Suc n)
  obtain j0 where j: "i0 = Suc j0" using Suc.prems by (meson Suc_le_D)
  have "zero_down (Suc n) i0 t = Some (j0 - n, patch (t[j0 := 0]) (j0 - n) (replicate n 0))" using Suc j by simp
  also have "patch (t[j0 := 0]) (j0 - n) (replicate n 0) = patch t (j0 - n) (replicate n 0 @ [0])"
    using patch_patch_down [of "j0 - n" "replicate n 0" "[0]" t] Suc.prems j by (simp add: patch_update)
  finally show ?case using j by (simp add: replicate_append_same)
qed simp

lemma SUB_no_carry: "0 \<le> x \<Longrightarrow> x < DIG_BASE \<Longrightarrow> SUB x 0 0 = (x, 0)"
  by (simp add: SUB_def)

text \<open>Copying is subtracting 0, so the third part of the subtraction is one loop.\<close>

lemma copy_as_carry:
  "n \<le> i1 \<Longrightarrow> n \<le> i0 \<Longrightarrow> i1 \<le> length b1 \<Longrightarrow> i0 \<le> length t \<Longrightarrow> words_ok (take i1 b1) \<Longrightarrow>
   carry_loop1 (\<lambda>x. SUB x 0) b1 n i1 i0 0 t = map_option (\<lambda>(i1, i0, t). (i0, 0, t)) (copy_down b1 n i1 i0 t)"
proof (induction n arbitrary: i1 i0 t)
  case (Suc n)
  obtain j1 j0 where j: "i1 = Suc j1" "i0 = Suc j0" using Suc.prems by (meson Suc_le_D)
  have "0 \<le> b1 ! j1" "b1 ! j1 < DIG_BASE" using words_ok_nth [OF Suc.prems(5), of j1] Suc.prems j by auto
  moreover have "words_ok (take j1 b1)" using words_ok_sub(1) [OF Suc.prems(5), of j1] j by (simp add: min_def)
  ultimately show ?case using Suc j by (simp add: SUB_no_carry)
qed simp

lemma borrow_loop_eq:
  assumes "n \<le> i1" "n \<le> i0" "i1 \<le> length b1" "i0 \<le> length t" "words_ok (take i1 b1)" "c \<in> {0, 1}"
    and "carry_loop1 (\<lambda>x. SUB x 0) b1 n i1 i0 c t = Some (i, 0, t')"
  shows "borrow_loop b1 n i1 i0 c t = Some (i, t')"
  using assms
proof (induction n arbitrary: i1 i0 t c)
  case (Suc n)
  obtain j1 j0 where j: "i1 = Suc j1" "i0 = Suc j0" using Suc.prems by (meson Suc_le_D)
  have "words_ok (take j1 b1)" using words_ok_sub(1) [OF Suc.prems(5), of j1] j by (simp add: min_def)
  moreover have "snd (SUB (b1 ! j1) 0 c) \<in> {0, 1}" by (simp add: SUB_def Let_def)
  ultimately have "borrow_loop b1 (Suc n) i1 i0 c t = Some (i, t')" if "c \<noteq> 0"
    using Suc j that by (auto split: prod.splits)
  moreover have "borrow_loop b1 (Suc n) i1 i0 c t = Some (i, t')" if c: "c = 0"
  proof -
    have "map_option (\<lambda>(i1, i0, t). (i0, 0 :: int, t)) (copy_down b1 (Suc n) i1 i0 t) = Some (i, 0, t')"
      using copy_as_carry [OF Suc.prems(1-5)] Suc.prems(7) c by metis
    then obtain k where "copy_down b1 (Suc n) i1 i0 t = Some (k, i, t')" by auto
    then show ?thesis unfolding borrow_loop.simps c by (simp del: copy_down.simps)
  qed
  ultimately show ?case by blast
qed simp

end
