(* ===== verification/Decimal_Add.thy ===== *)
theory Decimal_Add
  imports Decimal_Val
begin

text \<open>
  Addition of decimal numbers: what \<open>do_add\<close> computes for operands of the same sign, when the result fits and when
  words of the fraction or of the integral part are lost.
\<close>

section \<open>The value of a number\<close>

definition nw :: "decimal_t \<Rightarrow> nat" where
  "nw d = ROUND_UP (intg d) + ROUND_UP (frac d)"

text \<open>The words of the number.\<close>

definition wrds :: "decimal_t \<Rightarrow> int list" where
  "wrds d = take (nw d) (buf d)"

definition dec_ok :: "decimal_t \<Rightarrow> bool" where
  "dec_ok d \<longleftrightarrow> 0 < intg d + frac d \<and> nw d \<le> len d \<and> words_ok (wrds d)"

definition mag :: "decimal_t \<Rightarrow> rat" where
  "mag d = of_int (wval (wrds d)) / of_int (DIG_BASE ^ ROUND_UP (frac d))"

definition dval :: "decimal_t \<Rightarrow> rat" where
  "dval d = (if sign d then - mag d else mag d)"

lemma ROUND_UP_0 [simp]: "ROUND_UP x = 0 \<longleftrightarrow> x = 0"
  by (auto simp: ROUND_UP_def)

lemma ROUND_UP_mult [simp]: "ROUND_UP (n * 9) = n"
  by (simp add: ROUND_UP_def)

lemma ROUND_UP_mono: "m \<le> n \<Longrightarrow> ROUND_UP m \<le> ROUND_UP n"
  by (simp add: ROUND_UP_def div_le_mono)

lemma ROUND_UP_max [simp]: "ROUND_UP (max m n) = max (ROUND_UP m) (ROUND_UP n)"
  by (metis ROUND_UP_mono max.absorb1 max.absorb2 linear)

lemma ROUND_UP_min [simp]: "ROUND_UP (min m n) = min (ROUND_UP m) (ROUND_UP n)"
  by (metis ROUND_UP_mono min.absorb1 min.absorb2 linear)

lemma nw_pos: "0 < intg d + frac d \<Longrightarrow> 0 < nw d"
  by (auto simp: nw_def ROUND_UP_def)

lemma dec_okD:
  assumes "dec_ok d"
  shows "0 < nw d" "nw d \<le> len d" "words_ok (wrds d)" "length (wrds d) = nw d"
  using assms nw_pos by (auto simp: dec_ok_def wrds_def)

section \<open>The three loops\<close>

text \<open>\<open>b\<close> and \<open>n\<close> are the operand with the longer integral part and the number of words it has more.\<close>

definition longer :: "int list \<Rightarrow> nat \<Rightarrow> int list \<Rightarrow> nat \<Rightarrow> int list \<Rightarrow> nat \<Rightarrow> bool" where
  "longer b1 ia b2 ib b n \<longleftrightarrow> ib < ia \<and> b = b1 \<and> n = ia - ib \<or> ia < ib \<and> b = b2 \<and> n = ib - ia \<or> ia = ib \<and> n = 0"

definition add_loops :: "int list \<Rightarrow> nat \<Rightarrow> nat \<Rightarrow> int list \<Rightarrow> nat \<Rightarrow> nat \<Rightarrow> int list \<Rightarrow> nat \<Rightarrow> nat \<Rightarrow> int list \<Rightarrow> (nat \<times> int \<times> int list) option" where
  "add_loops b1 ia fa b2 ib fb b n i0 t = do {
     (i1, i0, t) \<leftarrow> copy_down b1 (fa - fb) (ia + fa) i0 t;
     (i0, carry, t) \<leftarrow> carry_loop2 ADD b1 b2 (min ia ib + fb) i1 (ib + fb) i0 0 t;
     carry_loop1 (\<lambda>x. ADD x 0) b n n i0 carry t
   }"

lemma part_take: "i + n \<le> k \<Longrightarrow> part (take k xs) i n = part xs i n"
  by (simp add: part_def drop_take min_def)

lemma words_ok_take: "words_ok (take k xs) \<Longrightarrow> n \<le> k \<Longrightarrow> words_ok (take n xs)"
  by (metis min.absorb1 take_take words_ok_sub(1))

lemma part_zero: "part xs 0 n = take n xs"
  by (simp add: part_def)

lemma take_parts: "i \<le> k \<Longrightarrow> take k xs = take i xs @ part xs i (k - i)"
  using take_add [of i "k - i" xs] by (simp add: part_def)

lemma wval_take_split: "i \<le> k \<Longrightarrow> k \<le> length xs \<Longrightarrow> wval (take k xs) = wval (take i xs) * DIG_BASE ^ (k - i) + wval (part xs i (k - i))"
  using take_parts [of i k xs] by (metis le_add_diff_inverse length_part wval_append)

lemma add_loops_ok:
  assumes f: "fb \<le> fa" and b: "ia + fa \<le> length b1" "ib + fb \<le> length b2" "words_ok (take (ia + fa) b1)" "words_ok (take (ib + fb) b2)"
    and l: "longer b1 ia b2 ib b n" and t: "max ia ib + fa + e \<le> length t"
  shows "\<exists>ws c. add_loops b1 ia fa b2 ib fb b n (max ia ib + fa + e) t = Some (e, c, patch t e ws) \<and> length ws = max ia ib + fa \<and>
    words_ok ws \<and> c \<in> {0, 1} \<and>
    wval ws + c * DIG_BASE ^ (max ia ib + fa) = wval (take (ia + fa) b1) + wval (take (ib + fb) b2) * DIG_BASE ^ (fa - fb)"
proof -
  let ?m = "min ia ib" and ?N = "max ia ib + fa + e"
  define ct where "ct = part b1 (ia + fb) (fa - fb)"
  have ct: "length ct = fa - fb" "words_ok ct" using b f words_ok_sub(2) [OF b(3), of "ia + fb"]
    by (simp_all add: ct_def part_def take_drop add.commute)
  define t1 where "t1 = patch t (?N - (fa - fb)) ct"
  have lt1: "length t1 = length t" using t ct f by (simp add: t1_def)
  have 1: "copy_down b1 (fa - fb) (ia + fa) ?N t = Some (ia + fb, ?N - (fa - fb), t1)"
    using copy_down_ok [of "fa - fb" "ia + fa" ?N b1 t] f b(1) t by (simp add: t1_def ct_def)
  have ok1: "words_ok (take (ia + fb) b1)" using words_ok_sub(1) [OF b(3), of "ia + fb"] f by (simp add: min_def)
  have mm: "?m \<le> max ia ib + e" by simp
  obtain w2 c2 where 2: "carry_loop2 ADD b1 b2 (?m + fb) (ia + fb) (ib + fb) (?N - (fa - fb)) 0 t1 =
      Some (?N - (fa - fb) - (?m + fb), c2, patch t1 (?N - (fa - fb) - (?m + fb)) w2)" "length w2 = ?m + fb" "words_ok w2" "c2 \<in> {0, 1}"
    "wval w2 + c2 * DIG_BASE ^ (?m + fb) = wval (part b1 (ia - ?m) (?m + fb)) + wval (part b2 (ib - ?m) (?m + fb))"
    using carry_loop2_ok [OF carries_ADD, of "?m + fb" "ia + fb" "ib + fb" "?N - (fa - fb)" b1 b2 t1 0] f b ok1 t lt1 mm by auto
  define t2 where "t2 = patch t1 (?N - (fa - fb) - (?m + fb)) w2"
  have n: "?N - (fa - fb) - (?m + fb) = n + e" "?N - (fa - fb) = n + e + (?m + fb)" "n + ?m + fa = max ia ib + fa"
    using l f by (auto simp: longer_def)
  have lt2: "length t2 = length t" using 2(2) lt1 t n by (simp add: t2_def)
  have t2: "t2 = patch t (n + e) (w2 @ ct)"
  proof -
    have "patch (patch t (n + e + length w2) ct) (n + e) w2 = patch t (n + e) (w2 @ ct)"
      by (rule patch_patch_down) (use 2(2) ct n t f in linarith)
    then show ?thesis unfolding t2_def t1_def n(2) 2(2) by simp
  qed
  have nb: "n \<le> length b" "words_ok (take n b)" and top: "wval (take n b) = wval (take (ia - ?m) b1) + wval (take (ib - ?m) b2)"
    using l b f words_ok_take [OF b(3), of n] words_ok_take [OF b(4), of n] by (auto simp: longer_def min_def)
  obtain w3 c3 where 3: "carry_loop1 (\<lambda>x. ADD x 0) b n n (n + e) c2 t2 = Some (e, c3, patch t2 e w3)" "length w3 = n" "words_ok w3" "c3 \<in> {0, 1}"
    "wval w3 + c3 * DIG_BASE ^ n = wval (take n b) + c2"
    using carry_loop1_ok(1) [OF carries_ADD, of n n "n + e" b t2 c2] nb 2(4) t lt2 n f by (auto simp: part_zero)
  have p: "patch t2 e w3 = patch t e (w3 @ w2 @ ct)"
    using patch_patch_down [of e w3 "w2 @ ct" t] 3(2) 2(2) ct n t f unfolding t2 by (simp add: add.commute)
  have "add_loops b1 ia fa b2 ib fb b n ?N t = Some (e, c3, patch t e (w3 @ w2 @ ct))"
    using 1 2(1) 3(1) n p unfolding add_loops_def t2_def by simp
  moreover have "wval (w3 @ w2 @ ct) + c3 * DIG_BASE ^ (max ia ib + fa) =
      wval (take (ia + fa) b1) + wval (take (ib + fb) b2) * DIG_BASE ^ (fa - fb)"
  proof -
    have e: "max ia ib + fa = n + (?m + fb) + (fa - fb)" using n f by simp
    have "wval (w3 @ w2 @ ct) + c3 * DIG_BASE ^ (max ia ib + fa) =
        (wval w3 + c3 * DIG_BASE ^ n) * DIG_BASE ^ (?m + fb) * DIG_BASE ^ (fa - fb) + wval w2 * DIG_BASE ^ (fa - fb) + wval ct"
      unfolding e power_add by (simp add: 2(2) ct(1) power_add algebra_simps)
    also have "\<dots> = (wval (take n b) * DIG_BASE ^ (?m + fb) + (wval w2 + c2 * DIG_BASE ^ (?m + fb))) * DIG_BASE ^ (fa - fb) + wval ct"
      unfolding 3(5) by (simp add: algebra_simps)
    also have "\<dots> = (wval (take (ia + fb) b1) + wval (take (ib + fb) b2)) * DIG_BASE ^ (fa - fb) + wval ct"
      unfolding 2(5) top
      using wval_take_split [of "ia - ?m" "ia + fb" b1] wval_take_split [of "ib - ?m" "ib + fb" b2] b f
      by (simp add: algebra_simps)
    also have "\<dots> = wval (take (ia + fa) b1) + wval (take (ib + fb) b2) * DIG_BASE ^ (fa - fb)"
      using wval_take_split [of "ia + fb" "ia + fa" b1] b(1) f by (simp add: ct_def algebra_simps)
    finally show ?thesis .
  qed
  moreover have "length (w3 @ w2 @ ct) = max ia ib + fa" using 2(2) 3(2) ct n f by simp
  moreover have "words_ok (w3 @ w2 @ ct)" using 2(3) 3(3) ct by simp
  ultimately show ?thesis using 3(4) by blast
qed

section \<open>Cutting the fraction\<close>

text \<open>The magnitude of a number of which only \<open>k\<close> words of the fraction are kept.\<close>

definition cut :: "nat \<Rightarrow> decimal_t \<Rightarrow> rat" where
  "cut k d = (let g = min (ROUND_UP (frac d)) k in of_int (wval (take (ROUND_UP (intg d) + g) (buf d))) / of_int (DIG_BASE ^ g))"

lemma cut_all: "ROUND_UP (frac d) \<le> k \<Longrightarrow> cut k d = mag d"
  by (simp add: cut_def mag_def wrds_def nw_def min_def Let_def)

lemma cut_bounds:
  assumes "dec_ok d"
  shows "0 \<le> cut k d" "cut k d \<le> mag d" "mag d < cut k d + 1 / of_int (DIG_BASE ^ k)"
proof -
  define g where "g = min (ROUND_UP (frac d)) k"
  define F where "F = ROUND_UP (frac d)"
  define I where "I = ROUND_UP (intg d)"
  have g: "g \<le> F" "g \<le> k" "g = F \<or> g = k" by (auto simp: g_def F_def min_def)
  have ok: "words_ok (take (I + F) (buf d))" "I + F \<le> len d" using dec_okD [OF assms] by (simp_all add: wrds_def nw_def I_def F_def)
  have okg: "words_ok (take (I + g) (buf d))" using words_ok_sub(1) [OF ok(1), of "I + g"] g(1) by (simp add: min_def)
  define a where "a = wval (take (I + g) (buf d))"
  define r where "r = wval (part (buf d) (I + g) (F - g))"
  have okr: "words_ok (part (buf d) (I + g) (F - g))" "length (part (buf d) (I + g) (F - g)) = F - g"
    using words_ok_sub(2) [OF ok(1), of "I + g"] g(1) ok(2) by (simp_all add: part_def drop_take)
  have r: "0 \<le> r" "r < DIG_BASE ^ (F - g)" "0 \<le> a" using wval_bounds [OF okr(1)] wval_bounds [OF okg] okr(2) by (simp_all add: r_def a_def)
  have w: "wval (wrds d) = a * DIG_BASE ^ (F - g) + r"
    using wval_take_split [of "I + g" "I + F" "buf d"] g(1) ok(2) by (simp add: wrds_def nw_def I_def F_def a_def r_def)
  have c: "cut k d = of_int a / of_int (DIG_BASE ^ g)" by (simp add: cut_def Let_def a_def I_def g_def)
  have m: "mag d = of_int a / of_int (DIG_BASE ^ g) + of_int r / of_int (DIG_BASE ^ F)"
  proof -
    have "of_int (DIG_BASE ^ F) = (of_int (DIG_BASE ^ g) * of_int (DIG_BASE ^ (F - g)) :: rat)"
      using g(1) by (simp add: power_add [symmetric])
    then show ?thesis unfolding mag_def w F_def [symmetric] by (simp add: add_divide_distrib)
  qed
  show "0 \<le> cut k d" unfolding c using r(3) by simp
  show "cut k d \<le> mag d" unfolding c m using r(1) by simp
  show "mag d < cut k d + 1 / of_int (DIG_BASE ^ k)"
  proof (cases "g = F")
    case True
    then have "r = 0" using r by simp
    then show ?thesis unfolding c m by simp
  next
    case False
    then have "g = k" "F = k + (F - g)" using g by auto
    then have e: "of_int (DIG_BASE ^ F) = (of_int (DIG_BASE ^ k) * of_int (DIG_BASE ^ (F - g)) :: rat)"
      by (metis of_int_mult power_add)
    have "of_int r < (of_int (DIG_BASE ^ (F - g)) :: rat)" using r(2) by (simp only: of_int_less_iff)
    moreover have "0 < (of_int (DIG_BASE ^ (F - g)) :: rat)" "0 < (of_int (DIG_BASE ^ k) :: rat)" by simp_all
    ultimately have "of_int r / of_int (DIG_BASE ^ F) < (1 :: rat) / of_int (DIG_BASE ^ k)"
      unfolding e by (metis divide_strict_right_mono divide_divide_eq_left' divide_less_eq_1_pos mult.commute)
    then show ?thesis unfolding c m by simp
  qed
qed

section \<open>The result of an addition\<close>

lemma first_word_bound:
  assumes "words_ok ws" "ws \<noteq> []"
  shows "wval ws < (hd ws + 1) * DIG_BASE ^ (length ws - 1)"
  using assms wval_bounds [of "tl ws"] by (cases ws) (simp_all add: algebra_simps)

text \<open>Whether the test of the first words finds room for a carry.\<close>

definition carry_room :: "decimal_t \<Rightarrow> decimal_t \<Rightarrow> bool" where
  "carry_room d1 d2 \<longleftrightarrow>
     (let i1 = ROUND_UP (intg d1); i2 = ROUND_UP (intg d2)
      in (if i1 > i2 then hd (buf d1) else if i2 > i1 then hd (buf d2) else hd (buf d1) + hd (buf d2)) > DIG_MAX - 1)"

lemma pow_pred: "0 < n \<Longrightarrow> DIG_BASE ^ n = DIG_BASE * DIG_BASE ^ (n - 1)"
  by (cases n) simp_all

lemma hd_take: "0 < n \<Longrightarrow> hd (take n xs) = hd xs"
  by (cases xs; cases n) simp_all

text \<open>The words of an operand of which \<open>g\<close> words of the fraction are kept.\<close>

definition kept :: "nat \<Rightarrow> decimal_t \<Rightarrow> int list" where
  "kept g d = take (ROUND_UP (intg d) + g) (buf d)"

lemma kept_ok:
  assumes "dec_ok d" "g \<le> ROUND_UP (frac d)"
  shows "words_ok (kept g d)" "length (kept g d) = ROUND_UP (intg d) + g"
proof -
  have "kept g d = take (ROUND_UP (intg d) + g) (wrds d)" using assms(2) by (simp add: kept_def wrds_def nw_def min_def)
  then show "words_ok (kept g d)" using dec_okD(3) [OF assms(1)] by auto
  show "length (kept g d) = ROUND_UP (intg d) + g" using dec_okD(2) [OF assms(1)] assms(2) by (simp add: kept_def nw_def)
qed

lemma kept_bound:
  assumes "dec_ok d" "g \<le> ROUND_UP (frac d)" "0 < ROUND_UP (intg d) + g" "hd (buf d) \<le> x"
  shows "wval (kept g d) < (x + 1) * DIG_BASE ^ (ROUND_UP (intg d) + g - 1)"
proof -
  have "wval (kept g d) < (hd (buf d) + 1) * DIG_BASE ^ (ROUND_UP (intg d) + g - 1)"
    using first_word_bound [of "kept g d"] kept_ok [OF assms(1,2)] assms(3) hd_take [OF assms(3), of "buf d"]
    by (metis kept_def length_greater_0_conv)
  also have "\<dots> \<le> (x + 1) * DIG_BASE ^ (ROUND_UP (intg d) + g - 1)" using assms(4) by (intro mult_right_mono) simp_all
  finally show ?thesis .
qed

text \<open>Without that room there is no carry.\<close>

lemma no_carry:
  assumes d: "dec_ok d1" "dec_ok d2" and nr: "\<not> carry_room d1 d2"
    and g: "g1 \<le> F" "g2 \<le> F" "g1 \<le> ROUND_UP (frac d1)" "g2 \<le> ROUND_UP (frac d2)"
    and n: "0 < max (ROUND_UP (intg d1)) (ROUND_UP (intg d2)) + min g1 g2"
  shows "wval (kept g1 d1) * DIG_BASE ^ (F - g1) + wval (kept g2 d2) * DIG_BASE ^ (F - g2) <
    DIG_BASE ^ (max (ROUND_UP (intg d1)) (ROUND_UP (intg d2)) + F)"
proof -
  let ?i1 = "ROUND_UP (intg d1)" and ?i2 = "ROUND_UP (intg d2)"
  have small: "wval (kept g d) * DIG_BASE ^ (F - g) < DIG_BASE ^ (ROUND_UP (intg d) + F)" if "dec_ok d" "g \<le> ROUND_UP (frac d)" "g \<le> F" for d g
  proof -
    have "wval (kept g d) * DIG_BASE ^ (F - g) < DIG_BASE ^ (ROUND_UP (intg d) + g) * DIG_BASE ^ (F - g)"
      using wval_bounds [OF kept_ok(1) [OF that(1,2)]] kept_ok(2) [OF that(1,2)] by (intro mult_strict_right_mono) simp_all
    then show ?thesis using that(3) by (simp add: power_add [symmetric])
  qed
  have big: "wval (kept g d) * DIG_BASE ^ (F - g) < (x + 1) * DIG_BASE ^ (ROUND_UP (intg d) + F - 1)"
    if "dec_ok d" "g \<le> ROUND_UP (frac d)" "g \<le> F" "0 < ROUND_UP (intg d) + g" "hd (buf d) \<le> x" for d g x
  proof -
    have "wval (kept g d) * DIG_BASE ^ (F - g) < (x + 1) * DIG_BASE ^ (ROUND_UP (intg d) + g - 1) * DIG_BASE ^ (F - g)"
      using kept_bound [OF that(1,2,4,5)] by (intro mult_strict_right_mono) simp_all
    moreover have "ROUND_UP (intg d) + g - 1 + (F - g) = ROUND_UP (intg d) + F - 1" using that(3,4) by linarith
    ultimately show ?thesis by (simp add: mult.assoc power_add [symmetric])
  qed
  consider "?i2 < ?i1" | "?i1 < ?i2" | "?i1 = ?i2" by linarith
  then show ?thesis
  proof cases
    case 1
    then have h: "hd (buf d1) \<le> DIG_MAX - 1" using nr by (simp add: carry_room_def)
    have "wval (kept g1 d1) * DIG_BASE ^ (F - g1) < DIG_MAX * DIG_BASE ^ (?i1 + F - 1)" using big [OF d(1) g(3,1) _ h] 1 by simp
    moreover have "DIG_BASE ^ (?i2 + F) \<le> DIG_BASE ^ (?i1 + F - 1)" using 1 by (intro power_increasing) auto
    moreover have "DIG_BASE ^ (max ?i1 ?i2 + F) = DIG_BASE * DIG_BASE ^ (?i1 + F - 1)" using pow_pred [of "?i1 + F"] 1 by (simp add: max_def)
    ultimately show ?thesis using small [OF d(2) g(4,2)] by linarith
  next
    case 2
    then have h: "hd (buf d2) \<le> DIG_MAX - 1" using nr by (simp add: carry_room_def)
    have "wval (kept g2 d2) * DIG_BASE ^ (F - g2) < DIG_MAX * DIG_BASE ^ (?i2 + F - 1)" using big [OF d(2) g(4,2) _ h] 2 by simp
    moreover have "DIG_BASE ^ (?i1 + F) \<le> DIG_BASE ^ (?i2 + F - 1)" using 2 by (intro power_increasing) auto
    moreover have "DIG_BASE ^ (max ?i1 ?i2 + F) = DIG_BASE * DIG_BASE ^ (?i2 + F - 1)" using pow_pred [of "?i2 + F"] 2 by (simp add: max_def)
    ultimately show ?thesis using small [OF d(1) g(3,1)] by linarith
  next
    case 3
    then have h: "hd (buf d1) + hd (buf d2) \<le> DIG_MAX - 1" and n': "0 < ?i1 + g1" "0 < ?i2 + g2" using nr n by (auto simp: carry_room_def)
    have "(hd (buf d1) + 1) * DIG_BASE ^ (?i1 + F - 1) + (hd (buf d2) + 1) * DIG_BASE ^ (?i1 + F - 1) \<le> DIG_BASE * DIG_BASE ^ (?i1 + F - 1)"
      using h mult_right_mono [of "hd (buf d1) + hd (buf d2) + 2" DIG_BASE "DIG_BASE ^ (?i1 + F - 1)"] by (simp add: algebra_simps)
    moreover have "DIG_BASE ^ (max ?i1 ?i2 + F) = DIG_BASE * DIG_BASE ^ (?i1 + F - 1)" using pow_pred [of "?i1 + F"] 3 n' g by auto
    ultimately show ?thesis using big [OF d(1) g(3,1) n'(1) order_refl] big [OF d(2) g(4,2) n'(2) order_refl] 3 by simp
  qed
qed

lemma fill_words_ok: "i + n \<le> length b \<Longrightarrow> fill_words n x i b = Some (patch b i (replicate n x))"
proof (induction n arbitrary: i b)
  case (Suc n)
  have "fill_words (Suc n) x i b = Some (patch (b[i := x]) (i + 1) (replicate n x))" using Suc by simp
  also have "patch (b[i := x]) (i + 1) (replicate n x) = patch b i (replicate (Suc n) x)"
    using Suc.prems by (simp add: patch_def take_update_swap take_Suc_conv_app_nth list_update_append)
  finally show ?case .
qed simp

text \<open>The operands of the loops: the one with more words of the fraction comes first.\<close>

definition add_step :: "decimal_t \<Rightarrow> decimal_t \<Rightarrow> nat \<Rightarrow> nat \<Rightarrow> nat \<Rightarrow> int list \<Rightarrow> (nat \<times> int \<times> int list) option" where
  "add_step d1 d2 g1 g2 i0 t =
     (let i1 = ROUND_UP (intg d1); i2 = ROUND_UP (intg d2);
          (b, n) = (if i1 > i2 then (buf d1, i1 - i2) else (buf d2, i2 - i1))
      in if g1 > g2 then add_loops (buf d1) i1 g1 (buf d2) i2 g2 b n i0 t
         else add_loops (buf d2) i2 g2 (buf d1) i1 g1 b n i0 t)"

lemma add_step_ok:
  assumes d: "dec_ok d1" "dec_ok d2" and g: "g1 \<le> ROUND_UP (frac d1)" "g2 \<le> ROUND_UP (frac d2)" "k = max g1 g2"
    and I: "I = max (ROUND_UP (intg d1)) (ROUND_UP (intg d2))" and t: "I + k + e \<le> length t"
  shows "\<exists>ws c. add_step d1 d2 g1 g2 (I + k + e) t = Some (e, c, patch t e ws) \<and> length ws = I + k \<and> words_ok ws \<and> c \<in> {0, 1} \<and>
    wval ws + c * DIG_BASE ^ (I + k) = wval (kept g1 d1) * DIG_BASE ^ (k - g1) + wval (kept g2 d2) * DIG_BASE ^ (k - g2)"
proof -
  let ?i1 = "ROUND_UP (intg d1)" and ?i2 = "ROUND_UP (intg d2)"
  let ?b = "if ?i1 > ?i2 then buf d1 else buf d2" and ?n = "if ?i1 > ?i2 then ?i1 - ?i2 else ?i2 - ?i1"
  have l: "longer (buf d1) ?i1 (buf d2) ?i2 ?b ?n" "longer (buf d2) ?i2 (buf d1) ?i1 ?b ?n" by (auto simp: longer_def)
  have b: "?i1 + g1 \<le> len d1" "?i2 + g2 \<le> len d2" using dec_okD(2) [OF d(1)] dec_okD(2) [OF d(2)] g by (simp_all add: nw_def)
  have ok: "words_ok (take (?i1 + g1) (buf d1))" "words_ok (take (?i2 + g2) (buf d2))" using kept_ok(1) d g by (auto simp: kept_def)
  have e: "add_step d1 d2 g1 g2 i t = (if g1 > g2 then add_loops (buf d1) ?i1 g1 (buf d2) ?i2 g2 ?b ?n i t
      else add_loops (buf d2) ?i2 g2 (buf d1) ?i1 g1 ?b ?n i t)" for i by (simp add: add_step_def Let_def)
  show ?thesis
  proof (cases "g1 > g2")
    case True
    then have k: "k = g1" using g(3) by simp
    show ?thesis using add_loops_ok [OF _ b ok l(1), of e t] True t unfolding e k I kept_def by simp
  next
    case False
    then have k: "k = g2" using g(3) by simp
    have m: "max ?i2 ?i1 = max ?i1 ?i2" by (rule max.commute)
    show ?thesis using add_loops_ok [OF _ b(2,1) ok(2,1) l(2), of e t] False t unfolding e k I m kept_def by (simp add: add.commute)
  qed
qed

lemma min_as_diff: "i1 + g - (if i2 < i1 then i1 - i2 else 0) = min i1 i2 + g" for i1 i2 g :: nat
  by auto

lemma first_sum:
  assumes "dec_ok f1" "dec_ok f2"
  obtains x where "(if ROUND_UP (intg f1) > ROUND_UP (intg f2) then rd (buf f1) 0
      else if ROUND_UP (intg f2) > ROUND_UP (intg f1) then rd (buf f2) 0
      else do { x \<leftarrow> rd (buf f1) 0; y \<leftarrow> rd (buf f2) 0; Some (int32 (x + y)) }) = Some x"
    "x > DIG_MAX - 1 \<longleftrightarrow> carry_room f1 f2"
proof -
  have h: "rd (buf d) 0 = Some (hd (buf d)) \<and> 0 \<le> hd (buf d) \<and> hd (buf d) < DIG_BASE" if "dec_ok d" for d
  proof -
    have "buf d \<noteq> []" using dec_okD(1,2) [OF that] by auto
    moreover have "hd (buf d) = wrds d ! 0" using dec_okD(1) [OF that] calculation by (simp add: wrds_def hd_conv_nth)
    ultimately show ?thesis using words_ok_nth [OF dec_okD(3) [OF that], of 0] dec_okD(1,4) [OF that]
      by (simp add: hd_conv_nth rd_def)
  qed
  show thesis
    by (rule that [of "if ROUND_UP (intg f1) > ROUND_UP (intg f2) then hd (buf f1)
        else if ROUND_UP (intg f2) > ROUND_UP (intg f1) then hd (buf f2) else hd (buf f1) + hd (buf f2)"])
      (use h [OF assms(1)] h [OF assms(2)] in \<open>auto simp: carry_room_def Let_def\<close>)
qed

text \<open>The code of \<open>do_add\<close> when the integral part fits.\<close>

lemma do_add_fits:
  fixes f1 f2 to :: decimal_t
  defines "I \<equiv> max (ROUND_UP (intg f1)) (ROUND_UP (intg f2))" and "F \<equiv> max (ROUND_UP (frac f1)) (ROUND_UP (frac f2))"
    and "e \<equiv> if carry_room f1 f2 then 1 else 0 :: nat"
  defines "k \<equiv> min F (len to - (I + e))"
  assumes d: "dec_ok f1" "dec_ok f2" and l: "0 < len to" "I + e \<le> len to"
  shows "do_add f1 f2 to = do {
     (i0, carry, t) \<leftarrow> add_step f1 f2 (min (ROUND_UP (frac f1)) k) (min (ROUND_UP (frac f2)) k) (I + k + e)
       (if carry_room f1 f2 then (buf to)[0 := 0] else buf to);
     (i0, t) \<leftarrow> (if carry \<noteq> 0 then do { i0 \<leftarrow> pre_dec i0; t \<leftarrow> wr t i0 1; Some (i0, t) } else Some (i0, t));
     if i0 = 0 \<or> i0 = 1
     then Some (if I + e + F \<le> len to then E_DEC_OK else E_DEC_TRUNCATED,
       to\<lparr>sign := sign f1, frac := if I + e + F \<le> len to then max (frac f1) (frac f2) else min (max (frac f1) (frac f2)) (k * 9),
          intg := (I + e) * 9, buf := t\<rparr>)
     else None
   }"
proof -
  obtain x where x: "(if ROUND_UP (intg f1) > ROUND_UP (intg f2) then rd (buf f1) 0
      else if ROUND_UP (intg f2) > ROUND_UP (intg f1) then rd (buf f2) 0
      else do { x \<leftarrow> rd (buf f1) 0; y \<leftarrow> rd (buf f2) 0; Some (int32 (x + y)) }) = Some x"
    and c: "x > DIG_MAX - 1 \<longleftrightarrow> carry_room f1 f2"
    using first_sum [OF d] by blast
  let ?t = "if carry_room f1 f2 then (buf to)[0 := 0] else buf to"
  have t: "(if x > DIG_MAX - 1 then do { t \<leftarrow> wr (buf to) 0 0; Some (I + 1, t) } else Some (I, buf to)) = Some (I + e, ?t)"
    using c l(1) by (simp add: e_def)
  have fx: "FIX_INTG_FRAC_ERROR (len to) (I + e) F = (I + e, k, if I + e + F \<le> len to then E_DEC_OK else E_DEC_TRUNCATED)"
    using l(2) by (auto simp: FIX_INTG_FRAC_ERROR_def k_def)
  have m: "min (ROUND_UP (intg f1)) (I + e) = ROUND_UP (intg f1)" "min (ROUND_UP (intg f2)) (I + e) = ROUND_UP (intg f2)"
    by (auto simp: I_def)
  let ?err = "if I + e + F \<le> len to then E_DEC_OK else E_DEC_TRUNCATED"
  let ?fr = "max (frac f1) (frac f2)" and ?g1 = "min (ROUND_UP (frac f1)) k" and ?g2 = "min (ROUND_UP (frac f2)) k"
  let ?FR = "if I + e + F \<le> len to then ?fr else min ?fr (k * 9)"
  have tup: "(if ?err \<noteq> E_DEC_OK then (min ?fr (k * 9), ?g1, ?g2, ROUND_UP (intg f1), ROUND_UP (intg f2))
      else (?fr, ROUND_UP (frac f1), ROUND_UP (frac f2), ROUND_UP (intg f1), ROUND_UP (intg f2))) = (?FR, ?g1, ?g2, ROUND_UP (intg f1), ROUND_UP (intg f2))"
    by (auto simp: k_def F_def)
  have ov: "(?err = E_DEC_OVERFLOW) = False" by simp
  have ac: "I + e + k = I + k + e" "min (ROUND_UP (intg f2)) (ROUND_UP (intg f1)) = min (ROUND_UP (intg f1)) (ROUND_UP (intg f2))"
    by (simp_all add: min.commute)
  show ?thesis
    unfolding do_add_def Let_def x bind.bind_lunit I_def [symmetric] F_def [symmetric] t fx prod.case m tup ov if_False add_step_def min_as_diff
      add_loops_def ac
    by (cases "?g1 > ?g2"; cases "ROUND_UP (intg f1) > ROUND_UP (intg f2)") (simp_all only: if_True if_False prod.case fst_conv snd_conv simp_thms bind_assoc split_def ac)
qed

lemma cut_kept:
  "cut k d = of_int (wval (kept (min (ROUND_UP (frac d)) k) d) * DIG_BASE ^ (k - min (ROUND_UP (frac d)) k)) / of_int (DIG_BASE ^ k)"
proof -
  define g where "g = min (ROUND_UP (frac d)) k"
  have "k = g + (k - g)" by (simp add: g_def)
  then have "of_int (DIG_BASE ^ k) = (of_int (DIG_BASE ^ g) * of_int (DIG_BASE ^ (k - g)) :: rat)" by (metis of_int_mult power_add)
  then show ?thesis by (simp add: cut_def Let_def g_def [symmetric] kept_def)
qed

text \<open>The two words and the last bit of the result put together: \<open>e\<close> words of room for the carry \<open>c\<close> in front of \<open>ws\<close>.\<close>

lemma add_finish:
  assumes "e \<in> {0, 1}" "c \<in> {0, 1 :: int}" "e = 0 \<longrightarrow> c = 0" "e + length ws \<le> length t" "e = 1 \<longrightarrow> t ! 0 = 0"
  shows "\<exists>t' i. (if c \<noteq> 0 then do { i0 \<leftarrow> pre_dec e; t \<leftarrow> wr (patch t e ws) i0 1; Some (i0, t) } else Some (e, patch t e ws)) = Some (i, t') \<and>
    (i = 0 \<or> i = 1) \<and> length t' = length t \<and> take (e + length ws) t' = (if e = 0 then [] else [c]) @ ws"
proof (cases "e = 0")
  case True
  then show ?thesis using assms by (auto simp: patch_def)
next
  case False
  then have e: "e = Suc 0" using assms(1) by auto
  obtain x r where t: "t = x # r" using assms(4) e by (cases t) auto
  show ?thesis using assms e t by (cases "c = 0") (auto simp: patch_def wr_def)
qed

lemma do_add_ok:
  fixes f1 f2 to :: decimal_t
  defines "I \<equiv> max (ROUND_UP (intg f1)) (ROUND_UP (intg f2))" and "F \<equiv> max (ROUND_UP (frac f1)) (ROUND_UP (frac f2))"
    and "e \<equiv> if carry_room f1 f2 then 1 else 0 :: nat"
  defines "k \<equiv> min F (len to - (I + e))"
  assumes d: "dec_ok f1" "dec_ok f2" and l: "0 < len to" "I + e \<le> len to"
  obtains to' where "do_add f1 f2 to = Some (if I + e + F \<le> len to then E_DEC_OK else E_DEC_TRUNCATED, to')"
    "dec_ok to'" "len to' = len to" "sign to' = sign f1" "intg to' = (I + e) * 9" "ROUND_UP (frac to') = k" "frac to' \<le> max (frac f1) (frac f2)"
    "mag to' = cut k f1 + cut k f2"
proof -
  let ?g1 = "min (ROUND_UP (frac f1)) k" and ?g2 = "min (ROUND_UP (frac f2)) k"
  let ?t = "if carry_room f1 f2 then (buf to)[0 := 0] else buf to"
  let ?v = "wval (kept ?g1 f1) * DIG_BASE ^ (k - ?g1) + wval (kept ?g2 f2) * DIG_BASE ^ (k - ?g2)"
  have k: "k = max ?g1 ?g2" "I + k + e \<le> len to" using l(2) unfolding k_def F_def by linarith+
  have lt: "length ?t = len to" by simp
  have "I + k + e \<le> length ?t" using k(2) unfolding lt .
  from add_step_ok [OF d min.cobounded1 min.cobounded1 k(1) meta_eq_to_obj_eq [OF I_def] this]
  obtain ws c where a: "add_step f1 f2 ?g1 ?g2 (I + k + e) ?t = Some (e, c, patch ?t e ws)"
    "length ws = I + k" "words_ok ws" "c \<in> {0, 1}" "wval ws + c * DIG_BASE ^ (I + k) = ?v"
    by (elim exE conjE)
  have c0: "e = 0 \<longrightarrow> c = 0"
  proof
    assume e: "e = 0"
    have "0 < I + min ?g1 ?g2"
      using e l(1) dec_okD(1) [OF d(1)] dec_okD(1) [OF d(2)] unfolding I_def k_def F_def nw_def by linarith
    then have "?v < DIG_BASE ^ (I + k)" using no_carry [OF d, of ?g1 k ?g2] e by (auto simp: e_def I_def split: if_splits)
    then have "c * DIG_BASE ^ (I + k) < 1 * DIG_BASE ^ (I + k)" using a(5) wval_bounds [OF a(3)] by linarith
    then have "c < 1" by (simp only: mult_less_cancel_right) simp
    then show "c = 0" using a(4) by auto
  qed
  have t0: "e = 1 \<longrightarrow> ?t ! 0 = 0" "e \<in> {0, 1}" "e + length ws \<le> length ?t" using l k(2) a(2) by (auto simp: e_def)
  obtain t' i where t': "(if c \<noteq> 0 then do { i0 \<leftarrow> pre_dec e; t \<leftarrow> wr (patch ?t e ws) i0 1; Some (i0, t) } else Some (e, patch ?t e ws)) = Some (i, t')"
    "i = 0 \<or> i = 1" "length t' = length ?t" "take (e + length ws) t' = (if e = 0 then [] else [c]) @ ws"
    using add_finish [OF t0(2) a(4) c0 t0(3,1)] by blast
  define fr where "fr = (if I + e + F \<le> len to then max (frac f1) (frac f2) else min (max (frac f1) (frac f2)) (k * 9))"
  let ?to = "to\<lparr>sign := sign f1, frac := fr, intg := (I + e) * 9, buf := t'\<rparr>"
  have r: "do_add f1 f2 to = Some (if I + e + F \<le> len to then E_DEC_OK else E_DEC_TRUNCATED, ?to)"
    using do_add_fits [OF d l(1) l(2) [unfolded I_def e_def]] t'(1,2) a(1)
    unfolding I_def [symmetric] F_def [symmetric] e_def [symmetric] k_def [symmetric] fr_def by simp
  have fr: "ROUND_UP fr = k" "fr \<le> max (frac f1) (frac f2)" by (auto simp: fr_def k_def F_def)
  have n: "nw ?to = I + e + k" using ROUND_UP_mult [of "I + e"] fr(1) by (simp add: nw_def)
  have bt: "buf ?to = t'" by simp
  have en: "e + length ws = I + e + k" using a(2) by simp
  have w: "wrds ?to = (if e = 0 then [] else [c]) @ ws" using t'(4) unfolding wrds_def n en bt .
  have wv: "wval (wrds ?to) = ?v" using a(5) c0 a(2) t0(2) unfolding w by auto
  show thesis
  proof (rule that [OF r])
    have "0 < I + e + k" using l(1) dec_okD(1) [OF d(1)] unfolding nw_def I_def k_def F_def by linarith
    then have "0 < intg ?to + frac ?to" using fr(1) by (cases "fr = 0") (auto simp: ROUND_UP_def)
    moreover have "nw ?to \<le> len to" using k(2) n by simp
    moreover have "words_ok (wrds ?to)" unfolding w using a(3,4) by auto
    ultimately show "dec_ok ?to" using t'(3) lt unfolding dec_ok_def by simp
    show "mag ?to = cut k f1 + cut k f2" unfolding cut_kept mag_def wv by (simp add: fr add_divide_distrib)
  qed (use t'(3) fr in auto)
qed

text \<open>When the integral part does not fit, the result is the greatest number.\<close>

lemma max_decimal_ok: "0 < len to \<Longrightarrow> max_decimal (len to * 9) 0 to = Some (to\<lparr>sign := False, intg := len to * 9, frac := 0, buf := replicate (len to) DIG_MAX\<rparr>)"
  by (simp add: max_decimal_def fill_words_ok patch_def)

lemma do_add_overflow:
  assumes "dec_ok f1" "dec_ok f2" "0 < len to"
    "len to < max (ROUND_UP (intg f1)) (ROUND_UP (intg f2)) + (if carry_room f1 f2 then 1 else 0)"
  shows "do_add f1 f2 to = Some (E_DEC_OVERFLOW, to\<lparr>sign := False, intg := len to * 9, frac := 0, buf := replicate (len to) DIG_MAX\<rparr>)"
proof -
  obtain x where x: "(if ROUND_UP (intg f1) > ROUND_UP (intg f2) then rd (buf f1) 0
      else if ROUND_UP (intg f2) > ROUND_UP (intg f1) then rd (buf f2) 0
      else do { x \<leftarrow> rd (buf f1) 0; y \<leftarrow> rd (buf f2) 0; Some (int32 (x + y)) }) = Some x"
    and c: "x > DIG_MAX - 1 \<longleftrightarrow> carry_room f1 f2"
    using first_sum [OF assms(1,2)] by blast
  have m: "max_decimal (length t * 9) 0 (to\<lparr>buf := t\<rparr>) = Some (to\<lparr>sign := False, intg := len to * 9, frac := 0, buf := replicate (len to) DIG_MAX\<rparr>)"
    if "length t = len to" for t using max_decimal_ok [of "to\<lparr>buf := t\<rparr>"] that assms(3) by simp
  let ?I = "max (ROUND_UP (intg f1)) (ROUND_UP (intg f2))" and ?F = "max (ROUND_UP (frac f1)) (ROUND_UP (frac f2))"
  let ?e = "if carry_room f1 f2 then 1 else 0" and ?t = "if carry_room f1 f2 then (buf to)[0 := 0] else buf to"
  have t: "(if x > DIG_MAX - 1 then do { t \<leftarrow> wr (buf to) 0 0; Some (?I + 1, t) } else Some (?I, buf to)) = Some (?I + ?e, ?t)"
    using c assms(3) by simp
  have fx: "FIX_INTG_FRAC_ERROR (len to) (?I + ?e) ?F = (len to, 0, E_DEC_OVERFLOW)" unfolding FIX_INTG_FRAC_ERROR_def using assms(4) by simp
  have lt: "length ?t = len to" by simp
  show ?thesis unfolding do_add_def Let_def x bind.bind_lunit t fx prod.case if_True simp_thms m [OF lt, unfolded lt] ..
qed

end
