(* ===== verification/Decimal_Sub.thy ===== *)
theory Decimal_Sub
  imports Decimal_Add
begin

text \<open>
  Comparison and subtraction of decimal numbers: the first part of \<open>do_sub\<close> compares the magnitudes, the loops
  subtract the smaller one from the greater one.
\<close>

section \<open>Words behind the point\<close>

text \<open>The value of a list of words as a fraction: words that are 0 at the end do not count.\<close>

definition fv :: "int list \<Rightarrow> rat" where
  "fv ws = of_int (wval ws) / of_int (DIG_BASE ^ length ws)"

lemma fv_Nil [simp]: "fv [] = 0"
  by (simp add: fv_def)

lemma fv_Cons: "fv (x # xs) = (of_int x + fv xs) / of_int DIG_BASE"
  by (simp add: fv_def field_simps)

lemma fv_append: "fv (xs @ ys) = fv xs + fv ys / of_int (DIG_BASE ^ length xs)"
  by (induction xs) (simp_all add: fv_Cons field_simps)

lemma fv_zeros [simp]: "fv (replicate n 0) = 0"
  by (simp add: fv_def)

lemma fv_bounds:
  assumes "words_ok ws"
  shows "0 \<le> fv ws" "fv ws < 1"
proof -
  have "of_int (wval ws) < (of_int (DIG_BASE ^ length ws) :: rat)" using wval_bounds [OF assms] by (simp only: of_int_less_iff)
  then show "fv ws < 1" by (simp add: fv_def)
  show "0 \<le> fv ws" using wval_bounds [OF assms] by (simp add: fv_def)
qed

lemma fv_pos:
  assumes "words_ok ws" "ws \<noteq> []" "last ws \<noteq> 0"
  shows "0 < fv ws"
proof -
  have "wval ws \<noteq> 0" using wval_eq_0 [OF assms(1)] assms(2,3) by (metis last_in_set)
  then show ?thesis using wval_bounds [OF assms(1)] by (simp add: fv_def)
qed

section \<open>The comparison\<close>

fun lexc :: "int list \<Rightarrow> int list \<Rightarrow> bool option" where
  "lexc [] [] = None"
| "lexc [] (y # ys) = Some True"
| "lexc (x # xs) [] = Some False"
| "lexc (x # xs) (y # ys) = (if x = y then lexc xs ys else Some (y > x))"

text \<open>The outcome of a comparison of magnitudes, as \<open>sub_compare\<close> returns it.\<close>

definition order_of :: "rat \<Rightarrow> rat \<Rightarrow> bool option" where
  "order_of a b = (if a = b then None else Some (a < b))"

lemma lexc_order:
  "words_ok us \<Longrightarrow> words_ok vs \<Longrightarrow> (us \<noteq> [] \<longrightarrow> last us \<noteq> 0) \<Longrightarrow> (vs \<noteq> [] \<longrightarrow> last vs \<noteq> 0) \<Longrightarrow> lexc us vs = order_of (fv us) (fv vs)"
proof (induction us vs rule: lexc.induct)
  case (4 x xs y ys)
  have b: "0 \<le> fv xs" "fv xs < 1" "0 \<le> fv ys" "fv ys < 1" using 4(2,3) fv_bounds by auto
  show ?case
  proof (cases "x = y")
    case True
    then show ?thesis using 4 by (auto simp: order_of_def fv_Cons split: if_splits)
  next
    case False
    then have "x + 1 \<le> y \<or> y + 1 \<le> x" by linarith
    then have "of_int x + 1 \<le> (of_int y :: rat) \<or> of_int y + 1 \<le> (of_int x :: rat)"
      by (metis of_int_1 of_int_add of_int_le_iff)
    then show ?thesis using False b by (auto simp: order_of_def fv_Cons divide_less_cancel)
  qed
next
  case (2 y ys)
  then have "0 < fv (y # ys)" by (intro fv_pos) simp_all
  then show ?case by (simp add: order_of_def)
next
  case (3 x xs)
  then have "0 < fv (x # xs)" by (intro fv_pos) simp_all
  then show ?case by (simp add: order_of_def)
qed (simp add: order_of_def)

lemma cmp_words_lexc:
  "i1 \<le> e1 \<Longrightarrow> i2 \<le> e2 \<Longrightarrow> e1 \<le> length b1 \<Longrightarrow> e2 \<le> length b2 \<Longrightarrow>
   cmp_words b1 b2 i1 i2 e1 e2 = Some (lexc (part b1 i1 (e1 - i1)) (part b2 i2 (e2 - i2)))"
proof (induction b1 b2 i1 i2 e1 e2 rule: cmp_words.induct)
  case (1 b1 b2 i1 i2 e1 e2)
  have p: "part b i (e - i) = b ! i # part b (i + 1) (e - (i + 1))" if "i < e" "e \<le> length b" for b :: "int list" and i e
    using part_Cons [of i b "e - Suc i"] that by (simp add: Suc_diff_Suc)
  show ?case
    using 1 by (subst cmp_words.simps) (auto simp: p rd_def)
qed

lemma skip_zero_ok:
  "i + n \<le> length b \<Longrightarrow> \<exists>s. skip_zero b i n = Some s \<and> i \<le> s \<and> s \<le> i + n \<and> (\<forall>j\<in>{i..<s}. b ! j = 0) \<and> (s < i + n \<longrightarrow> b ! s \<noteq> 0)"
proof (induction n arbitrary: i)
  case (Suc n)
  show ?case
  proof (cases "b ! i = 0")
    case True
    obtain s where s: "skip_zero b (i + 1) n = Some s" "i + 1 \<le> s" "s \<le> i + 1 + n" "\<forall>j\<in>{i + 1..<s}. b ! j = 0" "s < i + 1 + n \<longrightarrow> b ! s \<noteq> 0"
      using Suc.IH [of "i + 1"] Suc.prems by auto
    have "\<forall>j\<in>{i..<s}. b ! j = 0"
    proof
      fix j assume "j \<in> {i..<s}"
      then show "b ! j = 0" using True s(4) by (cases "j = i") auto
    qed
    then show ?thesis using True s Suc.prems by (auto simp: rd_def)
  next
    case False
    then show ?thesis using Suc.prems by (auto simp: rd_def)
  qed
qed auto

lemma trim_zero_ok:
  "lo \<le> e \<Longrightarrow> e \<le> length b \<Longrightarrow> \<exists>e'. trim_zero b lo e = Some e' \<and> lo \<le> e' \<and> e' \<le> e \<and> (\<forall>j\<in>{e'..<e}. b ! j = 0) \<and> (lo < e' \<longrightarrow> b ! (e' - 1) \<noteq> 0)"
proof (induction e)
  case (Suc e)
  show ?case
  proof (cases "lo \<le> e \<and> b ! e = 0")
    case True
    then obtain e' where "trim_zero b lo e = Some e'" "lo \<le> e'" "e' \<le> e" "\<forall>j\<in>{e'..<e}. b ! j = 0" "lo < e' \<longrightarrow> b ! (e' - 1) \<noteq> 0"
      using Suc by auto
    then show ?thesis using True Suc.prems by (auto simp: rd_def less_Suc_eq)
  next
    case False
    then show ?thesis using Suc.prems by (auto simp: rd_def intro: exI [of _ "Suc e"])
  qed
qed auto

text \<open>What \<open>do_sub\<close> knows of an operand after the comparison: the first word that is not 0, the words of the
  integral part and those of the fraction.\<close>

definition operand :: "decimal_t \<Rightarrow> nat \<times> nat \<times> int \<Rightarrow> bool" where
  "operand d p = (case p of (s, n, f) \<Rightarrow>
     s + n = ROUND_UP (intg d) \<and> - int n \<le> f \<and> f \<le> int (ROUND_UP (frac d)) \<and>
     (\<forall>j<s. buf d ! j = 0) \<and> (0 < n \<longrightarrow> buf d ! s \<noteq> 0) \<and> (\<forall>j\<in>{nat (int (s + n) + f)..<nw d}. buf d ! j = 0))"

lemma operandD:
  assumes "operand d (s, n, f)"
  shows "s + n = ROUND_UP (intg d)" "- int n \<le> f" "f \<le> int (ROUND_UP (frac d))" "\<forall>j<s. buf d ! j = 0" "0 < n \<longrightarrow> buf d ! s \<noteq> 0"
    "\<forall>j\<in>{s + nat (int n + f)..<nw d}. buf d ! j = 0"
    "nw d = s + (nat (int n + f) + nat (int (ROUND_UP (frac d)) - f))"
proof -
  have "nat (int (s + n) + f) = s + nat (int n + f)" if "- int n \<le> f" using that by simp
  then show p: "s + n = ROUND_UP (intg d)" "- int n \<le> f" "f \<le> int (ROUND_UP (frac d))" "\<forall>j<s. buf d ! j = 0" "0 < n \<longrightarrow> buf d ! s \<noteq> 0"
    "\<forall>j\<in>{s + nat (int n + f)..<nw d}. buf d ! j = 0"
    using assms unfolding operand_def prod.case by auto
  show "nw d = s + (nat (int n + f) + nat (int (ROUND_UP (frac d)) - f))" using p(1-3) unfolding nw_def by linarith
qed

lemma part_zeros: "\<forall>j\<in>{i..<i + n}. b ! j = 0 \<Longrightarrow> i + n \<le> length b \<Longrightarrow> part b i n = replicate n (0 :: int)"
  by (auto simp: list_eq_iff_nth_eq part_def)

lemma fv_wval: "of_int (wval ws) = fv ws * of_int (DIG_BASE ^ length ws)"
  by (simp add: fv_def)

lemma operand_words:
  assumes "dec_ok d" "operand d (s, n, f)"
  shows "wrds d = replicate s 0 @ part (buf d) s (nat (int n + f)) @ replicate (nat (int (ROUND_UP (frac d)) - f)) 0"
proof -
  note p = operandD [OF assms(2)]
  have b: "nw d \<le> len d" using dec_okD(2) [OF assms(1)] .
  note n = p(7)
  have "wrds d = part (buf d) 0 (s + (nat (int n + f) + nat (int (ROUND_UP (frac d)) - f)))" by (simp add: wrds_def part_zero n [symmetric])
  also have "\<dots> = part (buf d) 0 s @ part (buf d) s (nat (int n + f)) @ part (buf d) (s + nat (int n + f)) (nat (int (ROUND_UP (frac d)) - f))"
    by (simp add: part_add)
  also have "part (buf d) 0 s = replicate s 0" using p(4) b n by (intro part_zeros) auto
  also have "part (buf d) (s + nat (int n + f)) (nat (int (ROUND_UP (frac d)) - f)) = replicate (nat (int (ROUND_UP (frac d)) - f)) 0"
    using p(6) b n by (intro part_zeros) (auto simp: add.assoc)
  finally show ?thesis .
qed

lemma operand_mag:
  assumes "dec_ok d" "operand d (s, n, f)"
  shows "mag d = fv (part (buf d) s (nat (int n + f))) * of_int (DIG_BASE ^ n)"
proof -
  have "nw d = s + (n + ROUND_UP (frac d))" using operandD(1) [OF assms(2)] by (simp add: nw_def)
  then have "of_int (DIG_BASE ^ nw d) = (of_int (DIG_BASE ^ s) * of_int (DIG_BASE ^ n) * of_int (DIG_BASE ^ ROUND_UP (frac d)) :: rat)"
    by (simp add: power_add)
  then have "mag d = fv (wrds d) * of_int (DIG_BASE ^ s) * of_int (DIG_BASE ^ n)"
    unfolding mag_def fv_wval dec_okD(4) [OF assms(1)] by simp
  then show ?thesis unfolding operand_words [OF assms] fv_append by simp
qed

lemma operand_ok:
  assumes "dec_ok d" "operand d (s, n, f)"
  shows "words_ok (part (buf d) s (nat (int n + f)))" "s + nat (int n + f) \<le> len d"
  using operand_words [OF assms] dec_okD(3) [OF assms(1)] dec_okD(2) [OF assms(1)] operandD(7) [OF assms(2)] by simp_all

lemma operand_bounds:
  assumes "dec_ok d" "operand d (s, n, f)"
  shows "mag d < of_int (DIG_BASE ^ n)" "0 < n \<Longrightarrow> of_int (DIG_BASE ^ (n - 1)) \<le> mag d"
proof -
  let ?u = "part (buf d) s (nat (int n + f))"
  note u = fv_bounds [OF operand_ok(1) [OF assms]]
  have "fv ?u * of_int (DIG_BASE ^ n) < 1 * of_int (DIG_BASE ^ n)" using u(2) by (intro mult_strict_right_mono) simp_all
  then show "mag d < of_int (DIG_BASE ^ n)" unfolding operand_mag [OF assms] by simp
  assume n: "0 < n"
  then have nz: "buf d ! s \<noteq> 0" "s < nw d" using operandD(1,5) [OF assms(2)] by (auto simp: nw_def)
  then have "0 < nat (int n + f)" using operandD(6) [OF assms(2)] by (cases "nat (int n + f)") auto
  then obtain m where m: "nat (int n + f) = Suc m" by (cases "nat (int n + f)") auto
  have c: "?u = buf d ! s # part (buf d) (Suc s) m" unfolding m using operand_ok(2) [OF assms] m by (intro part_Cons) simp
  then have ok: "0 \<le> buf d ! s" "words_ok (part (buf d) (Suc s) m)" using operand_ok(1) [OF assms] by simp_all
  then have "1 \<le> buf d ! s" using nz by linarith
  then have "1 \<le> (of_int (buf d ! s) :: rat)" by simp
  then have "1 / of_int DIG_BASE \<le> fv ?u" using fv_bounds(1) [OF ok(2)] unfolding c fv_Cons by (intro divide_right_mono) simp_all
  then have "1 / of_int DIG_BASE * of_int (DIG_BASE ^ n) \<le> mag d" unfolding operand_mag [OF assms] by (intro mult_right_mono) simp_all
  then show "of_int (DIG_BASE ^ (n - 1)) \<le> mag d" unfolding pow_pred [OF n] by simp
qed

lemma operand_less:
  assumes "dec_ok f1" "operand f1 (s1, n1, h1)" "dec_ok f2" "operand f2 (s2, n2, h2)" "n1 < n2"
  shows "mag f1 < mag f2"
proof -
  have "DIG_BASE ^ n1 \<le> DIG_BASE ^ (n2 - 1)" using assms(5) by (intro power_increasing) auto
  then have "(of_int (DIG_BASE ^ n1) :: rat) \<le> of_int (DIG_BASE ^ (n2 - 1))" by (simp only: of_int_le_iff)
  then show ?thesis using operand_bounds(1) [OF assms(1,2)] operand_bounds(2) [OF assms(3,4)] assms(5) by linarith
qed

lemma first_word_ok:
  assumes "dec_ok d"
  obtains s where "first_word (buf d) (ROUND_UP (intg d)) = Some s" "s \<le> ROUND_UP (intg d)" "\<forall>j<s. buf d ! j = 0" "s < ROUND_UP (intg d) \<longrightarrow> buf d ! s \<noteq> 0"
proof (cases "buf d ! 0 = 0")
  case True
  have "0 + ROUND_UP (intg d) \<le> len d" "0 < len d" using dec_okD(1,2) [OF assms] unfolding nw_def by linarith+
  with skip_zero_ok [OF this(1)] True show ?thesis by (auto simp: first_word_def rd_def intro: that)
next
  case False
  then show ?thesis using dec_okD(1,2) [OF assms] by (intro that [of 0]) (auto simp: first_word_def rd_def)
qed

lemma trimmed:
  assumes "dec_ok d" "s \<le> ROUND_UP (intg d)" "\<forall>j<s. buf d ! j = 0" "s < ROUND_UP (intg d) \<longrightarrow> buf d ! s \<noteq> 0"
  obtains e where "trim_zero (buf d) s (nw d) = Some e" "s \<le> e" "e \<le> len d"
    "operand d (s, ROUND_UP (intg d) - s, int e - int (ROUND_UP (intg d)))" "part (buf d) s (e - s) \<noteq> [] \<longrightarrow> last (part (buf d) s (e - s)) \<noteq> 0"
proof -
  note b = dec_okD(2) [OF assms(1)]
  obtain e where e: "trim_zero (buf d) s (nw d) = Some e" "s \<le> e" "e \<le> nw d" "\<forall>j\<in>{e..<nw d}. buf d ! j = 0" "s < e \<longrightarrow> buf d ! (e - 1) \<noteq> 0"
    using trim_zero_ok [of s "nw d" "buf d"] assms(2) b by (auto simp: nw_def)
  have l: "length (part (buf d) s (e - s)) = e - s" using e b by simp
  then have "last (part (buf d) s (e - s)) = buf d ! (e - 1)" if "s < e"
    using that e b by (simp add: last_conv_nth part_def flip: length_greater_0_conv)
  then have "part (buf d) s (e - s) \<noteq> [] \<longrightarrow> last (part (buf d) s (e - s)) \<noteq> 0" using e(2,5) by (cases "s = e") auto
  moreover have "operand d (s, ROUND_UP (intg d) - s, int e - int (ROUND_UP (intg d)))"
    using assms(2-) e by (auto simp: operand_def nw_def)
  ultimately show ?thesis using that [OF e(1,2)] e(3) b by simp
qed

lemma untrimmed:
  assumes "s \<le> ROUND_UP (intg d)" "\<forall>j<s. buf d ! j = 0" "s < ROUND_UP (intg d) \<longrightarrow> buf d ! s \<noteq> 0"
  shows "operand d (s, ROUND_UP (intg d) - s, int (ROUND_UP (frac d)))"
  using assms by (auto simp: operand_def nw_def nat_add_distrib)

lemma sub_compare_ok:
  assumes d: "dec_ok f1" "dec_ok f2"
  obtains s1 n1 h1 s2 n2 h2 where "sub_compare f1 f2 = Some ((s1, n1, h1), (s2, n2, h2), order_of (mag f1) (mag f2))"
    "operand f1 (s1, n1, h1)" "operand f2 (s2, n2, h2)" "n1 = n2 \<or> 0 \<le> h1 \<and> 0 \<le> h2"
proof -
  obtain s1 where s1: "first_word (buf f1) (ROUND_UP (intg f1)) = Some s1" "s1 \<le> ROUND_UP (intg f1)" "\<forall>j<s1. buf f1 ! j = 0"
    "s1 < ROUND_UP (intg f1) \<longrightarrow> buf f1 ! s1 \<noteq> 0" using first_word_ok [OF d(1)] .
  obtain s2 where s2: "first_word (buf f2) (ROUND_UP (intg f2)) = Some s2" "s2 \<le> ROUND_UP (intg f2)" "\<forall>j<s2. buf f2 ! j = 0"
    "s2 < ROUND_UP (intg f2) \<longrightarrow> buf f2 ! s2 \<noteq> 0" using first_word_ok [OF d(2)] .
  define n1 where "n1 = ROUND_UP (intg f1) - s1"
  define n2 where "n2 = ROUND_UP (intg f2) - s2"
  note u1 = untrimmed [OF s1(2-4), folded n1_def] and u2 = untrimmed [OF s2(2-4), folded n2_def]
  show thesis
  proof (cases "n1 = n2")
    case True
    obtain e1 where e1: "trim_zero (buf f1) s1 (nw f1) = Some e1" "s1 \<le> e1" "e1 \<le> len f1"
      "operand f1 (s1, n1, int e1 - int (ROUND_UP (intg f1)))" "part (buf f1) s1 (e1 - s1) \<noteq> [] \<longrightarrow> last (part (buf f1) s1 (e1 - s1)) \<noteq> 0"
      using trimmed [OF d(1) s1(2-4)] unfolding n1_def .
    obtain e2 where e2: "trim_zero (buf f2) s2 (nw f2) = Some e2" "s2 \<le> e2" "e2 \<le> len f2"
      "operand f2 (s2, n2, int e2 - int (ROUND_UP (intg f2)))" "part (buf f2) s2 (e2 - s2) \<noteq> [] \<longrightarrow> last (part (buf f2) s2 (e2 - s2)) \<noteq> 0"
      using trimmed [OF d(2) s2(2-4)] unfolding n2_def .
    have k: "nat (int n1 + (int e1 - int (ROUND_UP (intg f1)))) = e1 - s1" "nat (int n2 + (int e2 - int (ROUND_UP (intg f2)))) = e2 - s2"
      using s1(2) s2(2) by (auto simp: n1_def n2_def)
    have "order_of (mag f1) (mag f2) = order_of (fv (part (buf f1) s1 (e1 - s1))) (fv (part (buf f2) s2 (e2 - s2)))"
      using operand_mag [OF d(1) e1(4)] operand_mag [OF d(2) e2(4)] True unfolding k by (simp add: order_of_def)
    also have "\<dots> = lexc (part (buf f1) s1 (e1 - s1)) (part (buf f2) s2 (e2 - s2))"
      using operand_ok(1) [OF d(1) e1(4)] operand_ok(1) [OF d(2) e2(4)] e1(5) e2(5) unfolding k by (intro lexc_order [symmetric])
    finally have "sub_compare f1 f2 = Some ((s1, n1, int e1 - int (ROUND_UP (intg f1))), (s2, n2, int e2 - int (ROUND_UP (intg f2))), order_of (mag f1) (mag f2))"
      using e1(1) e2(1) cmp_words_lexc [OF e1(2) e2(2) e1(3) e2(3)] True
      unfolding sub_compare_def Let_def s1(1) s2(1) by (simp add: n1_def n2_def nw_def)
    then show ?thesis using that e1(4) e2(4) True by blast
  next
    case False
    then have "order_of (mag f1) (mag f2) = Some (n1 < n2)"
      using operand_less [OF d(1) u1 d(2) u2] operand_less [OF d(2) u2 d(1) u1] by (cases "n1 < n2") (auto simp: order_of_def)
    then have "sub_compare f1 f2 = Some ((s1, n1, int (ROUND_UP (frac f1))), (s2, n2, int (ROUND_UP (frac f2))), order_of (mag f1) (mag f2))"
      using False unfolding sub_compare_def Let_def s1(1) s2(1) by (auto simp: n1_def [symmetric] n2_def [symmetric])
    then show ?thesis using that u1 u2 by simp
  qed
qed

section \<open>The loops of the subtraction\<close>

text \<open>The words that both operands have, \<open>m\<close> of them, and the \<open>q\<close> words in front that only the first one has.\<close>

lemma sub_tail:
  assumes b: "s1 + q + m \<le> length b1" "s2 + m \<le> length b2" "q + m \<le> length t"
    and ok: "words_ok (take (s1 + q + m) b1)" "words_ok (take (s2 + m) b2)" and c: "c \<in> {0, 1}"
    and pos: "0 \<le> wval (part b1 s1 (q + m)) - wval (part b2 s2 m) - c"
  shows "\<exists>ws. do { (i0, carry, t) \<leftarrow> carry_loop2 SUB b1 b2 m (s1 + q + m) (s2 + m) (q + m) c t;
      (i0, t) \<leftarrow> borrow_loop b1 q (s1 + q) i0 carry t; (_, t) \<leftarrow> zero_down i0 i0 t; Some t } = Some (patch t 0 ws) \<and>
    length ws = q + m \<and> words_ok ws \<and> wval ws = wval (part b1 s1 (q + m)) - wval (part b2 s2 m) - c"
proof -
  have "\<exists>ws c'. carry_loop2 SUB b1 b2 m (s1 + q + m) (s2 + m) (q + m) c t = Some (q, c', patch t q ws) \<and> length ws = m \<and> words_ok ws \<and>
    c' \<in> {0, 1} \<and> wval ws + - 1 * c' * DIG_BASE ^ m = wval (part b1 (s1 + q) m) + - 1 * wval (part b2 s2 m) + - 1 * c"
    using carry_loop2_ok [OF carries_SUB, of m "s1 + q + m" "s2 + m" "q + m" b1 b2 t c] b ok c by simp
  then obtain w2 c2 where 2: "carry_loop2 SUB b1 b2 m (s1 + q + m) (s2 + m) (q + m) c t = Some (q, c2, patch t q w2)"
    "length w2 = m" "words_ok w2" "c2 \<in> {0, 1}" "wval w2 - c2 * DIG_BASE ^ m = wval (part b1 (s1 + q) m) - wval (part b2 s2 m) - c"
    by auto
  have lt: "length (patch t q w2) = length t" using 2(2) b(3) by simp
  have ok1: "words_ok (take (s1 + q) b1)" using ok(1) by (rule words_ok_take) simp
  have "\<exists>ws c'. carry_loop1 (\<lambda>x. SUB x 0) b1 q (s1 + q) q c2 (patch t q w2) = Some (0, c', patch (patch t q w2) 0 ws) \<and> length ws = q \<and> words_ok ws \<and>
      c' \<in> {0, 1} \<and> wval ws + - 1 * c' * DIG_BASE ^ q = wval (part b1 s1 q) + - 1 * c2"
    using carry_loop1_ok(1) [OF carries_SUB, of q "s1 + q" q b1 "patch t q w2" c2] b ok1 2(4) lt by simp
  then obtain w3 c3 where 3: "carry_loop1 (\<lambda>x. SUB x 0) b1 q (s1 + q) q c2 (patch t q w2) = Some (0, c3, patch (patch t q w2) 0 w3)"
    "length w3 = q" "words_ok w3" "c3 \<in> {0, 1}" "wval w3 - c3 * DIG_BASE ^ q = wval (part b1 s1 q) - c2"
    by auto
  have p: "wval (part b1 s1 (q + m)) = wval (part b1 s1 q) * DIG_BASE ^ m + wval (part b1 (s1 + q) m)"
    using b(1) by (simp add: part_add)
  have v: "wval (w3 @ w2) = wval (part b1 s1 (q + m)) - wval (part b2 s2 m) - c + c3 * DIG_BASE ^ (q + m)"
  proof -
    have "wval (w3 @ w2) = (wval w3 - c3 * DIG_BASE ^ q) * DIG_BASE ^ m + c3 * DIG_BASE ^ (q + m) + c2 * DIG_BASE ^ m + (wval w2 - c2 * DIG_BASE ^ m)"
      by (simp add: 2(2) power_add algebra_simps)
    also have "\<dots> = wval (part b1 s1 (q + m)) - wval (part b2 s2 m) - c + c3 * DIG_BASE ^ (q + m)"
      unfolding 2(5) 3(5) p by (simp add: algebra_simps)
    finally show ?thesis .
  qed
  have c3: "c3 = 0"
  proof (rule ccontr)
    assume "c3 \<noteq> 0"
    then have "c3 = 1" using 3(4) by auto
    then have "DIG_BASE ^ (q + m) \<le> wval (w3 @ w2)" using v pos by simp
    then show False using wval_bounds [of "w3 @ w2"] 2(2,3) 3(2,3) by simp
  qed
  have "borrow_loop b1 q (s1 + q) q c2 (patch t q w2) = Some (0, patch (patch t q w2) 0 w3)"
    using borrow_loop_eq [of q "s1 + q" q b1 "patch t q w2" c2] b ok1 2(4) lt 3(1) c3 by simp
  moreover have "patch (patch t q w2) 0 w3 = patch t 0 (w3 @ w2)"
    using patch_patch_down [of 0 w3 w2 t] 3(2) 2(2) b(3) by simp
  ultimately show ?thesis using 2(1-3) 3(2,3) v c3 by (intro exI [of _ "w3 @ w2"]) simp
qed

lemma high_words_pos:
  fixes A B x :: int
  assumes "0 \<le> A * B + x" "x < B" "0 < B"
  shows "0 \<le> A"
proof (rule ccontr)
  assume "\<not> 0 \<le> A"
  then have "A * B \<le> (- 1) * B" using assms(3) by (intro mult_right_mono) simp_all
  then show False using assms(1,2) by simp
qed

text \<open>The first operand has more words of the fraction: \<open>x\<close> words are copied.\<close>

lemma sub_words_copy:
  assumes b: "s1 + q + m + x \<le> length b1" "s2 + m \<le> length b2" "q + m + x + z \<le> length t"
    and ok: "words_ok (take (s1 + q + m + x) b1)" "words_ok (take (s2 + m) b2)"
    and pos: "wval (part b2 s2 m) * DIG_BASE ^ x \<le> wval (part b1 s1 (q + m + x))"
    and g: "int m = int n2 + g2" "int x = g1 - g2" "0 < x" "int z = int k - g1" "n1 = n2 + q"
  shows "\<exists>ws. sub_words b1 (s1, n1, g1) b2 (s2, n2, g2) k t = Some (patch t 0 ws) \<and>
    length ws = n1 + k \<and> words_ok ws \<and> wval ws = (wval (part b1 s1 (q + m + x)) - wval (part b2 s2 m) * DIG_BASE ^ x) * DIG_BASE ^ z"
proof -
  let ?ct = "part b1 (s1 + q + m) x"
  have e: "g1 > g2" "nat (int k - g1) = z" "nat (g1 - g2) = x" "n1 + k = q + m + x + z" "nat (int s1 + int n1 + g1) = s1 + q + m + x"
    "nat (int s2 + int n2 + g2) = s2 + m" using g by linarith+
  have p: "wval (part b1 s1 (q + m + x)) = wval (part b1 s1 (q + m)) * DIG_BASE ^ x + wval ?ct"
    using b(1) part_add [of b1 s1 "q + m" x] by (simp add: add.assoc)
  have ct: "words_ok ?ct" "length ?ct = x" using part_ok [OF ok(1), of "s1 + q + m" x] b(1) by (simp_all add: part_take)
  have "0 \<le> (wval (part b1 s1 (q + m)) - wval (part b2 s2 m)) * DIG_BASE ^ x + wval ?ct" using pos unfolding p by (simp add: algebra_simps)
  moreover have "wval ?ct < DIG_BASE ^ x" using wval_bounds [OF ct(1)] unfolding ct(2) by blast
  ultimately have pos': "0 \<le> wval (part b1 s1 (q + m)) - wval (part b2 s2 m)" by (rule high_words_pos) simp
  define t1 where "t1 = patch t (q + m + x) (replicate z 0)"
  define t2 where "t2 = patch t1 (q + m) ?ct"
  have l: "length t1 = length t" "length t2 = length t" using b(3) ct(2) by (simp_all add: t1_def t2_def)
  have 1: "zero_down z (q + m + x + z) t = Some (q + m + x, t1)" using zero_down_ok [of z "q + m + x + z" t] b(3) by (simp add: t1_def)
  have 2: "copy_down b1 x (s1 + q + m + x) (q + m + x) t1 = Some (s1 + q + m, q + m, t2)"
    using copy_down_ok [of x "s1 + q + m + x" "q + m + x" b1 t1] b l by (simp add: t2_def)
  have "words_ok (take (s1 + q + m) b1)" using ok(1) by (rule words_ok_take) simp
  then obtain ws where ws: "do { (i0, carry, t) \<leftarrow> carry_loop2 SUB b1 b2 m (s1 + q + m) (s2 + m) (q + m) 0 t2;
      (i0, t) \<leftarrow> borrow_loop b1 q (s1 + q) i0 carry t; (_, t) \<leftarrow> zero_down i0 i0 t; Some t } = Some (patch t2 0 ws)"
    "length ws = q + m" "words_ok ws" "wval ws = wval (part b1 s1 (q + m)) - wval (part b2 s2 m)"
    using sub_tail [of s1 q m b1 s2 b2 t2 0] b ok pos' l by auto
  have "sub_words b1 (s1, n1, g1) b2 (s2, n2, g2) k t = Some (patch t2 0 ws)"
    using 1 2 ws(1) e(1) unfolding sub_words_def Let_def prod.case e by simp
  moreover have "patch t2 0 ws = patch t 0 (ws @ ?ct @ replicate z 0)"
    using patch_patch_down [of "q + m" ?ct "replicate z 0" t] patch_patch_down [of 0 ws "?ct @ replicate z 0" t] ct(2) ws(2) b(3)
    unfolding t2_def t1_def by simp
  moreover have "wval (ws @ ?ct @ replicate z 0) = (wval (part b1 s1 (q + m + x)) - wval (part b2 s2 m) * DIG_BASE ^ x) * DIG_BASE ^ z"
    unfolding p wval_append length_append length_replicate ct(2) ws(4) by (simp add: power_add algebra_simps)
  ultimately show ?thesis using ws(2,3) ct e(4) by (intro exI [of _ "ws @ ?ct @ replicate z 0"]) simp
qed

text \<open>The second one has as many or more: \<open>x\<close> words are subtracted from 0.\<close>

lemma sub_words_neg:
  assumes b: "s1 + q + m \<le> length b1" "s2 + m + x \<le> length b2" "q + m + x + z \<le> length t"
    and ok: "words_ok (take (s1 + q + m) b1)" "words_ok (take (s2 + m + x) b2)"
    and pos: "wval (part b2 s2 (m + x)) \<le> wval (part b1 s1 (q + m)) * DIG_BASE ^ x"
    and g: "int m = int n2 + g1" "int x = g2 - g1" "int z = int k - g2" "n1 = n2 + q"
  shows "\<exists>ws. sub_words b1 (s1, n1, g1) b2 (s2, n2, g2) k t = Some (patch t 0 ws) \<and>
    length ws = n1 + k \<and> words_ok ws \<and> wval ws = (wval (part b1 s1 (q + m)) * DIG_BASE ^ x - wval (part b2 s2 (m + x))) * DIG_BASE ^ z"
proof -
  have e: "\<not> g1 > g2" "nat (int k - g2) = z" "nat (g2 - g1) = x" "n1 + k = q + m + x + z" "nat (int s1 + int n1 + g1) = s1 + q + m"
    "nat (int s2 + int n2 + g2) = s2 + m + x" using g by linarith+
  have p: "wval (part b2 s2 (m + x)) = wval (part b2 s2 m) * DIG_BASE ^ x + wval (part b2 (s2 + m) x)"
    using b(2) part_add [of b2 s2 m x] by (simp add: add.assoc)
  define t1 where "t1 = patch t (q + m + x) (replicate z 0)"
  have l1: "length t1 = length t" using b(3) by (simp add: t1_def)
  have 1: "zero_down z (q + m + x + z) t = Some (q + m + x, t1)" using zero_down_ok [of z "q + m + x + z" t] b(3) by (simp add: t1_def)
  have "\<exists>ws c'. carry_loop1 (SUB 0) b2 x (s2 + m + x) (q + m + x) 0 t1 = Some (q + m, c', patch t1 (q + m) ws) \<and> length ws = x \<and> words_ok ws \<and>
      c' \<in> {0, 1} \<and> wval ws + - 1 * c' * DIG_BASE ^ x = - 1 * wval (part b2 (s2 + m) x) + - 1 * 0"
    using carry_loop1_ok(2) [OF carries_SUB, of x "s2 + m + x" "q + m + x" b2 t1 0] b ok l1 by simp
  then obtain ct c where ct: "carry_loop1 (SUB 0) b2 x (s2 + m + x) (q + m + x) 0 t1 = Some (q + m, c, patch t1 (q + m) ct)"
    "length ct = x" "words_ok ct" "c \<in> {0, 1}" "wval ct - c * DIG_BASE ^ x = - wval (part b2 (s2 + m) x)" by auto
  define t2 where "t2 = patch t1 (q + m) ct"
  have l2: "length t2 = length t" using b(3) ct(2) l1 by (simp add: t2_def)
  have v: "(wval (part b1 s1 (q + m)) - wval (part b2 s2 m) - c) * DIG_BASE ^ x + wval ct =
      wval (part b1 s1 (q + m)) * DIG_BASE ^ x - wval (part b2 s2 (m + x))" using ct(5) unfolding p by (simp add: algebra_simps)
  have "0 \<le> (wval (part b1 s1 (q + m)) - wval (part b2 s2 m) - c) * DIG_BASE ^ x + wval ct" using v pos by linarith
  moreover have "wval ct < DIG_BASE ^ x" using wval_bounds [OF ct(3)] unfolding ct(2) by blast
  ultimately have pos': "0 \<le> wval (part b1 s1 (q + m)) - wval (part b2 s2 m) - c" by (rule high_words_pos) simp
  have "words_ok (take (s2 + m) b2)" using ok(2) by (rule words_ok_take) simp
  with sub_tail [OF b(1) _ _ ok(1) _ ct(4) pos', of t2] b l2
  obtain ws where ws: "do { (i0, carry, t) \<leftarrow> carry_loop2 SUB b1 b2 m (s1 + q + m) (s2 + m) (q + m) c t2;
      (i0, t) \<leftarrow> borrow_loop b1 q (s1 + q) i0 carry t; (_, t) \<leftarrow> zero_down i0 i0 t; Some t } = Some (patch t2 0 ws)"
    "length ws = q + m" "words_ok ws" "wval ws = wval (part b1 s1 (q + m)) - wval (part b2 s2 m) - c"
    by auto
  have "sub_words b1 (s1, n1, g1) b2 (s2, n2, g2) k t = Some (patch t2 0 ws)"
    using 1 ct(1) [folded t2_def] ws(1) e(1) unfolding sub_words_def Let_def prod.case e by simp
  moreover have "patch t2 0 ws = patch t 0 (ws @ ct @ replicate z 0)"
    using patch_patch_down [of "q + m" ct "replicate z 0" t] patch_patch_down [of 0 ws "ct @ replicate z 0" t] ct(2) ws(2) b(3)
    unfolding t2_def t1_def by simp
  moreover have "wval (ws @ ct @ replicate z 0) = (wval (part b1 s1 (q + m)) * DIG_BASE ^ x - wval (part b2 s2 (m + x))) * DIG_BASE ^ z"
    unfolding v [symmetric] wval_append length_append length_replicate ct(2) ws(4) by (simp add: power_add algebra_simps)
  ultimately show ?thesis using ws(2,3) ct(2,3) e(4) by (intro exI [of _ "ws @ ct @ replicate z 0"]) simp
qed

section \<open>The difference of the operands\<close>

text \<open>The words of an operand of which \<open>k\<close> words of the fraction count, as an integer.\<close>

definition icut :: "nat \<Rightarrow> decimal_t \<Rightarrow> int" where
  "icut k d = wval (kept (min (ROUND_UP (frac d)) k) d) * DIG_BASE ^ (k - min (ROUND_UP (frac d)) k)"

lemma cut_icut: "cut k d = of_int (icut k d) / of_int (DIG_BASE ^ k)"
  by (simp only: cut_kept icut_def)

lemma icut_mono:
  assumes "dec_ok d1" "dec_ok d2" "mag d2 \<le> mag d1"
  shows "icut k d2 \<le> icut k d1"
proof -
  have B: "0 < (of_int (DIG_BASE ^ k) :: rat)" by simp
  have "of_int (icut k d2) / of_int (DIG_BASE ^ k) < (of_int (icut k d1) + 1) / (of_int (DIG_BASE ^ k) :: rat)"
    using cut_bounds(2) [OF assms(2), of k] cut_bounds(3) [OF assms(1), of k] assms(3) unfolding cut_icut by (simp add: add_divide_distrib)
  then have "of_int (icut k d2) < (of_int (icut k d1 + 1) :: rat)" using B by (simp add: divide_less_cancel)
  then show ?thesis by linarith
qed

lemma operand_icut:
  assumes "dec_ok d" "operand d (s, n, h)" "g = min h (int k)"
  shows "icut k d = wval (part (buf d) s (nat (int n + g))) * DIG_BASE ^ nat (int k - g)"
proof -
  note p = operandD [OF assms(2)]
  define G where "G = min (ROUND_UP (frac d)) k"
  have g: "g \<le> int G" "G \<le> k" "- int n \<le> g" using p(2,3) assms(3) by (auto simp: G_def)
  have e: "ROUND_UP (intg d) + G = s + (nat (int n + g) + nat (int G - g))" using p(1) g by linarith
  have l: "ROUND_UP (intg d) + G \<le> nw d" "nw d \<le> len d" using dec_okD(2) [OF assms(1)] by (auto simp: nw_def G_def)
  have z: "\<forall>j\<in>{s + nat (int n + g)..<s + nat (int n + g) + nat (int G - g)}. buf d ! j = 0"
  proof (cases "h \<le> int k")
    case True
    then show ?thesis using p(6) l(1) e assms(3) by auto
  next
    case False
    then have "nat (int G - g) = 0" using assms(3) g by simp
    then show ?thesis by simp
  qed
  have "kept G d = part (buf d) 0 (s + (nat (int n + g) + nat (int G - g)))" by (simp add: kept_def part_zero e)
  also have "\<dots> = part (buf d) 0 s @ part (buf d) s (nat (int n + g)) @ part (buf d) (s + nat (int n + g)) (nat (int G - g))"
    by (simp add: part_add)
  also have "part (buf d) 0 s = replicate s 0" using p(4) l e by (intro part_zeros) auto
  also have "part (buf d) (s + nat (int n + g)) (nat (int G - g)) = replicate (nat (int G - g)) 0" using l e by (intro part_zeros [OF z]) simp
  finally have "wval (kept G d) = wval (part (buf d) s (nat (int n + g))) * DIG_BASE ^ nat (int G - g)" by simp
  moreover have "nat (int k - g) = nat (int G - g) + (k - G)" using g by linarith
  ultimately show ?thesis by (simp add: icut_def G_def [symmetric] power_add)
qed

lemma operand_take:
  assumes "dec_ok d" "operand d (s, n, h)" "g \<le> h" "- int n \<le> g"
  shows "words_ok (take (s + nat (int n + g)) (buf d))" "s + nat (int n + g) \<le> len d"
proof -
  have l: "s + nat (int n + g) \<le> nw d" using operandD(7) [OF assms(2)] assms(3) by linarith
  then show "s + nat (int n + g) \<le> len d" using dec_okD(2) [OF assms(1)] by linarith
  show "words_ok (take (s + nat (int n + g)) (buf d))" using dec_okD(3) [OF assms(1)] l unfolding wrds_def by (rule words_ok_take)
qed

lemma sub_operands:
  assumes d: "dec_ok d1" "dec_ok d2" and p: "operand d1 (s1, n1, h1)" "operand d2 (s2, n2, h2)" "n1 = n2 \<or> 0 \<le> h1 \<and> 0 \<le> h2"
    and m: "mag d2 < mag d1" and l: "n1 + k \<le> length t"
  shows "\<exists>ws. sub_words (buf d1) (s1, n1, min h1 (int k)) (buf d2) (s2, n2, min h2 (int k)) k t = Some (patch t 0 ws) \<and>
    length ws = n1 + k \<and> words_ok ws \<and> wval ws = icut k d1 - icut k d2"
proof -
  define g1 where "g1 = min h1 (int k)"
  define g2 where "g2 = min h2 (int k)"
  have n: "n2 \<le> n1" using operand_less [OF d(1) p(1) d(2) p(2)] m by force
  define q where "q = n1 - n2"
  have g: "- int n2 \<le> g1" "- int n2 \<le> g2" "- int n1 \<le> g1" "g1 \<le> int k" "g2 \<le> int k" "g1 \<le> h1" "g2 \<le> h2"
    using operandD(2) [OF p(1)] operandD(2) [OF p(2)] p(3) n by (auto simp: g1_def g2_def)
  note i1 = operand_icut [OF d(1) p(1) g1_def] and i2 = operand_icut [OF d(2) p(2) g2_def]
  note t1 = operand_take [OF d(1) p(1) g(6,3)] and t2 = operand_take [OF d(2) p(2) g(7,2)]
  have le: "icut k d2 \<le> icut k d1" using icut_mono [OF d] m by simp
  show ?thesis
  proof (cases "g1 > g2")
    case True
    define x where "x = nat (g1 - g2)"
    define z where "z = nat (int k - g1)"
    define w where "w = nat (int n2 + g2)"
    have e: "nat (int n1 + g1) = q + w + x" "nat (int k - g1) = z" "nat (int n2 + g2) = w" "nat (int k - g2) = x + z"
      "int w = int n2 + g2" "int x = g1 - g2" "0 < x" "int z = int k - g1" "n1 = n2 + q"
      using True g n unfolding x_def z_def w_def q_def by linarith+
    have v: "icut k d1 = wval (part (buf d1) s1 (q + w + x)) * DIG_BASE ^ z" "icut k d2 = wval (part (buf d2) s2 w) * DIG_BASE ^ x * DIG_BASE ^ z"
      using i1 i2 unfolding e(1-4) by (simp_all add: power_add)
    have "wval (part (buf d2) s2 w) * DIG_BASE ^ x \<le> wval (part (buf d1) s1 (q + w + x))" using le unfolding v by simp
    moreover have "q + w + x + z \<le> length t" using l e by linarith
    ultimately show ?thesis
      using sub_words_copy [of s1 q w x "buf d1" s2 "buf d2" z t n2 g2 g1 k n1] t1 t2 e(5-9)
      unfolding g1_def [symmetric] g2_def [symmetric] v e(1,3) by (simp add: add.assoc left_diff_distrib)
  next
    case False
    define x where "x = nat (g2 - g1)"
    define z where "z = nat (int k - g2)"
    define w where "w = nat (int n2 + g1)"
    have e: "nat (int n1 + g1) = q + w" "nat (int k - g2) = z" "nat (int n2 + g2) = w + x" "nat (int k - g1) = x + z"
      "int w = int n2 + g1" "int x = g2 - g1" "int z = int k - g2" "n1 = n2 + q"
      using False g n unfolding x_def z_def w_def q_def by linarith+
    have v: "icut k d1 = wval (part (buf d1) s1 (q + w)) * DIG_BASE ^ x * DIG_BASE ^ z" "icut k d2 = wval (part (buf d2) s2 (w + x)) * DIG_BASE ^ z"
      using i1 i2 unfolding e(1-4) by (simp_all add: power_add)
    have "wval (part (buf d2) s2 (w + x)) \<le> wval (part (buf d1) s1 (q + w)) * DIG_BASE ^ x" using le unfolding v by simp
    moreover have "q + w + x + z \<le> length t" using l e by linarith
    ultimately show ?thesis
      using sub_words_neg [of s1 q w "buf d1" s2 x "buf d2" z t n2 g1 g2 k n1] t1 t2 e(5-8)
      unfolding g1_def [symmetric] g2_def [symmetric] v e(1,3) by (simp add: add.assoc left_diff_distrib)
  qed
qed

lemma ROUND_UP_zero [simp]: "ROUND_UP 0 = 0"
  by (simp add: ROUND_UP_def)

lemma sub_result:
  fixes d1 d2 to :: decimal_t
  defines "F \<equiv> max (ROUND_UP (frac d1)) (ROUND_UP (frac d2))"
  assumes d: "dec_ok d1" "dec_ok d2" and p: "operand d1 (s1, n1, h1)" "operand d2 (s2, n2, h2)" "n1 = n2 \<or> 0 \<le> h1 \<and> 0 \<le> h2"
    and m: "mag d2 < mag d1" and l: "0 < len to" "n1 \<le> len to" and k: "k = min F (len to - n1)" and fr: "ROUND_UP fr = k"
  shows "\<exists>t. sub_words (buf d1) (s1, n1, min h1 (int k)) (buf d2) (s2, n2, min h2 (int k)) k (buf to) = Some t \<and>
    (\<forall>sg. let to' = to\<lparr>sign := sg, frac := fr, intg := n1 * 9, buf := t\<rparr>
      in dec_ok to' \<and> len to' = len to \<and> mag to' = cut k d1 - cut k d2)"
proof -
  have lk: "n1 + k \<le> len to" using l(2) k by simp
  obtain ws where ws: "sub_words (buf d1) (s1, n1, min h1 (int k)) (buf d2) (s2, n2, min h2 (int k)) k (buf to) = Some (patch (buf to) 0 ws)"
    "length ws = n1 + k" "words_ok ws" "wval ws = icut k d1 - icut k d2"
    using sub_operands [OF d p m lk] by auto
  have nz: "0 < n1 + k"
  proof (rule ccontr)
    assume "\<not> 0 < n1 + k"
    then have "n1 = 0" "F = 0" using k l(1) by auto
    then have "nat (int n1 + h1) = 0" using operandD(3) [OF p(1)] by (simp add: F_def)
    then have "mag d1 = 0" using operand_mag [OF d(1) p(1)] by simp
    then show False using m cut_bounds(1,2) [OF d(2), of 0] by linarith
  qed
  have "dec_ok (to\<lparr>sign := sg, frac := fr, intg := n1 * 9, buf := patch (buf to) 0 ws\<rparr>)" (is "dec_ok ?to") for sg
  proof -
    have "nw ?to = n1 + k" "wrds ?to = ws" using fr ws(2) by (simp_all add: nw_def wrds_def patch_def)
    moreover have "0 < intg ?to + frac ?to" using nz fr by (cases "fr = 0") (auto simp: ROUND_UP_def)
    ultimately show ?thesis using lk ws(2,3) unfolding dec_ok_def by simp
  qed
  moreover have "mag (to\<lparr>sign := sg, frac := fr, intg := n1 * 9, buf := patch (buf to) 0 ws\<rparr>) = cut k d1 - cut k d2" for sg
    using ws(2,4) fr by (simp add: mag_def wrds_def nw_def patch_def cut_icut diff_divide_distrib)
  ultimately show ?thesis using ws(1,2) lk by (simp add: Let_def)
qed

lemma cut_diff: "mag f1 = mag f2 \<Longrightarrow> dec_ok f1 \<Longrightarrow> dec_ok f2 \<Longrightarrow> cut k f1 = cut k f2"
  using icut_mono [of f1 f2 k] icut_mono [of f2 f1 k] by (simp add: cut_icut)

lemma do_sub_equal:
  assumes d: "dec_ok f1" "dec_ok f2" and l: "0 < len to" and m: "mag f1 = mag f2"
  obtains to' where "do_sub f1 f2 to = Some (E_DEC_OK, to')" "dec_ok to'" "len to' = len to" "mag to' = 0" "frac to' = 0" "\<not> sign to'"
proof -
  obtain b bs where b: "buf to = b # bs" using l by (cases "buf to") auto
  let ?to = "to\<lparr>buf := 0 # bs, intg := 1, frac := 0, sign := False\<rparr>"
  obtain s1 n1 h1 s2 n2 h2 where c: "sub_compare f1 f2 = Some ((s1, n1, h1), (s2, n2, h2), None)"
    by (rule sub_compare_ok [OF d]) (simp add: order_of_def m)
  have r: "do_sub f1 f2 to = Some (E_DEC_OK, ?to)"
    unfolding do_sub_def c by (simp add: decimal_make_zero_def wr_def b)
  show thesis by (rule that [OF r]) (auto simp: b dec_ok_def nw_def wrds_def mag_def ROUND_UP_def)
qed

text \<open>The code after the comparison, for the operands \<open>g1\<close> (the greater one) and \<open>g2\<close>.\<close>

lemma do_sub_code:
  fixes f1 f2 to :: decimal_t
  defines "F \<equiv> max (ROUND_UP (frac f1)) (ROUND_UP (frac f2))"
  assumes c: "sub_compare f1 f2 = Some (p1, p2, Some carry)"
    and g: "(g1, g2, (s1, n1, h1), (s2, n2, h2)) = (if carry then (f2, f1, p2, p1) else (f1, f2, p1, p2))"
    and h: "h1 \<le> int F" "h2 \<le> int F" "n2 \<le> n1" "n1 \<le> len to"
    and k: "k = min F (len to - n1)"
    and fr: "fr = (if n1 + F \<le> len to then max (frac f1) (frac f2) else min (max (frac f1) (frac f2)) (k * 9))"
  shows "do_sub f1 f2 to = do {
     t \<leftarrow> sub_words (buf g1) (s1, n1, min h1 (int k)) (buf g2) (s2, n2, min h2 (int k)) k (buf to);
     Some (if n1 + F \<le> len to then E_DEC_OK else E_DEC_TRUNCATED, to\<lparr>sign := (sign f1 \<noteq> carry), frac := fr, intg := n1 * 9, buf := t\<rparr>)
   }"
proof -
  have fx: "FIX_INTG_FRAC_ERROR (len to) n1 F = (n1, k, if n1 + F \<le> len to then E_DEC_OK else E_DEC_TRUNCATED)"
    using h(4) by (auto simp: FIX_INTG_FRAC_ERROR_def k)
  have tup: "(if (if n1 + F \<le> len to then E_DEC_OK else E_DEC_TRUNCATED) \<noteq> E_DEC_OK
        then (min (max (frac f1) (frac f2)) (k * 9), min h1 (int k), min h2 (int k), min n2 n1) else (max (frac f1) (frac f2), h1, h2, n2))
      = (fr, min h1 (int k), min h2 (int k), n2)"
    using h by (auto simp: fr k)
  have q: "p1 = (if carry then (s2, n2, h2) else (s1, n1, h1))" "p2 = (if carry then (s1, n1, h1) else (s2, n2, h2))"
    "g1 = (if carry then f2 else f1)" "g2 = (if carry then f1 else f2)"
    using g by (auto split: if_splits)
  show ?thesis using fx tup unfolding do_sub_def c q F_def [symmetric] by (cases carry) (simp_all add: Let_def)
qed

lemma do_sub_differ:
  fixes f1 f2 to :: decimal_t
  defines "F \<equiv> max (ROUND_UP (frac f1)) (ROUND_UP (frac f2))"
  assumes d: "dec_ok f1" "dec_ok f2" and l: "0 < len to" "ROUND_UP (intg f1) \<le> len to" "ROUND_UP (intg f2) \<le> len to" and m: "mag f1 \<noteq> mag f2"
  obtains to' n where "do_sub f1 f2 to = Some (if n + F \<le> len to then E_DEC_OK else E_DEC_TRUNCATED, to')" "dec_ok to'" "len to' = len to"
    "n \<le> max (ROUND_UP (intg f1)) (ROUND_UP (intg f2))" "sign to' = (sign f1 \<noteq> (mag f1 < mag f2))" "frac to' \<le> max (frac f1) (frac f2)"
    "ROUND_UP (frac to') = min F (len to - n)" "mag to' = \<bar>cut (min F (len to - n)) f1 - cut (min F (len to - n)) f2\<bar>"
proof -
  obtain a1 b1 c1 a2 b2 c2 where c: "sub_compare f1 f2 = Some ((a1, b1, c1), (a2, b2, c2), order_of (mag f1) (mag f2))"
    "operand f1 (a1, b1, c1)" "operand f2 (a2, b2, c2)" "b1 = b2 \<or> 0 \<le> c1 \<and> 0 \<le> c2" using sub_compare_ok [OF d] .
  define carry where "carry = (mag f1 < mag f2)"
  have o: "order_of (mag f1) (mag f2) = Some carry" using m by (simp add: order_of_def carry_def)
  obtain g1 g2 s1 n1 h1 s2 n2 h2 where g: "(g1, g2, (s1, n1, h1), (s2, n2, h2)) = (if carry then (f2, f1, (a2, b2, c2), (a1, b1, c1)) else (f1, f2, (a1, b1, c1), (a2, b2, c2)))"
    by (cases carry) simp_all
  have ok: "dec_ok g1" "dec_ok g2" "operand g1 (s1, n1, h1)" "operand g2 (s2, n2, h2)" "n1 = n2 \<or> 0 \<le> h1 \<and> 0 \<le> h2" "mag g2 < mag g1"
    "F = max (ROUND_UP (frac g1)) (ROUND_UP (frac g2))" "ROUND_UP (intg g1) \<le> max (ROUND_UP (intg f1)) (ROUND_UP (intg f2))"
    using g d c(2-4) m by (auto simp: carry_def F_def max.commute split: if_splits)
  have n: "n2 \<le> n1" using operand_less [OF ok(1,3) ok(2,4)] ok(6) by force
  have nl: "n1 \<le> max (ROUND_UP (intg f1)) (ROUND_UP (intg f2))" "n1 \<le> len to" using operandD(1) [OF ok(3)] ok(8) l(2,3) by auto
  have h: "h1 \<le> int F" "h2 \<le> int F" using operandD(3) [OF ok(3)] operandD(3) [OF ok(4)] ok(7) by auto
  define k where "k = min F (len to - n1)"
  define fr where "fr = (if n1 + F \<le> len to then max (frac f1) (frac f2) else min (max (frac f1) (frac f2)) (k * 9))"
  have fr: "ROUND_UP fr = k" "fr \<le> max (frac f1) (frac f2)" by (auto simp: fr_def k_def F_def)
  obtain t where t: "sub_words (buf g1) (s1, n1, min h1 (int k)) (buf g2) (s2, n2, min h2 (int k)) k (buf to) = Some t"
    "\<And>sg. dec_ok (to\<lparr>sign := sg, frac := fr, intg := n1 * 9, buf := t\<rparr>) \<and> length t = len to \<and>
      mag (to\<lparr>sign := sg, frac := fr, intg := n1 * 9, buf := t\<rparr>) = cut k g1 - cut k g2"
    using sub_result [OF ok(1-6) l(1) nl(2) k_def [unfolded ok(7)] fr(1)] by (auto simp: Let_def)
  have a: "cut k g1 - cut k g2 = \<bar>cut k f1 - cut k f2\<bar>"
    using icut_mono [OF ok(1,2), of k] ok(6) g by (auto simp: cut_icut abs_if divide_le_cancel divide_less_cancel split: if_splits)
  note r = do_sub_code [OF c(1) [unfolded o] g h [unfolded F_def] n nl(2) k_def [unfolded F_def] fr_def [unfolded F_def], folded F_def, unfolded t(1) bind.bind_lunit]
  note t' = t(2) [of "sign f1 \<noteq> carry", unfolded a]
  show thesis
  proof (rule that [OF r])
    show "mag (to\<lparr>sign := sign f1 \<noteq> carry, frac := fr, intg := n1 * 9, buf := t\<rparr>) = \<bar>cut (min F (len to - n1)) f1 - cut (min F (len to - n1)) f2\<bar>"
      using t' unfolding k_def by blast
  qed (use t' nl(1) fr in \<open>simp_all add: k_def [symmetric] carry_def [symmetric]\<close>)
qed

section \<open>Addition and subtraction with signs\<close>

lemma mag_nonneg: "dec_ok d \<Longrightarrow> 0 \<le> mag d"
  using cut_bounds(1,2) [of d 0] by linarith

lemma cut_error:
  assumes "dec_ok f1" "dec_ok f2"
  shows "\<bar>cut k f1 + cut k f2 - (mag f1 + mag f2)\<bar> < 2 / of_int (DIG_BASE ^ k)"
    "\<bar>cut k f1 - cut k f2 - (mag f1 - mag f2)\<bar> < 2 / of_int (DIG_BASE ^ k)"
proof -
  have "2 / of_int (DIG_BASE ^ k) = (1 / of_int (DIG_BASE ^ k) + 1 / of_int (DIG_BASE ^ k) :: rat)" by simp
  then show "\<bar>cut k f1 + cut k f2 - (mag f1 + mag f2)\<bar> < 2 / of_int (DIG_BASE ^ k)"
    "\<bar>cut k f1 - cut k f2 - (mag f1 - mag f2)\<bar> < 2 / of_int (DIG_BASE ^ k)"
    using cut_bounds [OF assms(1), of k] cut_bounds [OF assms(2), of k] by linarith+
qed

text \<open>The first word bounds the number from below.\<close>

lemma mag_first_word:
  assumes "dec_ok d" "0 < ROUND_UP (intg d)"
  shows "of_int (hd (buf d)) * of_int (DIG_BASE ^ (ROUND_UP (intg d) - 1)) \<le> mag d"
proof -
  obtain x xs where w: "wrds d = x # xs" using dec_okD(1,4) [OF assms(1)] by (cases "wrds d") auto
  then have x: "hd (buf d) = x" using dec_okD(1) [OF assms(1)] hd_take [of "nw d" "buf d"] by (simp add: wrds_def)
  have "length xs = ROUND_UP (intg d) - 1 + ROUND_UP (frac d)" using dec_okD(4) [OF assms(1)] w assms(2) by (simp add: nw_def)
  moreover have "x * DIG_BASE ^ length xs \<le> wval (wrds d)" using w dec_okD(3) [OF assms(1)] wval_bounds [of xs] by simp
  ultimately have "x * DIG_BASE ^ (ROUND_UP (intg d) - 1) * DIG_BASE ^ ROUND_UP (frac d) \<le> wval (wrds d)" by (simp add: power_add)
  then have "of_int (x * DIG_BASE ^ (ROUND_UP (intg d) - 1)) * of_int (DIG_BASE ^ ROUND_UP (frac d)) \<le> (of_int (wval (wrds d)) :: rat)"
    by (simp only: of_int_mult [symmetric] of_int_le_iff)
  then show ?thesis unfolding mag_def x by (simp add: pos_le_divide_eq)
qed

lemma carry_room_big:
  assumes "dec_ok f1" "dec_ok f2" "carry_room f1 f2" "0 < I" "I = max (ROUND_UP (intg f1)) (ROUND_UP (intg f2))"
  shows "of_int DIG_MAX * of_int (DIG_BASE ^ (I - 1)) \<le> mag f1 + mag f2"
proof -
  note m = mag_first_word [OF assms(1)] mag_first_word [OF assms(2)] mag_nonneg [OF assms(1)] mag_nonneg [OF assms(2)]
  define P where "P = (of_int (DIG_BASE ^ (I - 1)) :: rat)"
  have P: "of_int DIG_MAX * P \<le> of_int x * P" if "DIG_MAX - 1 < x" for x
  proof (rule mult_right_mono)
    have "DIG_MAX \<le> x" using that by simp
    then show "of_int DIG_MAX \<le> (of_int x :: rat)" by (simp only: of_int_le_iff)
    show "0 \<le> P" by (simp add: P_def)
  qed
  consider "ROUND_UP (intg f2) < ROUND_UP (intg f1)" | "ROUND_UP (intg f1) < ROUND_UP (intg f2)" | "ROUND_UP (intg f1) = ROUND_UP (intg f2)" by linarith
  then show ?thesis unfolding P_def [symmetric]
  proof cases
    case 1
    then have "DIG_MAX - 1 < hd (buf f1)" "P = of_int (DIG_BASE ^ (ROUND_UP (intg f1) - 1))" using assms(3,5) by (auto simp: carry_room_def P_def)
    from P [OF this(1)] m(1) [folded this(2)] m(4) 1 show "of_int DIG_MAX * P \<le> mag f1 + mag f2" by linarith
  next
    case 2
    then have "DIG_MAX - 1 < hd (buf f2)" "P = of_int (DIG_BASE ^ (ROUND_UP (intg f2) - 1))" using assms(3,5) by (auto simp: carry_room_def P_def)
    from P [OF this(1)] m(2) [folded this(2)] m(3) 2 show "of_int DIG_MAX * P \<le> mag f1 + mag f2" by linarith
  next
    case 3
    then have "DIG_MAX - 1 < hd (buf f1) + hd (buf f2)" using assms(3) by (simp add: carry_room_def)
    from P [OF this] show "of_int DIG_MAX * P \<le> mag f1 + mag f2" using m(1,2) assms(4,5) 3 by (simp add: P_def algebra_simps)
  qed
qed

text \<open>The outcome of an addition whose exact result is \<open>v\<close>.\<close>

definition outcome :: "rat \<Rightarrow> decimal_t \<Rightarrow> dec_error \<Rightarrow> decimal_t \<Rightarrow> bool" where
  "outcome v to e to' \<longleftrightarrow> dec_ok to' \<and> len to' = len to \<and>
     (e = E_DEC_OK \<and> dval to' = v \<or>
      e = E_DEC_TRUNCATED \<and> \<bar>dval to' - v\<bar> < 2 / of_int (DIG_BASE ^ ROUND_UP (frac to')) \<or>
      e = E_DEC_OVERFLOW \<and> of_int DIG_MAX * of_int (DIG_BASE ^ (len to - 1)) \<le> \<bar>v\<bar> \<and> mag to' = of_int (DIG_BASE ^ len to - 1))"

lemma wval_nines: "wval (replicate n DIG_MAX) = DIG_BASE ^ n - 1"
  by (induction n) simp_all

text \<open>The words the sum needs.\<close>

definition sum_words :: "decimal_t \<Rightarrow> decimal_t \<Rightarrow> nat" where
  "sum_words f1 f2 = max (ROUND_UP (intg f1)) (ROUND_UP (intg f2)) + (if sign f1 = sign f2 \<and> carry_room f1 f2 then 1 else 0) +
     max (ROUND_UP (frac f1)) (ROUND_UP (frac f2))"

lemma do_add_outcome:
  assumes d: "dec_ok f1" "dec_ok f2" and l: "0 < len to" "ROUND_UP (intg f1) \<le> len to" "ROUND_UP (intg f2) \<le> len to" and sg: "sign f1 = sign f2"
  shows "\<exists>e to'. do_add f1 f2 to = Some (e, to') \<and> outcome (dval f1 + dval f2) to e to' \<and> (sum_words f1 f2 \<le> len to \<longrightarrow> e = E_DEC_OK)"
proof -
  let ?I = "max (ROUND_UP (intg f1)) (ROUND_UP (intg f2))" and ?F = "max (ROUND_UP (frac f1)) (ROUND_UP (frac f2))"
  let ?e = "if carry_room f1 f2 then 1 else 0 :: nat"
  show ?thesis
  proof (cases "?I + ?e \<le> len to")
    case True
    define k where "k = min ?F (len to - (?I + ?e))"
    obtain to' where to': "do_add f1 f2 to = Some (if ?I + ?e + ?F \<le> len to then E_DEC_OK else E_DEC_TRUNCATED, to')"
      "dec_ok to'" "len to' = len to" "sign to' = sign f1" "ROUND_UP (frac to') = k" "mag to' = cut k f1 + cut k f2"
      using do_add_ok [OF d l(1) True] unfolding k_def by blast
    have "cut k f1 = mag f1" "cut k f2 = mag f2" if "?I + ?e + ?F \<le> len to" using that by (auto intro!: cut_all simp: k_def)
    then have "outcome (dval f1 + dval f2) to (if ?I + ?e + ?F \<le> len to then E_DEC_OK else E_DEC_TRUNCATED) to'"
      using to' cut_error(1) [OF d, of k] sg unfolding outcome_def dval_def by (auto simp: abs_minus_commute algebra_simps)
    then show ?thesis using to'(1) sg by (auto simp: sum_words_def)
  next
    case False
    then have I: "carry_room f1 f2" "?I = len to" using l by (auto split: if_splits)
    let ?to = "to\<lparr>sign := False, intg := len to * 9, frac := 0, buf := replicate (len to) DIG_MAX\<rparr>"
    have "do_add f1 f2 to = Some (E_DEC_OVERFLOW, ?to)" using do_add_overflow [OF d l(1)] False by simp
    moreover have "dec_ok ?to" "mag ?to = of_int (DIG_BASE ^ len to - 1)"
      using l(1) by (simp_all add: dec_ok_def nw_def wrds_def mag_def wval_nines)
    moreover have "\<bar>dval f1 + dval f2\<bar> = mag f1 + mag f2" using sg mag_nonneg [OF d(1)] mag_nonneg [OF d(2)] by (simp add: dval_def)
    ultimately show ?thesis using carry_room_big [OF d I(1) l(1) I(2) [symmetric]] I by (auto simp: outcome_def sum_words_def sg)
  qed
qed

lemma do_sub_outcome:
  assumes d: "dec_ok f1" "dec_ok f2" and l: "0 < len to" "ROUND_UP (intg f1) \<le> len to" "ROUND_UP (intg f2) \<le> len to" and sg: "sign f1 \<noteq> sign f2"
  shows "\<exists>e to'. do_sub f1 f2 to = Some (e, to') \<and> outcome (dval f1 + dval f2) to e to' \<and> (sum_words f1 f2 \<le> len to \<longrightarrow> e = E_DEC_OK)"
proof (cases "mag f1 = mag f2")
  case True
  obtain to' where "do_sub f1 f2 to = Some (E_DEC_OK, to')" "dec_ok to'" "len to' = len to" "mag to' = 0"
    by (rule do_sub_equal [OF d l(1) True]) (rule that, assumption+)
  then show ?thesis using True sg by (auto simp: outcome_def dval_def)
next
  case False
  let ?F = "max (ROUND_UP (frac f1)) (ROUND_UP (frac f2))"
  obtain to' n where to': "do_sub f1 f2 to = Some (if n + ?F \<le> len to then E_DEC_OK else E_DEC_TRUNCATED, to')" "dec_ok to'" "len to' = len to"
    "n \<le> max (ROUND_UP (intg f1)) (ROUND_UP (intg f2))" "sign to' = (sign f1 \<noteq> (mag f1 < mag f2))"
    "ROUND_UP (frac to') = min ?F (len to - n)" "mag to' = \<bar>cut (min ?F (len to - n)) f1 - cut (min ?F (len to - n)) f2\<bar>"
    by (rule do_sub_differ [OF d l False]) (rule that, assumption+)
  define k where "k = min ?F (len to - n)"
  note to'' = to' [folded k_def]
  have v: "dval to' = (if sign f1 then - (cut k f1 - cut k f2) else cut k f1 - cut k f2)"
  proof (cases "mag f1 < mag f2")
    case True
    then have "cut k f1 \<le> cut k f2" using icut_mono [OF d(2,1), of k] by (simp add: cut_icut divide_le_cancel)
    then show ?thesis using True unfolding dval_def to''(5,7) by simp
  next
    case False
    then have "cut k f2 \<le> cut k f1" using icut_mono [OF d, of k] by (simp add: cut_icut divide_le_cancel)
    then show ?thesis using False unfolding dval_def to''(5,7) by simp
  qed
  have v': "dval f1 + dval f2 = (if sign f1 then - (mag f1 - mag f2) else mag f1 - mag f2)" using sg by (simp add: dval_def)
  have "\<bar>dval to' - (dval f1 + dval f2)\<bar> < 2 / of_int (DIG_BASE ^ k)"
    using cut_error(2) [OF d, of k] unfolding v v' by (auto simp only: abs_less_iff split: if_splits)
  moreover have "cut k f1 = mag f1" "cut k f2 = mag f2" if "n + ?F \<le> len to" using that by (auto intro!: cut_all simp: k_def)
  then have "dval to' = dval f1 + dval f2" if "n + ?F \<le> len to" using that unfolding v v' by simp
  ultimately have "outcome (dval f1 + dval f2) to (if n + ?F \<le> len to then E_DEC_OK else E_DEC_TRUNCATED) to'"
    using to''(2,3,6) by (simp add: outcome_def)
  then show ?thesis using to''(1,4) sg by (auto simp: sum_words_def)
qed

lemma sign_upd: "intg (d\<lparr>sign := x\<rparr>) = intg d" "frac (d\<lparr>sign := x\<rparr>) = frac d" "buf (d\<lparr>sign := x\<rparr>) = buf d"
  by simp_all

lemma do_add_sign: "do_add f1 (f2\<lparr>sign := x\<rparr>) to = do_add f1 f2 to"
  unfolding do_add_def sign_upd ..

lemma do_sub_sign: "do_sub f1 (f2\<lparr>sign := x\<rparr>) to = do_sub f1 f2 to"
  unfolding do_sub_def sub_compare_def sign_upd ..

text \<open>Subtracting is adding the number with the other sign.\<close>

lemma decimal_sub_neg: "decimal_sub f1 f2 to = decimal_add f1 (f2\<lparr>sign := \<not> sign f2\<rparr>) to"
  by (auto simp: decimal_sub_def decimal_add_def do_add_sign do_sub_sign)

lemma dec_ok_sign [simp]: "dec_ok (d\<lparr>sign := x\<rparr>) = dec_ok d" "mag (d\<lparr>sign := x\<rparr>) = mag d"
  by (simp_all add: dec_ok_def nw_def wrds_def mag_def)

lemma dval_neg: "dval (d\<lparr>sign := \<not> sign d\<rparr>) = - dval d"
  by (simp add: dval_def)

lemma decimal_add_outcome:
  assumes "dec_ok f1" "dec_ok f2" "0 < len to" "ROUND_UP (intg f1) \<le> len to" "ROUND_UP (intg f2) \<le> len to"
  shows "\<exists>e to'. decimal_add f1 f2 to = Some (e, to') \<and> outcome (dval f1 + dval f2) to e to' \<and> (sum_words f1 f2 \<le> len to \<longrightarrow> e = E_DEC_OK)"
  using do_add_outcome [OF assms] do_sub_outcome [OF assms] unfolding decimal_add_def by (cases "sign f1 = sign f2") simp_all

section \<open>Comparison and sizes\<close>

lemma decimal_cmp_ok:
  assumes "dec_ok f1" "dec_ok f2" "sign f1 \<longrightarrow> mag f1 \<noteq> 0" "sign f2 \<longrightarrow> mag f2 \<noteq> 0"
  shows "decimal_cmp f1 f2 = Some (if dval f1 < dval f2 then - 1 else if dval f1 = dval f2 then 0 else 1)"
proof (cases "sign f1 = sign f2")
  case True
  obtain p1 p2 where "sub_compare f1 f2 = Some (p1, p2, order_of (mag f1) (mag f2))"
    by (rule sub_compare_ok [OF assms(1,2)]) (rule that)
  then show ?thesis using True by (auto simp: decimal_cmp_def do_sub_cmp_def order_of_def dval_def)
next
  case False
  then show ?thesis using mag_nonneg [OF assms(1)] mag_nonneg [OF assms(2)] assms(3,4) by (auto simp: decimal_cmp_def dval_def)
qed

text \<open>The first word has only the digits that \<open>intg\<close> counts.\<close>

definition digits_ok :: "decimal_t \<Rightarrow> bool" where
  "digits_ok d \<longleftrightarrow> (intg d mod 9 \<noteq> 0 \<longrightarrow> hd (buf d) < 10 ^ (intg d mod 9))"

lemma digits_small:
  assumes "digits_ok d" "intg d mod 9 \<noteq> 0"
  shows "hd (buf d) < 100000000"
proof -
  have "(10 :: int) ^ (intg d mod 9) \<le> 10 ^ 8" by (intro power_increasing) simp_all
  then show ?thesis using assms by (simp add: digits_ok_def)
qed

lemma ROUND_UP_Suc: "ROUND_UP (n + 1) = (if n mod 9 = 0 then ROUND_UP n + 1 else ROUND_UP n)"
proof -
  have "n = 9 * (n div 9) + n mod 9" "n mod 9 < 9" by simp_all
  then show ?thesis unfolding ROUND_UP_def by presburger
qed

lemma sum_words_size:
  assumes "dec_ok f1" "dec_ok f2" "digits_ok f1" "digits_ok f2"
  shows "sum_words f1 f2 \<le> ROUND_UP (max (intg f1) (intg f2) + 1) + ROUND_UP (max (frac f1) (frac f2))"
proof -
  define M where "M = max (intg f1) (intg f2)"
  have I: "max (ROUND_UP (intg f1)) (ROUND_UP (intg f2)) = ROUND_UP M" by (simp add: M_def)
  have "\<not> carry_room f1 f2" if m: "M mod 9 \<noteq> 0"
  proof -
    have small: "hd (buf d) < 100000000" if "d \<in> {f1, f2}" "ROUND_UP (intg d) = ROUND_UP M" for d
    proof -
      have "digits_ok d" "intg d \<le> M" using that assms by (auto simp: M_def)
      moreover have "intg d mod 9 \<noteq> 0"
      proof
        assume "intg d mod 9 = 0"
        then have "ROUND_UP (intg d) * 9 = intg d" using ROUND_UP_mult [of "intg d div 9"] by (metis dvd_div_mult_self mod_eq_0_iff_dvd)
        then have "M \<le> intg d" using that(2) unfolding ROUND_UP_def by linarith
        then show False using \<open>intg d mod 9 = 0\<close> \<open>intg d \<le> M\<close> m by simp
      qed
      ultimately show ?thesis using digits_small by blast
    qed
    consider "ROUND_UP (intg f2) < ROUND_UP (intg f1)" | "ROUND_UP (intg f1) < ROUND_UP (intg f2)" | "ROUND_UP (intg f1) = ROUND_UP (intg f2)" by linarith
    then show ?thesis using small [of f1] small [of f2] I by cases (auto simp: carry_room_def)
  qed
  then have "(if sign f1 = sign f2 \<and> carry_room f1 f2 then 1 else 0) \<le> ROUND_UP (M + 1) - ROUND_UP M" "ROUND_UP M \<le> ROUND_UP (M + 1)"
    unfolding ROUND_UP_Suc by auto
  then show ?thesis unfolding sum_words_def I M_def [symmetric] ROUND_UP_max by linarith
qed

section \<open>Examples\<close>

definition dec :: "bool \<Rightarrow> nat \<Rightarrow> nat \<Rightarrow> int list \<Rightarrow> decimal_t" where
  "dec sg i f b = \<lparr>intg = i, frac = f, sign = sg, buf = b\<rparr>"

lemma dec_simps [simp]: "intg (dec sg i f b) = i" "frac (dec sg i f b) = f" "sign (dec sg i f b) = sg" "buf (dec sg i f b) = b"
  by (simp_all add: dec_def)

lemmas dec_eval = dec_ok_def nw_def wrds_def ROUND_UP_def mag_def dval_def

section \<open>Properties\<close>





text \<open>C8 \<open>decimal_cmp\<close> compares the values of any two numbers, whatever their numbers of words, leading words that are 0 and
  digits of the fraction are, unless one of them is a negative zero.\<close>

theorem decimal_cmp_correct:
  assumes "dec_ok f1" "dec_ok f2" "sign f1 \<longrightarrow> mag f1 \<noteq> 0" "sign f2 \<longrightarrow> mag f2 \<noteq> 0"
  shows "decimal_cmp f1 f2 = Some (if dval f1 < dval f2 then - 1 else if dval f1 = dval f2 then 0 else 1)"
  using decimal_cmp_ok [OF assms] .

theorem decimal_cmp_correct_witness:
  "decimal_cmp (dec True 27 9 [0, 0, 7, 500000000]) (dec True 1 10 [7, 500000000, 0]) = Some 0 \<and>
   decimal_cmp (dec True 27 9 [0, 0, 7, 500000000]) (dec False 1 0 [3]) = Some (- 1)"
  using decimal_cmp_correct [of "dec True 27 9 [0, 0, 7, 500000000]" "dec True 1 10 [7, 500000000, 0]"]
    decimal_cmp_correct [of "dec True 27 9 [0, 0, 7, 500000000]" "dec False 1 0 [3]"]
  by (simp add: dec_eval)

text \<open>C20 The size that \<open>decimal_result_size\<close> gives for \<open>+\<close> is enough: with a result of that many words, addition of
  numbers whose first words have only the digits counted by \<open>intg\<close> is exact and reports no error.\<close>

theorem decimal_result_size_enough:
  assumes "dec_ok f1" "dec_ok f2" "digits_ok f1" "digits_ok f2" "decimal_result_size f1 f2 CHR ''+'' p = Some n" "n \<le> len to"
  shows "\<exists>to'. decimal_add f1 f2 to = Some (E_DEC_OK, to') \<and> dec_ok to' \<and> dval to' = dval f1 + dval f2"
proof -
  have s: "ROUND_UP (max (intg f1) (intg f2) + 1) + ROUND_UP (max (frac f1) (frac f2)) \<le> len to"
    using assms(5,6) by (simp add: decimal_result_size_def)
  then have "sum_words f1 f2 \<le> len to" using sum_words_size [OF assms(1-4)] by linarith
  moreover have "0 < len to" "ROUND_UP (intg f1) \<le> len to" "ROUND_UP (intg f2) \<le> len to"
    using calculation dec_okD(1) [OF assms(1)] unfolding sum_words_def nw_def by linarith+
  ultimately show ?thesis using decimal_add_outcome [OF assms(1,2), of to] by (auto simp: outcome_def)
qed

theorem decimal_result_size_enough_witness:
  "\<exists>to'. decimal_add (dec False 9 0 [999999999]) (dec False 1 0 [1]) (dec False 0 0 [0, 0]) = Some (E_DEC_OK, to') \<and> dval to' = 1000000000"
  using decimal_result_size_enough [of "dec False 9 0 [999999999]" "dec False 1 0 [1]" 0 2 "dec False 0 0 [0, 0]"]
  by (auto simp: dec_eval digits_ok_def decimal_result_size_def)

text \<open>For \<open>-\<close> it is not enough: operands of different signs are added, and the sum can have a word more.  The greatest number that is
  stored then has lost the sign.\<close>

lemma decimal_result_size_minus:
  "decimal_result_size (dec True 9 0 [999999999]) (dec False 1 0 [1]) CHR ''-'' 0 = Some 1 \<and>
   decimal_sub (dec True 9 0 [999999999]) (dec False 1 0 [1]) (dec False 0 0 [0]) = Some (E_DEC_OVERFLOW, dec False 9 0 [999999999])"
  by code_simp

text \<open>A difference that does not fit can leave the result buffer: with trailing words that are 0 in the greater operand, the words of
  the smaller one are subtracted below the start of the buffer.\<close>

lemma decimal_sub_leaves_buffer: "decimal_sub (dec False 27 0 [5, 0, 0]) (dec False 27 0 [4, 9, 9]) (dec False 0 0 [0]) = None"
  by code_simp

text \<open>A difference whose words are all cut off is a negative zero, which compares as less than 0.\<close>

lemma decimal_sub_negative_zero:
  "decimal_sub (dec False 9 18 [5, 0, 1]) (dec False 9 18 [5, 0, 2]) (dec False 0 0 [0, 0]) = Some (E_DEC_TRUNCATED, dec True 9 9 [0, 0]) \<and>
   decimal_cmp (dec True 9 9 [0, 0]) (dec False 1 0 [0]) = Some (- 1)"
  by code_simp

end
