(* ===== verification/Decimal_Mul.thy ===== *)
theory Decimal_Mul
  imports Decimal_Sub
begin

text \<open>
  Multiplication of decimal numbers: the loops of \<open>decimal_mul\<close> compute the product as long as the sums of three
  words stay within 32 bits.
\<close>

section \<open>One row\<close>

lemma ADD2_ok:
  assumes "0 \<le> z" "0 \<le> lo" "0 \<le> c" "z + lo + c < 2147483648"
  shows "\<exists>a c'. ADD2 z lo c = (a, c') \<and> 0 \<le> a \<and> a < DIG_BASE \<and> 0 \<le> c' \<and> c' \<le> 2 \<and> a + c' * DIG_BASE = z + lo + c"
proof -
  have i: "int32 (z + lo + c) = z + lo + c" using assms by simp
  consider "z + lo + c < DIG_BASE" | "DIG_BASE \<le> z + lo + c" "z + lo + c - DIG_BASE < DIG_BASE" | "DIG_BASE \<le> z + lo + c - DIG_BASE" by linarith
  then show ?thesis using assms by cases (simp_all add: ADD2_def i)
qed

text \<open>The sums of a row stay small: the words of the result are bounded by \<open>Z\<close> and the carries by \<open>C\<close>, or there is only one sum.\<close>

definition row_safe :: "int \<Rightarrow> int list \<Rightarrow> int list \<Rightarrow> int \<Rightarrow> bool" where
  "row_safe x ys zs c \<longleftrightarrow> ys = [] \<or> length ys = 1 \<and> c = 0 \<or>
     (\<exists>C. c \<le> C \<and> (\<forall>y\<in>set ys. x * y div DIG_BASE + 2 \<le> C) \<and> (\<forall>z\<in>set zs. z + DIG_BASE + C \<le> 2147483648))"

lemma row_safe_step:
  assumes "row_safe x (ys @ [y]) (zs @ [z]) c" "c1 \<le> 2"
  shows "row_safe x ys zs (c1 + x * y div DIG_BASE)"
proof (cases "ys = []")
  case False
  then obtain C where C: "\<forall>y\<in>set (ys @ [y]). x * y div DIG_BASE + 2 \<le> C" "\<forall>z\<in>set (zs @ [z]). z + DIG_BASE + C \<le> 2147483648"
    using assms(1) by (auto simp: row_safe_def)
  then have "c1 + x * y div DIG_BASE \<le> C" using assms(2) by (simp add: add.commute le_diff_eq)
  then show ?thesis using C unfolding row_safe_def by (intro disjI2 exI [of _ C]) simp
qed (simp add: row_safe_def)

lemma mul_row_ok:
  assumes "0 \<le> x" "x < DIG_BASE" "n \<le> i2" "n \<le> i0" "i2 \<le> length b2" "i0 \<le> length t" "0 \<le> c" "c \<le> DIG_BASE"
    "words_ok (part b2 (i2 - n) n)" "words_ok (part t (i0 - n) n)" "row_safe x (part b2 (i2 - n) n) (part t (i0 - n) n) c"
  shows "\<exists>ws c'. mul_row x b2 n i2 i0 c t = Some (i0 - n, c', patch t (i0 - n) ws) \<and> length ws = n \<and> words_ok ws \<and> 0 \<le> c' \<and> c' \<le> DIG_BASE \<and>
    wval ws + c' * DIG_BASE ^ n = wval (part t (i0 - n) n) + x * wval (part b2 (i2 - n) n) + c"
  using assms(3-)
proof (induction n arbitrary: i2 i0 t c)
  case (Suc n)
  obtain j2 j0 where j: "i2 = Suc j2" "i0 = Suc j0" using Suc.prems by (meson Suc_le_D)
  define y where "y = b2 ! j2"
  define z where "z = t ! j0"
  have pb: "part b2 (i2 - Suc n) (Suc n) = part b2 (j2 - n) n @ [y]" and pt: "part t (i0 - Suc n) (Suc n) = part t (j0 - n) n @ [z]"
    using Suc.prems(1-4) j by (simp_all add: part_Suc y_def z_def)
  have y: "0 \<le> y" "y < DIG_BASE" "words_ok (part b2 (j2 - n) n)" and z: "0 \<le> z" "z < DIG_BASE" "words_ok (part t (j0 - n) n)"
    using Suc.prems(7,8) unfolding pb pt by simp_all
  define hi where "hi = x * y div DIG_BASE"
  define lo where "lo = x * y - hi * DIG_BASE"
  have "x * y \<le> DIG_MAX * DIG_MAX" using assms(1,2) y by (intro mult_mono) simp_all
  then have hi: "0 \<le> hi" "hi \<le> 999999998" unfolding hi_def using assms(1) y(1) by (simp_all add: pos_imp_zdiv_nonneg_iff)
  have lo: "0 \<le> lo" "lo < DIG_BASE" unfolding lo_def hi_def by (simp_all add: minus_div_mult_eq_mod)
  have "z + lo + c < 2147483648"
    using Suc.prems(9) y z lo unfolding row_safe_def pb pt by auto
  then obtain a c1 where a: "ADD2 z lo c = (a, c1)" "0 \<le> a" "a < DIG_BASE" "0 \<le> c1" "c1 \<le> 2" "a + c1 * DIG_BASE = z + lo + c"
    using ADD2_ok [of z lo c] z(1) lo(1) Suc.prems(5) by blast
  have safe: "row_safe x (part b2 (j2 - n) n) (part t (j0 - n) n) (c1 + hi)"
    using row_safe_step [OF Suc.prems(9) [unfolded pb pt] a(5)] by (simp add: hi_def)
  have p: "part (t[j0 := a]) (j0 - n) n = part t (j0 - n) n" using Suc.prems(2,4) j by (simp add: part_def drop_update_swap)
  obtain ws c' where ws: "mul_row x b2 n j2 j0 (c1 + hi) (t[j0 := a]) = Some (j0 - n, c', patch (t[j0 := a]) (j0 - n) ws)"
    "length ws = n" "words_ok ws" "0 \<le> c'" "c' \<le> DIG_BASE"
    "wval ws + c' * DIG_BASE ^ n = wval (part t (j0 - n) n) + x * wval (part b2 (j2 - n) n) + (c1 + hi)"
    using Suc.IH [of j2 j0 "t[j0 := a]" "c1 + hi"] Suc.prems(1-4) j y(3) z(3) a(4,5) hi safe unfolding p by auto
  have r: "mul_row x b2 (Suc n) i2 i0 c t = Some (j0 - n, c', patch (t[j0 := a]) (j0 - n) ws)"
    using ws(1) a(1) Suc.prems(1-4) j by (simp add: rd_def y_def [symmetric] z_def [symmetric] hi_def [symmetric] lo_def [symmetric] Let_def)
  moreover have "patch (t[j0 := a]) (j0 - n) ws = patch t (j0 - n) (ws @ [a])"
    using patch_patch_down [of "j0 - n" ws "[a]" t] Suc.prems(2,4) j ws(2) by (simp add: patch_update)
  moreover have "wval (ws @ [a]) + c' * DIG_BASE ^ Suc n = wval (part t (j0 - n) n @ [z]) + x * wval (part b2 (j2 - n) n @ [y]) + c"
  proof -
    have "wval (ws @ [a]) + c' * DIG_BASE ^ Suc n = (wval ws + c' * DIG_BASE ^ n) * DIG_BASE + a" by (simp add: algebra_simps)
    also have "\<dots> = (wval (part t (j0 - n) n) + x * wval (part b2 (j2 - n) n)) * DIG_BASE + hi * DIG_BASE + (a + c1 * DIG_BASE)"
      unfolding ws(6) by (simp add: algebra_simps)
    also have "\<dots> = (wval (part t (j0 - n) n) + x * wval (part b2 (j2 - n) n)) * DIG_BASE + z + x * y + c" unfolding a(6) lo_def by simp
    finally show ?thesis by (simp add: algebra_simps)
  qed
  ultimately show ?case unfolding pb pt using ws(2-5) a(2,3) j by (intro exI [of _ "ws @ [a]"] exI [of _ c']) simp
qed simp

text \<open>The carry of a row is added to the words in front of it.\<close>

lemma mul_carry_ok:
  "words_ok (take i t) \<Longrightarrow> i \<le> length t \<Longrightarrow> 0 \<le> c \<Longrightarrow> c \<le> DIG_BASE \<Longrightarrow> wval (take i t) + c < DIG_BASE ^ i \<Longrightarrow>
   \<exists>ws. mul_carry i c t = Some (patch t 0 ws) \<and> length ws = i \<and> words_ok ws \<and> wval ws = wval (take i t) + c"
proof (induction i arbitrary: c t)
  case (Suc i)
  show ?case
  proof (cases "c = 0")
    case True
    then show ?thesis using Suc.prems by (intro exI [of _ "take (Suc i) t"]) (simp add: patch_def)
  next
    case False
    define z where "z = t ! i"
    have tk: "take (Suc i) t = take i t @ [z]" using Suc.prems(2) by (simp add: z_def take_Suc_conv_app_nth)
    have z: "0 \<le> z" "z < DIG_BASE" "words_ok (take i t)" using Suc.prems(1) unfolding tk by simp_all
    obtain a c' where a: "ADD z 0 c = (a, c')" "0 \<le> a" "a < DIG_BASE" "c' \<in> {0, 1}" "a + c' * DIG_BASE = z + c"
      using z(1,2) Suc.prems(3,4) by (cases "z + c < DIG_BASE") (auto simp: ADD_def)
    have "(wval (take i t) + c') * DIG_BASE \<le> wval (take (Suc i) t) + c" using a(2,5) unfolding tk by (simp add: algebra_simps)
    then have "(wval (take i t) + c') * DIG_BASE < DIG_BASE ^ i * DIG_BASE" using Suc.prems(5) by simp
    then have "wval (take i t) + c' < DIG_BASE ^ i" by simp
    then obtain ws where ws: "mul_carry i c' (t[i := a]) = Some (patch (t[i := a]) 0 ws)" "length ws = i" "words_ok ws" "wval ws = wval (take i t) + c'"
      using Suc.IH [of "t[i := a]" c'] Suc.prems(2) z(3) a(4) by auto
    have "mul_carry (Suc i) c t = Some (patch t 0 (ws @ [a]))"
      using False ws(1,2) a(1) Suc.prems(2) patch_patch_down [of 0 ws "[a]" t] by (simp add: rd_def z_def [symmetric] patch_update)
    moreover have "wval (ws @ [a]) = wval (take (Suc i) t) + c" using a(5) ws(4) unfolding tk by (simp add: algebra_simps)
    ultimately show ?thesis using ws(2,3) a(2,3) by (intro exI [of _ "ws @ [a]"]) simp
  qed
qed simp

lemma row_ok:
  assumes "0 \<le> x" "x < DIG_BASE" "n \<le> i2" "n \<le> i0" "i2 \<le> length b2" "i0 \<le> length t"
    "words_ok (part b2 (i2 - n) n)" "words_ok (take i0 t)" "row_safe x (part b2 (i2 - n) n) (take i0 t) 0"
    "wval (take i0 t) + x * wval (part b2 (i2 - n) n) < DIG_BASE ^ i0"
  shows "\<exists>ws. do { (i, carry, t) \<leftarrow> mul_row x b2 n i2 i0 0 t; mul_carry i carry t } = Some (patch t 0 ws) \<and> length ws = i0 \<and> words_ok ws \<and>
    wval ws = wval (take i0 t) + x * wval (part b2 (i2 - n) n)"
proof -
  let ?W = "wval (part b2 (i2 - n) n)"
  have tk: "take i0 t = take (i0 - n) t @ part t (i0 - n) n" using take_parts [of "i0 - n" i0 t] assms(4) by simp
  have ok: "words_ok (take (i0 - n) t)" "words_ok (part t (i0 - n) n)" using assms(8) unfolding tk by simp_all
  have len: "length (part t (i0 - n) n) = n" using assms(4,6) by simp
  have safe: "row_safe x (part b2 (i2 - n) n) (part t (i0 - n) n) 0" using assms(9) unfolding row_safe_def tk by auto
  obtain ws c where ws: "mul_row x b2 n i2 i0 0 t = Some (i0 - n, c, patch t (i0 - n) ws)" "length ws = n" "words_ok ws" "0 \<le> c" "c \<le> DIG_BASE"
    "wval ws + c * DIG_BASE ^ n = wval (part t (i0 - n) n) + x * ?W"
    using mul_row_ok [OF assms(1-6) _ _ assms(7) ok(2) safe] by auto
  let ?t = "patch t (i0 - n) ws"
  have t: "take (i0 - n) ?t = take (i0 - n) t" "length ?t = length t" using assms(4,6) ws(2) by simp_all
  have v: "(wval (take (i0 - n) t) + c) * DIG_BASE ^ n + wval ws = wval (take i0 t) + x * ?W"
    using ws(6) unfolding tk wval_append len by (simp add: algebra_simps)
  have "DIG_BASE ^ i0 = DIG_BASE ^ (i0 - n) * DIG_BASE ^ n" using assms(4) by (simp flip: power_add)
  then have "(wval (take (i0 - n) t) + c) * DIG_BASE ^ n < DIG_BASE ^ (i0 - n) * DIG_BASE ^ n" using v assms(10) wval_bounds [OF ws(3)] by linarith
  then have "wval (take (i0 - n) t) + c < DIG_BASE ^ (i0 - n)" by (simp only: mult_less_cancel_right) simp
  moreover have "i0 - n \<le> length ?t" using t(2) assms(6) by linarith
  ultimately obtain vs where vs: "mul_carry (i0 - n) c ?t = Some (patch ?t 0 vs)" "length vs = i0 - n" "words_ok vs" "wval vs = wval (take (i0 - n) t) + c"
    using mul_carry_ok [of "i0 - n" ?t c] ok(1) ws(4,5) unfolding t(1) by blast
  have "patch ?t 0 vs = patch t 0 (vs @ ws)" using patch_patch_down [of 0 vs ws t] vs(2) ws(2) assms(4,6) by simp
  then show ?thesis using ws vs v assms(4) by (intro exI [of _ "vs @ ws"]) simp
qed

section \<open>All rows\<close>

text \<open>When no sum exceeds 32 bits: there is one row that is added to zeros, or every row has one product, or the words of a
  factor are small enough.\<close>

definition rows_safe :: "int list \<Rightarrow> int list \<Rightarrow> int list \<Rightarrow> bool" where
  "rows_safe xs ys zs \<longleftrightarrow> length xs \<le> 1 \<and> (\<forall>z\<in>set zs. z = 0) \<or> length ys = 1 \<or>
     (\<forall>x\<in>set xs. x \<le> 147483646) \<or> (\<forall>y\<in>set ys. y \<le> 147483646)"

lemma product_high:
  assumes "0 \<le> x" "x < DIG_BASE" "0 \<le> y" "y < DIG_BASE"
  shows "x * y div DIG_BASE \<le> x" "x * y div DIG_BASE \<le> y" "x * y div DIG_BASE \<le> 999999998"
proof -
  have "x * y \<le> x * DIG_BASE" using assms by (intro mult_left_mono) simp_all
  then have "x * y div DIG_BASE \<le> x * DIG_BASE div DIG_BASE" by (rule zdiv_mono1) simp
  then show "x * y div DIG_BASE \<le> x" by simp
  have "x * y \<le> DIG_BASE * y" using assms by (intro mult_right_mono) simp_all
  then have "x * y div DIG_BASE \<le> DIG_BASE * y div DIG_BASE" by (rule zdiv_mono1) simp
  then show "x * y div DIG_BASE \<le> y" by simp
  have "x * y \<le> DIG_MAX * DIG_MAX" using assms by (intro mult_mono) simp_all
  then have "x * y div DIG_BASE \<le> DIG_MAX * DIG_MAX div DIG_BASE" by (rule zdiv_mono1) simp
  then show "x * y div DIG_BASE \<le> 999999998" by simp
qed

lemma rows_row:
  assumes s: "rows_safe xs ys zs" and x: "x \<in> set xs" and ok: "words_ok xs" "words_ok ys" "words_ok zs"
  shows "row_safe x ys zs 0"
proof -
  have p: "x * y div DIG_BASE \<le> x" "x * y div DIG_BASE \<le> y" "x * y div DIG_BASE \<le> 999999998" if "y \<in> set ys" for y
    using product_high [of x y] x ok(1,2) that by (auto simp: words_ok_def)
  have z: "z < DIG_BASE" if "z \<in> set zs" for z using ok(3) that by (simp add: words_ok_def)
  consider "\<forall>z\<in>set zs. z = 0" | "length ys = 1" | "(\<forall>x\<in>set xs. x \<le> 147483646) \<or> (\<forall>y\<in>set ys. y \<le> 147483646)"
    using s unfolding rows_safe_def by blast
  then show ?thesis
  proof cases
    case 1
    then show ?thesis unfolding row_safe_def using p(3) by (intro disjI2 exI [of _ DIG_BASE]) force
  next
    case 2
    then show ?thesis by (simp add: row_safe_def)
  next
    case 3
    then have "x * y div DIG_BASE + 2 \<le> 147483648" if "y \<in> set ys" for y using p(1,2) [OF that] x that by force
    moreover have "z + DIG_BASE + 147483648 \<le> 2147483648" if "z \<in> set zs" for z using z [OF that] by simp
    ultimately show ?thesis unfolding row_safe_def by (intro disjI2 exI [of _ 147483648]) simp
  qed
qed

lemma mul_rows_ok:
  assumes b2: "0 < n2" "n2 \<le> i2" "i2 \<le> length b2" "words_ok (part b2 (i2 - n2) n2)"
  shows "n1 \<le> i1 \<Longrightarrow> i1 \<le> length b1 \<Longrightarrow> words_ok (part b1 (i1 - n1) n1) \<Longrightarrow> s \<le> length t \<Longrightarrow> words_ok (take s t) \<Longrightarrow>
    n1 = 0 \<or> n2 + (n1 - 1) \<le> s \<Longrightarrow> wval (take s t) + wval (part b1 (i1 - n1) n1) * wval (part b2 (i2 - n2) n2) < DIG_BASE ^ s \<Longrightarrow>
    rows_safe (part b1 (i1 - n1) n1) (part b2 (i2 - n2) n2) (take s t) \<Longrightarrow>
    \<exists>ws. mul_rows b1 b2 n1 i1 n2 i2 s t = Some (patch t 0 ws) \<and> length ws = s \<and> words_ok ws \<and>
      wval ws = wval (take s t) + wval (part b1 (i1 - n1) n1) * wval (part b2 (i2 - n2) n2)"
proof (induction n1 arbitrary: i1 s t)
  case 0
  then show ?case by (intro exI [of _ "take s t"]) (simp add: patch_def)
next
  case (Suc n1)
  define W where "W = wval (part b2 (i2 - n2) n2)"
  obtain j1 where j: "i1 = Suc j1" using Suc.prems(1) by (meson Suc_le_D)
  define x where "x = b1 ! j1"
  define W1 where "W1 = wval (part b1 (j1 - n1) n1)"
  have pb: "part b1 (i1 - Suc n1) (Suc n1) = part b1 (j1 - n1) n1 @ [x]" using Suc.prems(1,2) j by (simp add: part_Suc x_def)
  have x: "0 \<le> x" "x < DIG_BASE" and ok1: "words_ok (part b1 (j1 - n1) n1)" using Suc.prems(3) unfolding pb by simp_all
  have W0: "0 \<le> W" "0 \<le> W1" "0 \<le> wval (take s t)" using wval_bounds b2(4) ok1 Suc.prems(5) by (auto simp: W_def W1_def)
  have bnd: "wval (take s t) + (W1 * DIG_BASE + x) * W < DIG_BASE ^ s" using Suc.prems(7) unfolding pb W_def W1_def by simp
  have n2: "n2 + n1 \<le> s" using Suc.prems(6) by simp
  have "0 \<le> W1 * DIG_BASE * W" using W0 by simp
  then have "wval (take s t) + x * W < DIG_BASE ^ s" using bnd by (simp add: algebra_simps)
  moreover have "row_safe x (part b2 (i2 - n2) n2) (take s t) 0"
    using rows_row [OF Suc.prems(8) _ Suc.prems(3) b2(4) Suc.prems(5), of x] unfolding pb by simp
  ultimately obtain ws where ws: "do { (i, carry, t) \<leftarrow> mul_row x b2 n2 i2 s 0 t; mul_carry i carry t } = Some (patch t 0 ws)"
    "length ws = s" "words_ok ws" "wval ws = wval (take s t) + x * W"
    using row_ok [OF x b2(2) _ b2(3) Suc.prems(4) b2(4) Suc.prems(5)] n2 unfolding W_def by auto
  have step: "mul_rows b1 b2 (Suc n1) i1 n2 i2 s t = do { s \<leftarrow> (if n1 = 0 then Some s else pre_dec s); mul_rows b1 b2 n1 j1 n2 i2 s (patch t 0 ws) }"
    using ws(1) Suc.prems(1,2) j by (auto simp: rd_def x_def [symmetric] bind_eq_Some_conv split_def)
  show ?case
  proof (cases "n1 = 0")
    case True
    then show ?thesis using step ws(2-4) unfolding pb W_def by (intro exI [of _ ws]) simp
  next
    case False
    obtain s' where s': "s = Suc s'" using n2 b2(1) by (cases s) auto
    obtain us l where us: "ws = us @ [l]" "length us = s'" using ws(2) s' by (metis length_Suc_conv_rev)
    let ?t = "patch t 0 ws"
    have t: "take s' ?t = us" "length ?t = length t" using us ws(2) Suc.prems(4) by (simp_all add: patch_def)
    have v: "wval us * DIG_BASE + l = wval (take s t) + x * W" using ws(4) unfolding us(1) by simp
    have l: "0 \<le> l" "words_ok us" using ws(3) unfolding us(1) by simp_all
    have "(wval us + W1 * W) * DIG_BASE < DIG_BASE ^ s' * DIG_BASE" using bnd v l(1) unfolding s' by (simp add: algebra_simps)
    then have bnd': "wval us + W1 * W < DIG_BASE ^ s'" by simp
    have "rows_safe (part b1 (j1 - n1) n1) (part b2 (i2 - n2) n2) us"
      using Suc.prems(1,2,8) False j unfolding rows_safe_def pb by (auto simp: part_def)
    moreover have "n2 + (n1 - 1) \<le> s'" using n2 s' False by linarith
    ultimately obtain vs where vs: "mul_rows b1 b2 n1 j1 n2 i2 s' ?t = Some (patch ?t 0 vs)" "length vs = s'" "words_ok vs" "wval vs = wval us + W1 * W"
      using Suc.IH [of j1 s' ?t] Suc.prems(1,2,4) j s' ok1 l(2) n2 bnd' False unfolding t W_def W1_def by auto
    have "patch ?t 0 vs = patch t 0 (vs @ [l])" using us vs(2) Suc.prems(4) s' by (simp add: patch_def)
    moreover have "wval (vs @ [l]) = wval (take s t) + (W1 * DIG_BASE + x) * W" using v vs(4) by (simp add: algebra_simps)
    moreover have "words_ok (vs @ [l])" using vs(3) ws(3) unfolding us(1) by simp
    ultimately show ?thesis using step vs(1,2) False s' unfolding pb W_def W1_def by (intro exI [of _ "vs @ [l]"]) simp
  qed
qed

section \<open>Digits\<close>

lemma pow9: "(10 :: int) ^ (9 * n) = DIG_BASE ^ n"
  by (simp add: power_mult)

lemma ROUND_UP_ge: "n \<le> 9 * ROUND_UP n"
  unfolding ROUND_UP_def by linarith

lemma ROUND_UP_less: "9 * ROUND_UP n < n + 9"
  unfolding ROUND_UP_def by linarith

lemma wval_digits:
  assumes "dec_ok d" "digits_ok d"
  shows "wval (wrds d) < 10 ^ intg d * DIG_BASE ^ ROUND_UP (frac d)"
proof (cases "intg d mod 9 = 0")
  case True
  then have "9 * ROUND_UP (intg d) = intg d" using ROUND_UP_ge [of "intg d"] ROUND_UP_less [of "intg d"] by presburger
  then have "(10 :: int) ^ intg d * DIG_BASE ^ ROUND_UP (frac d) = DIG_BASE ^ nw d" by (metis nw_def pow9 power_add)
  then show ?thesis using wval_bounds [OF dec_okD(3) [OF assms(1)]] dec_okD(4) [OF assms(1)] by simp
next
  case False
  then have I: "intg d = intg d mod 9 + 9 * (ROUND_UP (intg d) - 1)" "0 < ROUND_UP (intg d)"
    using ROUND_UP_ge [of "intg d"] ROUND_UP_less [of "intg d"] by presburger+
  have "0 < intg d" using False by (cases "intg d = 0") auto
  then have w: "wrds d \<noteq> []" "length (wrds d) - 1 = ROUND_UP (intg d) - 1 + ROUND_UP (frac d)" "hd (wrds d) = hd (buf d)"
    using dec_okD(1,4) [OF assms(1)] I(2) hd_take [of "nw d" "buf d"] by (auto simp: nw_def wrds_def)
  have "hd (buf d) + 1 \<le> 10 ^ (intg d mod 9)" using assms(2) False by (simp add: digits_ok_def)
  then have "(hd (buf d) + 1) * DIG_BASE ^ (length (wrds d) - 1) \<le> 10 ^ (intg d mod 9) * DIG_BASE ^ (length (wrds d) - 1)"
    by (intro mult_right_mono) simp_all
  also have "\<dots> = 10 ^ (intg d mod 9 + 9 * (ROUND_UP (intg d) - 1)) * DIG_BASE ^ ROUND_UP (frac d)"
    unfolding w(2) by (simp add: power_add pow9)
  also have "\<dots> = 10 ^ intg d * DIG_BASE ^ ROUND_UP (frac d)" using I(1) by simp
  finally show ?thesis using first_word_bound [OF dec_okD(3) [OF assms(1)] w(1)] w(3) by simp
qed

text \<open>The last word of the fraction has only the digits that \<open>frac\<close> counts.\<close>

definition frac_ok :: "decimal_t \<Rightarrow> bool" where
  "frac_ok d \<longleftrightarrow> (frac d mod 9 \<noteq> 0 \<longrightarrow> 10 ^ (9 - frac d mod 9) dvd last (wrds d))"

lemma wval_frac:
  assumes "dec_ok d" "frac_ok d"
  shows "10 ^ (9 * ROUND_UP (frac d) - frac d) dvd wval (wrds d)"
proof (cases "frac d mod 9 = 0")
  case True
  then have "9 * ROUND_UP (frac d) - frac d = 0" using ROUND_UP_ge [of "frac d"] ROUND_UP_less [of "frac d"] by presburger
  then show ?thesis by simp
next
  case False
  then have e: "9 * ROUND_UP (frac d) - frac d = 9 - frac d mod 9" using ROUND_UP_ge [of "frac d"] ROUND_UP_less [of "frac d"] by presburger
  have "wrds d \<noteq> []" using dec_okD(1,4) [OF assms(1)] by auto
  then have "wval (wrds d) = wval (butlast (wrds d)) * DIG_BASE + last (wrds d)" using wval_append [of "butlast (wrds d)" "[last (wrds d)]"] by simp
  moreover have "(10 :: int) ^ (9 - frac d mod 9) dvd 10 ^ 9" by (intro le_imp_power_dvd) simp
  ultimately show ?thesis using assms(2) False unfolding e frac_ok_def by (simp add: dvd_mult)
qed

section \<open>The product\<close>

lemma product_fits:
  assumes "dec_ok f1" "dec_ok f2" "digits_ok f1" "digits_ok f2"
  shows "wval (wrds f1) * wval (wrds f2) < DIG_BASE ^ (ROUND_UP (intg f1 + intg f2) + (ROUND_UP (frac f1) + ROUND_UP (frac f2)))"
proof -
  let ?F = "ROUND_UP (frac f1) + ROUND_UP (frac f2)"
  have "wval (wrds f1) * wval (wrds f2) < (10 ^ intg f1 * DIG_BASE ^ ROUND_UP (frac f1)) * (10 ^ intg f2 * DIG_BASE ^ ROUND_UP (frac f2))"
    using wval_digits [OF assms(1,3)] wval_digits [OF assms(2,4)] wval_bounds [OF dec_okD(3) [OF assms(1)]] wval_bounds [OF dec_okD(3) [OF assms(2)]]
    by (intro mult_strict_mono') simp_all
  also have "\<dots> = 10 ^ (intg f1 + intg f2) * DIG_BASE ^ ?F" by (simp add: power_add)
  also have "\<dots> \<le> 10 ^ (9 * ROUND_UP (intg f1 + intg f2)) * DIG_BASE ^ ?F"
    by (intro mult_right_mono power_increasing ROUND_UP_ge) simp_all
  also have "\<dots> = DIG_BASE ^ (ROUND_UP (intg f1 + intg f2) + ?F)" unfolding pow9 by (simp add: power_add)
  finally show ?thesis .
qed

lemma product_frac:
  assumes "dec_ok f1" "dec_ok f2" "frac_ok f1" "frac_ok f2"
  shows "DIG_BASE ^ (ROUND_UP (frac f1) + ROUND_UP (frac f2) - ROUND_UP (frac f1 + frac f2)) dvd wval (wrds f1) * wval (wrds f2)"
proof -
  have "9 * (ROUND_UP (frac f1) + ROUND_UP (frac f2) - ROUND_UP (frac f1 + frac f2)) \<le>
      9 * ROUND_UP (frac f1) - frac f1 + (9 * ROUND_UP (frac f2) - frac f2)"
    using ROUND_UP_ge [of "frac f1"] ROUND_UP_ge [of "frac f2"] ROUND_UP_ge [of "frac f1 + frac f2"] by linarith
  then have "(10 :: int) ^ (9 * (ROUND_UP (frac f1) + ROUND_UP (frac f2) - ROUND_UP (frac f1 + frac f2))) dvd
      10 ^ (9 * ROUND_UP (frac f1) - frac f1) * 10 ^ (9 * ROUND_UP (frac f2) - frac f2)" by (simp only: power_add [symmetric] le_imp_power_dvd)
  also have "\<dots> dvd wval (wrds f1) * wval (wrds f2)" using wval_frac [OF assms(1,3)] wval_frac [OF assms(2,4)] by (rule mult_dvd_mono)
  finally show ?thesis unfolding pow9 .
qed

section \<open>Removing leading words\<close>

lemma move_words_ok:
  "cur < i \<Longrightarrow> i + n \<le> length t \<Longrightarrow>
   \<exists>t'. move_words n cur i t = Some t' \<and> length t' = length t \<and> take (cur + n) t' = take cur t @ part t i n"
proof (induction n arbitrary: cur i t)
  case (Suc n)
  let ?t = "t[cur := t ! i]"
  obtain t' where t': "move_words n (cur + 1) (i + 1) ?t = Some t'" "length t' = length t" "take (cur + 1 + n) t' = take (cur + 1) ?t @ part ?t (i + 1) n"
    using Suc.IH [of "cur + 1" "i + 1" ?t] Suc.prems by auto
  have "take (cur + 1) ?t = take cur t @ [t ! i]" using Suc.prems by (simp add: take_Suc_conv_app_nth)
  moreover have "part ?t (i + 1) n = part t (i + 1) n" using Suc.prems by (simp add: part_def drop_update_cancel)
  ultimately show ?case using t' Suc.prems by (simp add: rd_def part_Cons)
qed simp

lemma drop_zero_words_ok:
  "i + max n 1 \<le> length b \<Longrightarrow>
   \<exists>k. drop_zero_words b i (n * 9) = Some (i + k, (n - k) * 9) \<and> (\<forall>j\<in>{i..<i + k}. b ! j = 0) \<and> (k = 0 \<or> k < n)"
proof (induction n arbitrary: i)
  case (Suc n)
  show ?case
  proof (cases "b ! i = 0 \<and> 0 < n")
    case True
    then obtain k where k: "drop_zero_words b (i + 1) (n * 9) = Some (i + 1 + k, (n - k) * 9)" "\<forall>j\<in>{i + 1..<i + 1 + k}. b ! j = 0" "k = 0 \<or> k < n"
      using Suc.IH [of "i + 1"] Suc.prems by auto
    have "\<forall>j\<in>{i..<i + Suc k}. b ! j = 0"
    proof
      fix j assume "j \<in> {i..<i + Suc k}"
      then show "b ! j = 0" using True k(2) by (cases "j = i") auto
    qed
    moreover have "drop_zero_words b i (Suc n * 9) = Some (i + Suc k, (Suc n - Suc k) * 9)"
      using True k(1) Suc.prems by (subst drop_zero_words.simps) (simp add: rd_def)
    ultimately show ?thesis using k(3) True by (intro exI [of _ "Suc k"]) auto
  next
    case False
    then have "drop_zero_words b i (Suc n * 9) = Some (i, Suc n * 9)" using Suc.prems by (subst drop_zero_words.simps) (auto simp: rd_def)
    then show ?thesis by (intro exI [of _ 0]) simp
  qed
qed (simp add: rd_def)

lemma mul_normalize_ok:
  assumes ok: "dec_ok to" and i: "intg to = n * 9"
  shows "\<exists>to'. mul_normalize to n = Some to' \<and> dec_ok to' \<and> len to' = len to \<and> mag to' = mag to \<and> sign to' = sign to \<and> frac to' = frac to"
proof -
  have l: "nw to = n + ROUND_UP (frac to)" "nw to \<le> len to" "0 < nw to" using dec_okD [OF ok] i by (simp_all add: nw_def)
  then have "0 + max n 1 \<le> len to" by linarith
  from drop_zero_words_ok [OF this] obtain k where k: "drop_zero_words (buf to) 0 (n * 9) = Some (k, (n - k) * 9)" "\<forall>j<k. buf to ! j = 0" "k = 0 \<or> k < n"
    by auto
  show ?thesis
  proof (cases "k = 0")
    case True
    then show ?thesis using k(1) ok by (simp add: mul_normalize_def i [symmetric])
  next
    case False
    let ?m = "n + ROUND_UP (frac to) - k"
    obtain t where t: "move_words ?m 0 k (buf to) = Some t" "length t = len to" "take ?m t = part (buf to) k ?m"
      using move_words_ok [of 0 k ?m "buf to"] False k(3) l by auto
    let ?to = "to\<lparr>intg := (n - k) * 9, buf := t\<rparr>"
    have m: "nw ?to = ?m" using k(3) False ROUND_UP_mult [of "n - k"] by (simp add: nw_def)
    then have w: "wrds ?to = part (buf to) k ?m" using t(3) by (simp add: wrds_def)
    have "nw to = k + ?m" using l(1) k(3) False by simp
    then have "wrds to = part (buf to) 0 k @ part (buf to) k ?m" using part_add [of "buf to" 0 k ?m] by (simp add: wrds_def part_zero)
    moreover have "part (buf to) 0 k = replicate k 0" using k(2,3) False l by (intro part_zeros) auto
    ultimately have w0: "wrds to = replicate k 0 @ wrds ?to" using w by simp
    have "dec_ok ?to" using dec_okD(3) [OF ok] k(3) False l m t(2) unfolding dec_ok_def w0 by simp
    moreover have "mag ?to = mag to" by (simp add: mag_def w0)
    ultimately show ?thesis using k(1) False t(1,2) by (simp add: mul_normalize_def i)
  qed
qed

section \<open>The result of a multiplication\<close>

definition mul_safe :: "decimal_t \<Rightarrow> decimal_t \<Rightarrow> bool" where
  "mul_safe f1 f2 \<longleftrightarrow> nw f1 = 1 \<or> nw f2 = 1 \<or> (\<forall>x\<in>set (wrds f1). x \<le> 147483646) \<or> (\<forall>y\<in>set (wrds f2). y \<le> 147483646)"

lemma mul_words:
  fixes f1 f2 :: decimal_t
  defines "T \<equiv> ROUND_UP (intg f1 + intg f2) + (ROUND_UP (frac f1) + ROUND_UP (frac f2))"
  assumes d: "dec_ok f1" "dec_ok f2" "digits_ok f1" "digits_ok f2" "mul_safe f1 f2" and l: "T \<le> length b"
  shows "\<exists>ws. do { t \<leftarrow> fill_words T 0 0 b; mul_rows (buf f1) (buf f2) (nw f1) (nw f1) (nw f2) (nw f2) T t } = Some (patch b 0 ws) \<and>
    length ws = T \<and> words_ok ws \<and> wval ws = wval (wrds f1) * wval (wrds f2)"
proof -
  let ?t = "patch b 0 (replicate T 0)"
  have f: "fill_words T 0 0 b = Some ?t" using fill_words_ok [of 0 T b 0] l by simp
  have t: "take T ?t = replicate T 0" "length ?t = length b" using l by (simp_all add: patch_def)
  have p: "part (buf f1) (nw f1 - nw f1) (nw f1) = wrds f1" "part (buf f2) (nw f2 - nw f2) (nw f2) = wrds f2" by (simp_all add: part_zero wrds_def)
  have n: "nw f2 + (nw f1 - 1) \<le> T"
    using ROUND_UP_less [of "intg f1"] ROUND_UP_less [of "intg f2"] ROUND_UP_ge [of "intg f1 + intg f2"] dec_okD(1) [OF d(1)]
    unfolding nw_def T_def by linarith
  have "rows_safe (wrds f1) (wrds f2) (replicate T 0)" using d(5) dec_okD(4) [OF d(1)] dec_okD(4) [OF d(2)] by (auto simp: mul_safe_def rows_safe_def)
  then obtain ws where ws: "mul_rows (buf f1) (buf f2) (nw f1) (nw f1) (nw f2) (nw f2) T ?t = Some (patch ?t 0 ws)" "length ws = T" "words_ok ws"
    "wval ws = wval (wrds f1) * wval (wrds f2)"
    using mul_rows_ok [OF dec_okD(1) [OF d(2)] order_refl dec_okD(2) [OF d(2)], of "nw f1" "nw f1" "buf f1" T ?t]
      dec_okD(2,3) [OF d(1)] dec_okD(3) [OF d(2)] l n product_fits [OF d(1-4)] unfolding p t T_def [symmetric] by auto
  moreover have "patch ?t 0 ws = patch b 0 ws" using ws(2) l by (simp add: patch_def)
  ultimately show ?thesis using f by auto
qed

lemma wval_cut:
  assumes "words_ok ws" "DIG_BASE ^ e dvd wval ws" "length ws = m + e"
  shows "wval ws = wval (take m ws) * DIG_BASE ^ e"
proof -
  have a: "wval ws = wval (take m ws) * DIG_BASE ^ e + wval (drop m ws)"
    using wval_append [of "take m ws" "drop m ws"] assms(3) by simp
  have "words_ok (drop m ws)" using assms(1) by auto
  then have b: "0 \<le> wval (drop m ws)" "wval (drop m ws) < DIG_BASE ^ e" using wval_bounds [of "drop m ws"] assms(3) by simp_all
  have "DIG_BASE ^ e dvd wval (drop m ws)" using assms(2) unfolding a by (simp add: dvd_add_right_iff)
  then have "wval (drop m ws) = 0" using b zdvd_not_zless by (metis order_le_less)
  then show ?thesis using a by simp
qed

text \<open>The number before leading words are removed.\<close>

lemma product_number:
  fixes f1 f2 to :: decimal_t and sg :: bool and ws :: "int list"
  defines "R \<equiv> ROUND_UP (intg f1 + intg f2)" and "F \<equiv> ROUND_UP (frac f1) + ROUND_UP (frac f2)"
  assumes d: "dec_ok f1" "dec_ok f2" "frac_ok f1" "frac_ok f2" and l: "R + F \<le> len to"
    and ws: "length ws = R + F" "words_ok ws" "wval ws = wval (wrds f1) * wval (wrds f2)"
  defines "to' \<equiv> to\<lparr>sign := sg, frac := frac f1 + frac f2, intg := R * 9, buf := patch (buf to) 0 ws\<rparr>"
  shows "dec_ok to'" "len to' = len to" "mag to' = mag f1 * mag f2" "sign to' = sg" "frac to' = frac f1 + frac f2" "intg to' = R * 9" "mag to' = 0 \<longleftrightarrow> wval ws = 0"
proof -
  define K where "K = ROUND_UP (frac f1 + frac f2)"
  have K: "K \<le> F" using ROUND_UP_less [of "frac f1 + frac f2"] ROUND_UP_ge [of "frac f1"] ROUND_UP_ge [of "frac f2"] by (simp add: K_def F_def)
  have n: "nw to' = R + K" by (simp add: nw_def to'_def K_def)
  have w: "wrds to' = take (R + K) ws" using K ws(1) l by (simp add: wrds_def n) (simp add: to'_def patch_def)
  show l': "len to' = len to" "sign to' = sg" "frac to' = frac f1 + frac f2" "intg to' = R * 9" using ws(1) l by (simp_all add: to'_def)
  have "wval ws = wval (wrds to') * DIG_BASE ^ (F - K)"
    unfolding w using ws K product_frac [OF d] by (intro wval_cut) (simp_all add: F_def K_def)
  moreover have "(of_int (DIG_BASE ^ F) :: rat) = of_int (DIG_BASE ^ K) * of_int (DIG_BASE ^ (F - K))" using K by (simp flip: power_add)
  ultimately have m: "mag to' = of_int (wval ws) / of_int (DIG_BASE ^ F)" by (simp add: mag_def l'(3) K_def [symmetric])
  then show "mag to' = mag f1 * mag f2" by (simp add: mag_def ws(3) F_def power_add)
  show "mag to' = 0 \<longleftrightarrow> wval ws = 0" by (simp add: m)
  have "0 < intg to' + frac to'"
    using d(1) unfolding l' R_def dec_ok_def by (cases "intg f1 + intg f2 = 0") auto
  then show "dec_ok to'" using ws(2) l K unfolding dec_ok_def n w l' by auto
qed

lemma decimal_mul_code:
  fixes f1 f2 to :: decimal_t
  defines "R \<equiv> ROUND_UP (intg f1 + intg f2)" and "F \<equiv> ROUND_UP (frac f1) + ROUND_UP (frac f2)"
  assumes l: "R + F \<le> len to"
    and t: "do { t \<leftarrow> fill_words (R + F) 0 0 (buf to); mul_rows (buf f1) (buf f2) (nw f1) (nw f1) (nw f2) (nw f2) (R + F) t } = Some t"
  shows "decimal_mul f1 f2 to = do {
     let to' = to\<lparr>sign := (sign f1 \<noteq> sign f2), frac := frac f1 + frac f2, intg := R * 9, buf := t\<rparr>;
     to' \<leftarrow> (if sign f1 \<noteq> sign f2
             then if R + F = 0 then None
                  else do { k \<leftarrow> skip_zero t 0 (R + F); if k = R + F then decimal_make_zero to' else Some to' }
             else Some to');
     to' \<leftarrow> mul_normalize to' R;
     Some (E_DEC_OK, to')
   }"
proof -
  have fx: "FIX_INTG_FRAC_ERROR (len to) R F = (R, F, E_DEC_OK)" using l by (simp add: FIX_INTG_FRAC_ERROR_def)
  have n: "nat (int (ROUND_UP (intg f1)) + int (ROUND_UP (frac f1))) = nw f1" "nat (int (ROUND_UP (intg f2)) + int (ROUND_UP (frac f2))) = nw f2"
    by (simp_all add: nw_def)
  obtain t0 where t0: "fill_words (R + F) 0 0 (buf to) = Some t0" "mul_rows (buf f1) (buf f2) (nw f1) (nw f1) (nw f2) (nw f2) (R + F) t0 = Some t"
    using t by (auto simp: bind_eq_Some_conv)
  show ?thesis
    unfolding decimal_mul_def Let_def R_def [symmetric] F_def [symmetric] fx prod.case simp_thms if_True if_False n t0 bind.bind_lunit
    by simp
qed

lemma make_zero_ok:
  assumes "0 < len to"
  obtains to' where "decimal_make_zero to = Some to'" "intg to' = 1" "frac to' = 0" "\<not> sign to'" "len to' = len to" "hd (buf to') = 0" "mag to' = 0" "dec_ok to'"
proof -
  obtain b bs where "buf to = b # bs" using assms by (cases "buf to") auto
  then show thesis by (intro that [of "to\<lparr>buf := 0 # bs, intg := 1, frac := 0, sign := False\<rparr>"])
      (auto simp: decimal_make_zero_def wr_def mag_def wrds_def nw_def ROUND_UP_def dec_ok_def)
qed

lemma normalize_zero:
  assumes "0 < len z" "intg z = 1"
  shows "mul_normalize z R = Some z"
proof -
  have "drop_zero_words (buf z) 0 1 = Some (0, 1)" using assms(1) by (subst drop_zero_words.simps) (simp add: rd_def)
  then show ?thesis using assms(2) by (simp add: mul_normalize_def)
qed

lemma skip_all_zero:
  assumes "words_ok ws" "length ws \<le> length b"
  obtains k where "skip_zero (patch b 0 ws) 0 (length ws) = Some k" "k = length ws \<longleftrightarrow> wval ws = 0"
proof -
  have nth: "patch b 0 ws ! j = ws ! j" if "j < length ws" for j using that by (simp add: patch_def nth_append)
  obtain k where k: "skip_zero (patch b 0 ws) 0 (length ws) = Some k" "k \<le> length ws" "\<forall>j\<in>{0..<k}. patch b 0 ws ! j = 0" "k < length ws \<longrightarrow> patch b 0 ws ! k \<noteq> 0"
    using skip_zero_ok [of 0 "length ws" "patch b 0 ws"] assms(2) by auto
  have "k = length ws \<longleftrightarrow> (\<forall>x\<in>set ws. x = 0)"
  proof (cases "k = length ws")
    case True
    then show ?thesis using k(3) nth by (auto simp: all_set_conv_all_nth)
  next
    case False
    then have "k < length ws" using k(2) by simp
    then show ?thesis using k(4) nth [of k] False by (auto dest: nth_mem)
  qed
  then show ?thesis using that k(1) wval_eq_0 [OF assms(1)] by blast
qed

lemma decimal_mul_ok:
  fixes f1 f2 to :: decimal_t
  defines "R \<equiv> ROUND_UP (intg f1 + intg f2)" and "F \<equiv> ROUND_UP (frac f1) + ROUND_UP (frac f2)"
  assumes d: "dec_ok f1" "dec_ok f2" "digits_ok f1" "digits_ok f2" "frac_ok f1" "frac_ok f2" "mul_safe f1 f2" and l: "R + F \<le> len to"
  shows "\<exists>to'. decimal_mul f1 f2 to = Some (E_DEC_OK, to') \<and> dec_ok to' \<and> len to' = len to \<and> dval to' = dval f1 * dval f2 \<and> (sign to' \<longrightarrow> mag to' \<noteq> 0)"
proof -
  obtain ws where ws: "do { t \<leftarrow> fill_words (R + F) 0 0 (buf to); mul_rows (buf f1) (buf f2) (nw f1) (nw f1) (nw f2) (nw f2) (R + F) t } = Some (patch (buf to) 0 ws)"
    "length ws = R + F" "words_ok ws" "wval ws = wval (wrds f1) * wval (wrds f2)"
    using mul_words [OF d(1-4,7) l [unfolded R_def F_def]] unfolding R_def F_def by blast
  define to1 where "to1 = to\<lparr>sign := (sign f1 \<noteq> sign f2), frac := frac f1 + frac f2, intg := R * 9, buf := patch (buf to) 0 ws\<rparr>"
  have to1: "dec_ok to1" "len to1 = len to" "mag to1 = mag f1 * mag f2" "sign to1 = (sign f1 \<noteq> sign f2)" "intg to1 = R * 9" "mag to1 = 0 \<longleftrightarrow> wval ws = 0"
    using product_number [OF d(1,2,5,6) l [unfolded R_def F_def] ws(2-4) [unfolded R_def F_def], of "sign f1 \<noteq> sign f2"] unfolding to1_def R_def by blast+
  have T: "0 < R + F" "0 < len to" using dec_okD(1,2) [OF to1(1)] to1(2) dec_okD(1) [OF d(1)] l
    by (auto simp: R_def F_def nw_def)
  obtain k where k: "skip_zero (patch (buf to) 0 ws) 0 (R + F) = Some k" "k = R + F \<longleftrightarrow> wval ws = 0"
    using skip_all_zero [OF ws(3), of "buf to"] ws(2) l by auto
  note code = decimal_mul_code [OF l [unfolded R_def F_def] ws(1) [unfolded R_def F_def], folded R_def F_def, folded to1_def, unfolded Let_def k(1) bind.bind_lunit]
  show ?thesis
  proof (cases "sign f1 \<noteq> sign f2 \<and> wval ws = 0")
    case True
    obtain z where z: "decimal_make_zero to1 = Some z" "intg z = 1" "\<not> sign z" "len z = len to1" "mag z = 0" "dec_ok z"
      by (rule make_zero_ok [of to1]) (use T(2) to1(2) in auto)
    have "decimal_mul f1 f2 to = Some (E_DEC_OK, z)"
      using True T k(2) z(1) normalize_zero [of z R] z(2,4) to1(2) unfolding code by simp
    moreover have "dval f1 * dval f2 = 0" using True to1(3,6) by (auto simp: dval_def)
    ultimately show ?thesis using z to1(2) by (simp add: dval_def)
  next
    case False
    obtain to' where to': "mul_normalize to1 R = Some to'" "dec_ok to'" "len to' = len to1" "mag to' = mag to1" "sign to' = sign to1"
      using mul_normalize_ok [OF to1(1,5)] by blast
    have "decimal_mul f1 f2 to = Some (E_DEC_OK, to')" using False T(1) k(2) to'(1) unfolding code by auto
    moreover have "dval to' = dval f1 * dval f2" using to'(4,5) to1(3,4) by (auto simp: dval_def)
    ultimately show ?thesis using to' to1(2,4,6) False by auto
  qed
qed

section \<open>Properties\<close>

text \<open>C9 Multiplication is exact: with a result of the size that \<open>decimal_result_size\<close> gives for \<open>*\<close>, \<open>decimal_mul\<close> returns the
  product of two numbers and never a negative zero, provided that one factor has a single word or only words up
  to 147483646, so that the sums of three words fit 32 bits.\<close>

theorem decimal_mul_correct:
  assumes "dec_ok f1" "dec_ok f2" "digits_ok f1" "digits_ok f2" "frac_ok f1" "frac_ok f2" "mul_safe f1 f2"
    "decimal_result_size f1 f2 CHR ''*'' p = Some n" "n \<le> len to"
  shows "\<exists>to'. decimal_mul f1 f2 to = Some (E_DEC_OK, to') \<and> dec_ok to' \<and> dval to' = dval f1 * dval f2 \<and> (sign to' \<longrightarrow> mag to' \<noteq> 0)"
proof -
  have "ROUND_UP (intg f1 + intg f2) + (ROUND_UP (frac f1) + ROUND_UP (frac f2)) \<le> len to"
    using assms(8,9) by (simp add: decimal_result_size_def add.assoc)
  then show ?thesis using decimal_mul_ok [OF assms(1-7)] by blast
qed

theorem decimal_mul_correct_witness:
  "\<exists>to'. decimal_mul (dec True 12 1 [123, 456789012, 500000000]) (dec False 0 1 [900000000]) (dec False 0 0 [0, 0, 0, 0]) = Some (E_DEC_OK, to') \<and>
    dval to' = - 123456789012.5 * 0.9"
proof -
  let ?a = "dec True 12 1 [123, 456789012, 500000000]" and ?b = "dec False 0 1 [900000000]"
  have "dval ?a * dval ?b = - 123456789012.5 * 0.9" "dec_ok ?a" "dec_ok ?b" "digits_ok ?a" "digits_ok ?b" "frac_ok ?a" "frac_ok ?b" "mul_safe ?a ?b"
    "decimal_result_size ?a ?b CHR ''*'' 0 = Some 4" by (simp_all add: dec_eval digits_ok_def frac_ok_def mul_safe_def decimal_result_size_def)
  with decimal_mul_correct [of ?a ?b 0 4 "dec False 0 0 [0, 0, 0, 0]"] show ?thesis by auto
qed

text \<open>Without that condition it is not: the sum of a word, the low half of a product and the carry can exceed 32 bits.
  The product of two integers of 18 digits then has a negative word.\<close>

lemma decimal_mul_overflows:
  "decimal_mul (dec False 18 0 [555555555, 999999999]) (dec False 18 0 [999999998, 500000000]) (dec False 0 0 [0, 0, 0, 0]) =
     Some (E_DEC_OK, dec False 36 0 [555555553, - 2128300631, 1, 500000000]) \<and>
   555555555999999999 * 999999998500000000 = wval [555555555, 166666665, 1, 500000000]"
  by code_simp

end
