(* ===== verification/Decimal_Int.thy ===== *)
theory Decimal_Int
  imports Decimal_Sub
begin

text \<open>
  Conversions between decimal numbers and 64-bit integers: they are exact, and the tests for overflow find exactly the
  numbers outside the range.
\<close>

section \<open>From integers\<close>

declare count_words.simps [simp del]

lemma count_words_bound: "0 < count_words x" "int x < DIG_BASE ^ count_words x"
proof (induction x rule: count_words.induct)
  case (1 x)
  have "int x < DIG_BASE * DIG_BASE ^ count_words (x div 1000000000)" if "x \<ge> 1000000000"
  proof -
    have "int (x div 1000000000) + 1 \<le> DIG_BASE ^ count_words (x div 1000000000)" using 1(2) [OF that] by linarith
    then have "(int (x div 1000000000) + 1) * DIG_BASE \<le> DIG_BASE ^ count_words (x div 1000000000) * DIG_BASE" by (intro mult_right_mono) simp_all
    then show ?thesis by (simp add: zdiv_int)
  qed
  then show "int x < DIG_BASE ^ count_words x" unfolding count_words.simps [of x] by (cases "x \<ge> 1000000000") (simp_all only: if_True if_False power_Suc, simp)
  show "0 < count_words x" by (simp add: count_words.simps [of x])
qed

lemma count_words_64: "x < 2 ^ 64 \<Longrightarrow> count_words x \<le> 3"
proof -
  assume "x < 2 ^ 64"
  then have "x div 1000000000 div 1000000000 < 1000000000" by simp
  then have "count_words (x div 1000000000 div 1000000000) = 1" by (subst count_words.simps) simp
  then show "count_words x \<le> 3"
    by (simp add: count_words.simps [of x] count_words.simps [of "x div 1000000000"])
qed

lemma put_words_ok:
  "n \<le> i \<Longrightarrow> i \<le> length t \<Longrightarrow>
   \<exists>ws. put_words n i x t = Some (patch t (i - n) ws) \<and> length ws = n \<and> words_ok ws \<and> wval ws = int x mod DIG_BASE ^ n"
proof (induction n arbitrary: i x t)
  case (Suc n)
  obtain j where j: "i = Suc j" using Suc.prems by (meson Suc_le_D)
  define a where "a = int (x - x div 1000000000 * 1000000000)"
  have a: "a = int x mod DIG_BASE" by (simp add: a_def minus_div_mult_eq_mod of_nat_mod)
  obtain ws where ws: "put_words n j (x div 1000000000) (t[j := a]) = Some (patch (t[j := a]) (j - n) ws)" "length ws = n" "words_ok ws"
    "wval ws = int (x div 1000000000) mod DIG_BASE ^ n" using Suc.IH [of j "t[j := a]"] Suc.prems j by auto
  have "put_words (Suc n) i x t = Some (patch t (j - n) (ws @ [a]))"
    using ws(1,2) Suc.prems j patch_patch_down [of "j - n" ws "[a]" t] by (simp add: a_def [symmetric] Let_def patch_update)
  moreover have "wval (ws @ [a]) = int x mod DIG_BASE ^ Suc n"
    using ws(4) a zmod_zmult2_eq [of "DIG_BASE ^ n" "int x" DIG_BASE] by (simp add: zdiv_int)
  ultimately show ?case using ws(2,3) a j by (intro exI [of _ "ws @ [a]"]) simp
qed simp

lemma ull2dec_ok:
  assumes "count_words x \<le> len to"
  shows "\<exists>to'. ull2dec x to = Some (E_DEC_OK, to') \<and> dec_ok to' \<and> mag to' = of_nat x \<and> sign to' = sign to \<and> frac to' = 0 \<and> len to' = len to"
proof -
  let ?n = "count_words x"
  obtain ws where ws: "put_words ?n ?n x (buf to) = Some (patch (buf to) 0 ws)" "length ws = ?n" "words_ok ws" "wval ws = int x mod DIG_BASE ^ ?n"
    using put_words_ok [of ?n ?n "buf to" x] assms by auto
  let ?to = "to\<lparr>frac := 0, intg := ?n * 9, buf := patch (buf to) 0 ws\<rparr>"
  have "wrds ?to = ws" using ws(2) by (simp add: wrds_def nw_def patch_def)
  moreover have "wval ws = int x" using ws(4) count_words_bound(2) [of x] by simp
  ultimately have "dec_ok ?to" "mag ?to = of_nat x" using ws(2,3) assms count_words_bound(1) [of x] by (simp_all add: dec_ok_def nw_def mag_def)
  then show ?thesis using ws assms by (simp add: ull2dec_def Let_def)
qed

section \<open>To integers\<close>

lemma mod_once: "m \<le> q \<Longrightarrow> q < 2 * m \<Longrightarrow> q mod m = q - m" for q m :: int
  using mod_pos_pos_trivial [of "q - m" m] by simp

lemma grown:
  fixes q r m :: int
  assumes "m \<le> q" "0 \<le> m" "0 \<le> r"
  shows "\<not> q * DIG_BASE ^ n + r < m"
proof -
  have "q * 1 \<le> q * DIG_BASE ^ n" using assms by (intro mult_left_mono) simp_all
  then show ?thesis using assms by linarith
qed

lemma ull_loop_ok:
  "words_ok (part b i n) \<Longrightarrow> i + n \<le> length b \<Longrightarrow> 0 \<le> x \<Longrightarrow> x < 2 ^ 64 \<Longrightarrow>
   (if x * DIG_BASE ^ n + wval (part b i n) < 2 ^ 64 then ull_loop b n i x = Some (Inr (i + n, x * DIG_BASE ^ n + wval (part b i n)))
    else \<exists>y. ull_loop b n i x = Some (Inl y))"
proof (induction n arbitrary: i x)
  case (Suc n)
  define w where "w = b ! i"
  have p: "part b i (Suc n) = w # part b (Suc i) n" using Suc.prems(2) by (simp add: part_Cons w_def)
  have w: "0 \<le> w" "w < DIG_BASE" "words_ok (part b (Suc i) n)" using Suc.prems(1) unfolding p by simp_all
  have l: "length (part b (Suc i) n) = n" using Suc.prems(2) by simp
  have v: "x * DIG_BASE ^ Suc n + wval (part b i (Suc n)) = (x * DIG_BASE + w) * DIG_BASE ^ n + wval (part b (Suc i) n)"
    unfolding p by (simp add: l algebra_simps)
  show ?case
  proof (cases "x * DIG_BASE + w < 2 ^ 64")
    case True
    then have "ull_loop b (Suc n) i x = ull_loop b n (Suc i) (x * DIG_BASE + w)"
      using Suc.prems(2,3) w(1) by (simp add: rd_def w_def [symmetric] Let_def)
    then show ?thesis using Suc.IH [of "Suc i" "x * DIG_BASE + w"] Suc.prems w True unfolding v by simp
  next
    case False
    have "\<not> x * DIG_BASE ^ Suc n + wval (part b i (Suc n)) < 2 ^ 64" unfolding v
      by (rule grown) (use False wval_bounds [OF w(3)] in simp_all)
    moreover have "18446744073 < x \<or> (x * DIG_BASE + w) mod 18446744073709551616 < x"
    proof (cases "18446744073 < x")
      case False
      then have "x = 18446744073" using \<open>\<not> x * DIG_BASE + w < 2 ^ 64\<close> w(2) by simp
      moreover from this have "(x * DIG_BASE + w) mod 18446744073709551616 = x * DIG_BASE + w - 18446744073709551616"
        using w(2) \<open>\<not> x * DIG_BASE + w < 2 ^ 64\<close> by (intro mod_once) simp_all
      ultimately show ?thesis using w(2) by simp
    qed simp
    then have "ull_loop b (Suc n) i x = Some (Inl x)" using Suc.prems(2) by (auto simp: rd_def w_def [symmetric] Let_def)
    ultimately show ?thesis by simp
  qed
qed simp

lemma int64_id [simp]: "- 9223372036854775808 \<le> x \<Longrightarrow> x < 9223372036854775808 \<Longrightarrow> int64 x = x"
  by (simp add: int64_def)

lemma int64_below: "- 27670116110564327424 \<le> x \<Longrightarrow> x < - 9223372036854775808 \<Longrightarrow> int64 x = x + 18446744073709551616"
proof -
  assume "- 27670116110564327424 \<le> x" "x < - 9223372036854775808"
  then have "(x + 9223372036854775808 + 18446744073709551616) mod 18446744073709551616 = x + 9223372036854775808 + 18446744073709551616"
    by (intro mod_pos_pos_trivial) simp_all
  then have "(x + 9223372036854775808) mod 18446744073709551616 = x + 9223372036854775808 + 18446744073709551616" unfolding mod_add_self2 .
  then show ?thesis by (simp add: int64_def)
qed

lemma ll_loop_ok:
  "words_ok (part b i n) \<Longrightarrow> i + n \<le> length b \<Longrightarrow> x \<le> 0 \<Longrightarrow> - (2 ^ 63) \<le> x \<Longrightarrow>
   (if - (2 ^ 63) \<le> x * DIG_BASE ^ n - wval (part b i n) then ll_loop b n i x = Some (Inr (i + n, x * DIG_BASE ^ n - wval (part b i n)))
    else \<exists>y. ll_loop b n i x = Some (Inl y))"
proof (induction n arbitrary: i x)
  case (Suc n)
  define w where "w = b ! i"
  define q where "q = x * DIG_BASE - w"
  have p: "part b i (Suc n) = w # part b (Suc i) n" using Suc.prems(2) by (simp add: part_Cons w_def)
  have w: "0 \<le> w" "w < DIG_BASE" "words_ok (part b (Suc i) n)" using Suc.prems(1) unfolding p by simp_all
  have l: "length (part b (Suc i) n) = n" using Suc.prems(2) by simp
  have v: "x * DIG_BASE ^ Suc n - wval (part b i (Suc n)) = q * DIG_BASE ^ n - wval (part b (Suc i) n)"
    unfolding p q_def by (simp add: l algebra_simps)
  have q: "q \<le> x" using Suc.prems(3) w(1) by (simp add: q_def)
  have r: "ll_loop b (Suc n) i x = (if x < - 9223372036 \<or> int64 q > x then Some (Inl x) else ll_loop b n (Suc i) (int64 q))"
    using Suc.prems(2) by (simp add: rd_def w_def [symmetric] q_def [symmetric] Let_def)
  show ?case
  proof (cases "- (2 ^ 63) \<le> q")
    case True
    then have "int64 q = q" "\<not> x < - 9223372036" using q Suc.prems(3) w(1) by (auto simp: q_def)
    then have "ll_loop b (Suc n) i x = ll_loop b n (Suc i) q" using r q by simp
    then show ?thesis using Suc.IH [of "Suc i" q] Suc.prems w(3) True q unfolding v by simp
  next
    case False
    have "\<not> - q * DIG_BASE ^ n + wval (part b (Suc i) n) < 2 ^ 63 + 1" by (rule grown) (use False wval_bounds [OF w(3)] in simp_all)
    then have "\<not> - (2 ^ 63) \<le> x * DIG_BASE ^ Suc n - wval (part b i (Suc n))" unfolding v by simp
    moreover have "x < - 9223372036 \<or> int64 q > x"
    proof (cases "x < - 9223372036")
      case False
      then have "x = - 9223372036" using \<open>\<not> - (2 ^ 63) \<le> q\<close> w(2) by (simp add: q_def)
      then show ?thesis using int64_below [of q] \<open>\<not> - (2 ^ 63) \<le> q\<close> w(2) by (simp add: q_def)
    qed simp
    ultimately show ?thesis using r by auto
  qed
qed simp

section \<open>The integral part\<close>

lemma mag_split:
  assumes "dec_ok d"
  defines "N \<equiv> wval (take (ROUND_UP (intg d)) (buf d))" and "R \<equiv> wval (part (buf d) (ROUND_UP (intg d)) (ROUND_UP (frac d)))"
  shows "\<lfloor>mag d\<rfloor> = N" "mag d = of_int N \<longleftrightarrow> R = 0" "0 \<le> N" "words_ok (part (buf d) (ROUND_UP (intg d)) (ROUND_UP (frac d)))"
proof -
  have c: "cut 0 d = of_int N" by (simp add: cut_def N_def)
  show "\<lfloor>mag d\<rfloor> = N" using cut_bounds(2,3) [OF assms(1), of 0] unfolding c by (intro floor_unique) simp_all
  show "0 \<le> N" using cut_bounds(1) [OF assms(1), of 0] unfolding c by simp
  have "wrds d = take (ROUND_UP (intg d)) (buf d) @ part (buf d) (ROUND_UP (intg d)) (ROUND_UP (frac d))"
    using take_parts [of "ROUND_UP (intg d)" "nw d" "buf d"] by (simp add: wrds_def nw_def)
  moreover have "length (part (buf d) (ROUND_UP (intg d)) (ROUND_UP (frac d))) = ROUND_UP (frac d)"
    using dec_okD(2) [OF assms(1)] by (simp add: nw_def)
  ultimately have "wval (wrds d) = N * DIG_BASE ^ ROUND_UP (frac d) + R" "words_ok (part (buf d) (ROUND_UP (intg d)) (ROUND_UP (frac d)))"
    using dec_okD(3) [OF assms(1)] by (simp_all add: N_def R_def)
  then show "mag d = of_int N \<longleftrightarrow> R = 0" "words_ok (part (buf d) (ROUND_UP (intg d)) (ROUND_UP (frac d)))" by (simp_all add: mag_def field_simps)
qed

lemma skip_fraction:
  assumes "dec_ok d"
  obtains k where "skip_zero (buf d) (ROUND_UP (intg d)) (ROUND_UP (frac d)) = Some k"
    "k < ROUND_UP (intg d) + ROUND_UP (frac d) \<longleftrightarrow> mag d \<noteq> of_int \<lfloor>mag d\<rfloor>"
proof -
  let ?I = "ROUND_UP (intg d)" and ?F = "ROUND_UP (frac d)"
  have l: "?I + ?F \<le> len d" using dec_okD(2) [OF assms] by (simp add: nw_def)
  obtain k where k: "skip_zero (buf d) ?I ?F = Some k" "?I \<le> k" "k \<le> ?I + ?F" "\<forall>j\<in>{?I..<k}. buf d ! j = 0" "k < ?I + ?F \<longrightarrow> buf d ! k \<noteq> 0"
    using skip_zero_ok [OF l] by blast
  have "k < ?I + ?F \<longleftrightarrow> wval (part (buf d) ?I ?F) \<noteq> 0"
  proof (cases "k < ?I + ?F")
    case True
    then have "buf d ! k \<in> set (part (buf d) ?I ?F)" using k(2) l by (auto simp: part_def in_set_conv_nth intro!: exI [of _ "k - ?I"])
    then show ?thesis using True k(5) wval_eq_0 [OF mag_split(4) [OF assms]] by auto
  next
    case False
    then have "part (buf d) ?I ?F = replicate ?F 0" using k(3,4) l by (intro part_zeros) auto
    then show ?thesis using False by simp
  qed
  then show thesis using that k(1) mag_split(1,2) [OF assms] by simp
qed

lemma decimal2ulonglong_ok:
  assumes "dec_ok d" "\<not> sign d"
  shows "if \<lfloor>mag d\<rfloor> < 2 ^ 64 then decimal2ulonglong d = Some (if mag d = of_int \<lfloor>mag d\<rfloor> then E_DEC_OK else E_DEC_TRUNCATED, \<lfloor>mag d\<rfloor>)
    else \<exists>y. decimal2ulonglong d = Some (E_DEC_OVERFLOW, y)"
proof -
  let ?I = "ROUND_UP (intg d)"
  have "words_ok (part (buf d) 0 ?I)" "0 + ?I \<le> len d"
    using dec_okD(2,3) [OF assms(1)] words_ok_take [of "nw d" "buf d" ?I] by (simp_all add: part_zero nw_def wrds_def)
  note u = ull_loop_ok [OF this order_refl, simplified, unfolded part_zero, folded mag_split(1) [OF assms(1)]]
  obtain k where k: "skip_zero (buf d) ?I (ROUND_UP (frac d)) = Some k" "k < ?I + ROUND_UP (frac d) \<longleftrightarrow> mag d \<noteq> of_int \<lfloor>mag d\<rfloor>"
    using skip_fraction [OF assms(1)] .
  show ?thesis
  proof (cases "\<lfloor>mag d\<rfloor> < 2 ^ 64")
    case True
    then show ?thesis using u k assms(2) by (simp add: decimal2ulonglong_def)
  next
    case False
    then show ?thesis using u assms(2) by (auto simp: decimal2ulonglong_def)
  qed
qed

text \<open>The integer that is nearest to the number on the side of 0.\<close>

definition trunc :: "decimal_t \<Rightarrow> int" where
  "trunc d = (if sign d then - \<lfloor>mag d\<rfloor> else \<lfloor>mag d\<rfloor>)"

lemma decimal2longlong_ok:
  assumes "dec_ok d"
  shows "if - (2 ^ 63) \<le> trunc d \<and> trunc d < 2 ^ 63
    then decimal2longlong d = Some (if dval d = of_int (trunc d) then E_DEC_OK else E_DEC_TRUNCATED, trunc d)
    else \<exists>y. decimal2longlong d = Some (E_DEC_OVERFLOW, y)"
proof -
  let ?I = "ROUND_UP (intg d)" and ?N = "\<lfloor>mag d\<rfloor>"
  have "words_ok (part (buf d) 0 ?I)" "0 + ?I \<le> len d"
    using dec_okD(2,3) [OF assms(1)] words_ok_take [of "nw d" "buf d" ?I] by (simp_all add: part_zero nw_def wrds_def)
  note u = ll_loop_ok [OF this order_refl, simplified, unfolded part_zero, folded mag_split(1) [OF assms(1)]]
  have N: "0 \<le> ?N" using mag_split(1,3) [OF assms(1)] by simp
  obtain k where k: "skip_zero (buf d) ?I (ROUND_UP (frac d)) = Some k" "k < ?I + ROUND_UP (frac d) \<longleftrightarrow> mag d \<noteq> of_int ?N"
    using skip_fraction [OF assms(1)] .
  have e: "dval d = of_int (trunc d) \<longleftrightarrow> mag d = of_int ?N" by (auto simp: dval_def trunc_def)
  define M where "M = ?N"
  note m = u [folded M_def] N [folded M_def] k [folded M_def] e [folded M_def]
  have t: "trunc d = (if sign d then - M else M)" by (simp add: trunc_def M_def)
  consider "M < 2 ^ 63" | "M = 2 ^ 63" | "2 ^ 63 < M" by linarith
  then show ?thesis
  proof cases
    case 1
    then have "ll_loop (buf d) ?I 0 0 = Some (Inr (?I, - M))" using m(1) by simp
    then show ?thesis using 1 m(2-) by (auto simp: decimal2longlong_def t)
  next
    case 2
    then have l: "ll_loop (buf d) ?I 0 0 = Some (Inr (?I, - (2 ^ 63)))" using m(1) by simp
    have "int64 9223372036854775808 = - 9223372036854775808" by (simp add: int64_def)
    then show ?thesis using 2 l m(2-) by (auto simp: decimal2longlong_def t)
  next
    case 3
    then obtain y where "ll_loop (buf d) ?I 0 0 = Some (Inl y)" using m(1) by auto
    then show ?thesis using 3 m(2) by (auto simp: decimal2longlong_def t)
  qed
qed

section \<open>Properties\<close>

text \<open>C18 \<open>decimal2longlong\<close> cuts off the fraction and reports that there was one; it reports an overflow for exactly the
  numbers whose integral part is not a signed 64-bit integer.\<close>

theorem decimal2longlong_correct:
  assumes "dec_ok d"
  shows "if - (2 ^ 63) \<le> trunc d \<and> trunc d < 2 ^ 63
    then decimal2longlong d = Some (if dval d = of_int (trunc d) then E_DEC_OK else E_DEC_TRUNCATED, trunc d)
    else \<exists>y. decimal2longlong d = Some (E_DEC_OVERFLOW, y)"
  using decimal2longlong_ok [OF assms] .

theorem decimal2longlong_correct_witness:
  "decimal2longlong (dec True 19 1 [9, 223372036, 854775808, 500000000]) = Some (E_DEC_TRUNCATED, - 9223372036854775808) \<and>
   (\<exists>y. decimal2longlong (dec False 19 0 [9, 223372036, 854775808]) = Some (E_DEC_OVERFLOW, y))"
proof -
  let ?a = "dec True 19 1 [9, 223372036, 854775808, 500000000]" and ?b = "dec False 19 0 [9, 223372036, 854775808]"
  have "\<lfloor>mag ?a\<rfloor> = 9223372036854775808" "\<lfloor>mag ?b\<rfloor> = 9223372036854775808" by (intro floor_unique; simp add: dec_eval)+
  then have t: "trunc ?a = - 9223372036854775808" "trunc ?b = 9223372036854775808" unfolding trunc_def by simp_all
  have "dec_ok ?a" "dec_ok ?b" "dval ?a \<noteq> - 9223372036854775808" by (simp_all add: dec_eval)
  then show ?thesis using decimal2longlong_correct [of ?a, unfolded t] decimal2longlong_correct [of ?b, unfolded t] by simp
qed

text \<open>C19 Signed 64-bit integers survive the way to a decimal number and back: \<open>longlong2decimal\<close> gives a number of that value in any
  result of at least three words, and \<open>decimal2longlong\<close> returns the integer without an error.\<close>

theorem longlong_roundtrip:
  assumes "- (2 ^ 63) \<le> x" "x < 2 ^ 63" "3 \<le> len to"
  shows "\<exists>to'. longlong2decimal x to = Some (E_DEC_OK, to') \<and> dec_ok to' \<and> dval to' = of_int x \<and> decimal2longlong to' = Some (E_DEC_OK, x)"
proof -
  define u where "u = nat \<bar>x\<bar>"
  have u: "u < 2 ^ 64" "- x mod 18446744073709551616 = - x" if "x < 0" using that assms(1) by (auto simp: u_def)
  have "u < 2 ^ 64" using assms(1,2) by (auto simp: u_def)
  then have n: "count_words u \<le> len (to\<lparr>sign := (x < 0)\<rparr>)" using count_words_64 [of u] assms(3) by simp
  obtain to' where to': "ull2dec u (to\<lparr>sign := (x < 0)\<rparr>) = Some (E_DEC_OK, to')" "dec_ok to'" "mag to' = of_nat u" "sign to' = (x < 0)"
    using ull2dec_ok [OF n] by auto
  have "longlong2decimal x to = Some (E_DEC_OK, to')"
    using to'(1) u(2) by (cases "x < 0") (simp_all add: longlong2decimal_def u_def)
  moreover have v: "dval to' = of_int x" "trunc to' = x" using to'(3,4) by (simp_all add: dval_def trunc_def u_def)
  ultimately show ?thesis using decimal2longlong_ok [OF to'(2)] assms(1,2) to'(2) by auto
qed

theorem longlong_roundtrip_witness:
  "\<exists>to'. longlong2decimal (- 9223372036854775808) (dec False 0 0 [0, 0, 0]) = Some (E_DEC_OK, to') \<and> decimal2longlong to' = Some (E_DEC_OK, - 9223372036854775808)"
  using longlong_roundtrip [of "- 9223372036854775808" "dec False 0 0 [0, 0, 0]"] by auto

text \<open>The same for unsigned integers.\<close>

lemma ulonglong_roundtrip:
  assumes "x < 2 ^ 64" "3 \<le> len to"
  shows "\<exists>to'. ulonglong2decimal x to = Some (E_DEC_OK, to') \<and> dval to' = of_nat x \<and> decimal2ulonglong to' = Some (E_DEC_OK, int x)"
proof -
  have n: "count_words x \<le> len (to\<lparr>sign := False\<rparr>)" using count_words_64 [OF assms(1)] assms(2) by simp
  obtain to' where to': "ull2dec x (to\<lparr>sign := False\<rparr>) = Some (E_DEC_OK, to')" "dec_ok to'" "mag to' = of_nat x" "\<not> sign to'"
    using ull2dec_ok [OF n] by auto
  then show ?thesis using decimal2ulonglong_ok [OF to'(2,4)] assms(1) by (auto simp: ulonglong2decimal_def dval_def)
qed

end
