(* ===== verification/Spec2Isabelle.thy ===== *)
theory Spec2Isabelle
  imports Queues Tree_Set Hash_Ops Bitmap_Set Pack My_Time_Str Thr_Multi Decimal_Mul Decimal_Int
begin

text \<open>
  \<^bold>\<open>Verification of the C core of MySQL 5.0.15\<close> (\<open>src/trunk/mysql-5.0.15\<close>).

  The server is built on libraries in C: \<open>mysys\<close> (containers, locks, files), \<open>strings\<close> and
  \<open>sql-common\<close> (code that server and clients share).  This development models the parts of them that
  have a contract of their own and do not live from input and output: the containers, the table lock manager,
  the arithmetic of \<open>DECIMAL\<close> values, dates and times, and the length encoding of the protocol.  Paths
  below are relative to the directory named above.

  \<^bold>\<open>Conventions.\<close>  The target is a 64-bit system (\<open>int\<close> has 32 bits, \<open>long\<close> and pointers 64) with threads and
  with the assertions of the \<open>DBUG\<close> library compiled in.  Memory blocks are lists that are read and
  written by \<open>rd\<close> and \<open>wr\<close> of \<open>Prelude\<close>; the result \<open>None\<close> of an operation stands for an execution that has no meaning in C
  (an access outside a block, a failed assertion, a call through a null pointer) or that does not
  return.  A theorem that an operation yields \<open>Some\<close> therefore includes memory safety and termination.
  Loops are recursive functions; where a loop can run forever they are \<open>partial_function\<close>s, so that
  no fuel is needed anywhere.  Functions of the C library, of the allocator and of storage engines are
  parameters or fields of the records.

  \<^bold>\<open>Theories.\<close>

  \<^item> \<open>Prelude\<close>: memory blocks, unsigned arithmetic with wrap-around, comparison functions, and the interfaces
    (locales) \<open>prio_queue\<close>, \<open>counted_set\<close> and \<open>record_index\<close>, with what their users can derive
    from the laws.

  \<^item> \<open>Queues\<close>: \<open>mysys/queues.c\<close>, \<open>include/queues.h\<close>.  \<open>QUEUE\<close> is a record; \<open>queue_insert\<close>, \<open>queue_remove\<close>,
    \<open>_downheap\<close> and the others are functions on it.  The operations keep the heap, insert and remove what they
    should, interpret \<open>prio_queue\<close>, and repeated removal sorts.  Two lemmas show what fails: removal
    from the middle, and comparison functions that answer -2.

  \<^item> \<open>Rb_Tree\<close>, \<open>Tree_Set\<close>: \<open>mysys/tree.c\<close>, \<open>include/my_tree.h\<close>.  The array of parents is a zipper bounded by
    \<open>MAX_TREE_HEIGHT\<close>.  Rebalancing after insertion and deletion keeps the red-black invariant,
    the bound on the height makes the array long enough, and on the level of contents the
    tree is a sorted list of elements with counters (interpretation of \<open>counted_set\<close>), with the memory
    limit and the calls of the \<open>free\<close> function.

  \<^item> \<open>Hash\<close>, \<open>Hash_Chains\<close>, \<open>Hash_Split\<close>, \<open>Hash_Table\<close>, \<open>Hash_Delete\<close>, \<open>Hash_Ops\<close>: \<open>mysys/hash.c\<close>, \<open>include/hash.h\<close>.  Linear hashing in one
    array of links.  \<open>Hash\<close> has the code; \<open>Hash_Chains\<close> the invariant that every record is on the chain that starts at its
    home; \<open>Hash_Split\<close> and \<open>Hash_Delete\<close> the splitting and merging of chains by insertion and deletion; \<open>Hash_Ops\<close> the
    operations as a whole (interpretation of \<open>record_index\<close>), and the update that can loop.

  \<^item> \<open>Bitmap\<close>, \<open>Bitmap_Set\<close>: \<open>mysys/my_bitmap.c\<close>, \<open>mysys/my_bit.c\<close>.  Bytes are \<open>8 word\<close>s.  Every operation implements the
    operation on sets of numbers that it is named after (locale \<open>number_set\<close> and its interpretation), takes and releases the mutex.

  \<^item> \<open>Pack\<close>: \<open>sql-common/pack.c\<close> with the byte macros of \<open>include/my_global.h\<close>.  Encoding and decoding are inverse.

  \<^item> \<open>My_Time\<close>, \<open>My_Time_Days\<close>, \<open>My_Time_Conv\<close>, \<open>My_Time_Str\<close>: \<open>sql-common/my_time.c\<close>.  Day numbers count days,
    seconds since the epoch invert \<open>localtime_r\<close> of a zone with a constant offset, numbers and strings lead back to the
    structure they were made from, accepted input is in range; and the inputs on which the parsers read too far.

  \<^item> \<open>Thr_Lock\<close> and the theories \<open>Thr_Lock_...\<close>: \<open>mysys/thr_lock.c\<close>, \<open>include/thr_lock.h\<close>, on the
    doubly linked lists of the code.  \<open>Thr_Lock_Links\<close>, \<open>Thr_Lock_Queues\<close> and \<open>Thr_Lock_Refine\<close>: the links implement queues of
    instances (a simulation).  \<open>Thr_Lock_Inv\<close>, \<open>Thr_Lock_Keep\<close>, \<open>Thr_Lock_Request\<close>: the invariant on queues.
    \<open>Thr_Lock_System\<close>, \<open>Thr_Lock_Live\<close>: a step relation for any number of threads, each step one stretch under the
    mutex; in every reachable state only compatible locks are active, no thread is left waiting beside an idle
    lock, calls return, and the lock drains.  \<open>Thr_Multi\<close>: \<open>sort_locks\<close>, \<open>thr_multi_lock\<close> and \<open>thr_multi_unlock\<close>,
    the order in which locks are taken, and that a failing request leaves nothing locked.

  \<^item> \<open>Decimal\<close>, \<open>Decimal_Val\<close>, \<open>Decimal_Add\<close>, \<open>Decimal_Sub\<close>, \<open>Decimal_Mul\<close>, \<open>Decimal_Int\<close>: \<open>strings/decimal.c\<close>, \<open>include/decimal.h\<close>.  Numbers
    are arrays of words in base one thousand million with counts of digits; the arithmetic of words wraps at 32 bits.
    \<open>Decimal\<close> has the code of addition, subtraction, comparison, multiplication and the conversions of integers;
    \<open>Decimal_Val\<close> the value of words and the loops with a carry.  \<open>Decimal_Add\<close> and \<open>Decimal_Sub\<close>: sums and differences are exact, or cut
    where the result has no room, with the error code that says so, and the comparison is that of the values.  \<open>Decimal_Mul\<close>: products are
    exact as long as the sums of three words fit 32 bits, and an example where they do not.  \<open>Decimal_Int\<close>: 64-bit
    integers survive the way to a number and back, and overflow is detected exactly.

  \<^bold>\<open>How the parts interact.\<close>  Each operation of a component is a function that calls the functions its C counterpart
  calls.  Users of a container see it through its locale; the lock manager calls back into the
  storage engine through \<open>thr_env\<close>; \<open>thr_multi_lock\<close> composes \<open>thr_lock\<close>, the wait and \<open>thr_unlock\<close>.

  \<^bold>\<open>Not modelled.\<close>  Of the modelled files: the list of all locks and the printing functions of \<open>thr_lock.c\<close>; the
  cursor functions of \<open>tree.c\<close>; division, rounding, shifting and the conversions from and to
  strings, binary keys and floating-point numbers of \<open>decimal.c\<close>.  Of the program: the SQL layer (\<open>sql\<close>, in C++ on global state), the storage
  engines (\<open>myisam\<close>, \<open>myisammrg\<close>, \<open>heap\<close>, \<open>innobase\<close>, \<open>bdb\<close>, \<open>ndb\<close>), whose state is in files, pages and transactions,
  the network layers (\<open>vio\<close>, \<open>libmysql\<close>), the programs under \<open>client\<close>, \<open>extra\<close> and \<open>tools\<close>, the included libraries (\<open>zlib\<close>, \<open>regex\<close>,
  \<open>cmd-line-utils\<close>), and the rest of \<open>mysys\<close> and \<open>strings\<close>: files, the allocator, the key cache, collation tables and
  floating-point conversion, which are calls of the operating system, generated tables or floating-point code.
\<close>

end
